(* ===== verification/Prelude.thy ===== *)
theory Prelude
  imports Main "HOL-Library.Word"
begin

text \<open>
  Shared vocabulary of the development: out-of-range-safe array reads, loops that a callback can
  stop by returning \<open>false\<close>, the three outcomes of a copy-on-write update (the object
  itself, a new object, nothing), JavaScript's array primitives on lists, and the generic lemmas
  on lists, options and sums that the component theories use. The collections
  \<open>js_defs\<close> and \<open>loop_simps\<close> gather the equations the proofs unfold.
\<close>

named_theorems js_defs \<open>definitions of the JavaScript primitives\<close>
named_theorems loop_simps \<open>equations of the early-exit loops\<close>

section \<open>Arrays\<close>

text \<open>
  Reading a JavaScript array past its end yields \<open>undefined\<close>, here \<open>None\<close>.
\<close>

definition nth_opt :: "'a list \<Rightarrow> nat \<Rightarrow> 'a option" where
  "nth_opt xs i = (if i < length xs then Some (xs ! i) else None)"

lemma nth_opt_Some [simp]: "i < length xs \<Longrightarrow> nth_opt xs i = Some (xs ! i)"
  by (simp add: nth_opt_def)

lemma nth_opt_None [simp]: "\<not> i < length xs \<Longrightarrow> nth_opt xs i = None"
  by (simp add: nth_opt_def)

lemma nth_opt_eq_Some: "nth_opt xs i = Some x \<longleftrightarrow> i < length xs \<and> x = xs ! i"
  by (auto simp: nth_opt_def)

lemma nth_opt_mem: "nth_opt xs i = Some x \<Longrightarrow> x \<in> set xs"
  by (auto simp: nth_opt_eq_Some)

lemma nth_opt_size [termination_simp]:
  "nth_opt xs i = Some x \<Longrightarrow> f x < Suc (size_list f xs)"
  using size_list_estimation' [OF nth_opt_mem, of xs i x "f x" f] by force

lemma nth_opt_size_option [termination_simp]:
  "nth_opt xs i = Some (Some x) \<Longrightarrow> f x < Suc (size_list (size_option f) xs)"
  using nth_opt_size [of xs i "Some x" "size_option f"] by simp

text \<open>Array primitives of the source: remove the last element, overwrite, insert and delete.\<close>

definition pop :: "'a list \<Rightarrow> 'a list" where
  "pop xs = butlast xs"

definition swap_out :: "'a list \<Rightarrow> nat \<Rightarrow> 'a list" where
  \<comment> \<open>\<open>idx === len - 1 ? a.pop() : (a[idx] = a.pop())\<close>\<close>
  "swap_out xs i = (if Suc i = length xs then pop xs else (pop xs)[i := last xs])"

definition insert_at :: "'a list \<Rightarrow> nat \<Rightarrow> 'a \<Rightarrow> 'a list" where
  "insert_at xs i x = take i xs @ x # drop i xs"

definition delete_at :: "'a list \<Rightarrow> nat \<Rightarrow> 'a list" where
  "delete_at xs i = take i xs @ drop (Suc i) xs"

lemma length_insert_at [simp]: "i \<le> length xs \<Longrightarrow> length (insert_at xs i x) = Suc (length xs)"
  by (simp add: insert_at_def)

lemma length_delete_at [simp]: "i < length xs \<Longrightarrow> length (delete_at xs i) = length xs - 1"
  by (simp add: delete_at_def)

lemma insert_at_nth:
  "i \<le> length xs \<Longrightarrow> insert_at xs i x ! j = (if j < i then xs ! j else if j = i then x else xs ! (j - 1))"
  by (auto simp: insert_at_def nth_append nth_Cons' min_def not_less intro!: arg_cong [where f = "(!) xs"])

lemma delete_at_nth:
  "i < length xs \<Longrightarrow> delete_at xs i ! j = (if j < i then xs ! j else xs ! Suc j)"
  by (auto simp: delete_at_def nth_append min_def)

lemma length_swap_out [simp]: "i < length xs \<Longrightarrow> length (swap_out xs i) = length xs - 1"
  by (simp add: swap_out_def pop_def)

lemma set_swap_out_subset: "i < length xs \<Longrightarrow> set (swap_out xs i) \<subseteq> set xs"
proof -
  assume i: "i < length xs"
  then have "last xs \<in> set xs" by (cases xs rule: rev_cases) auto
  moreover have "set (butlast xs) \<subseteq> set xs" by (auto dest: in_set_butlastD)
  ultimately show ?thesis
    by (auto simp: swap_out_def pop_def dest!: set_update_subset_insert [THEN subsetD])
qed

section \<open>Loops that stop when the callback returns false\<close>

text \<open>
  \<open>run_until f xs s\<close> calls \<open>f\<close> on the elements of \<open>xs\<close> from left to right, threading the
  state \<open>s\<close>; a callback returns the new state and whether it asked to stop.
\<close>

fun run_until :: "('a \<Rightarrow> 's \<Rightarrow> 's \<times> bool) \<Rightarrow> 'a list \<Rightarrow> 's \<Rightarrow> 's \<times> bool" where
  "run_until f [] s = (s, False)"
| "run_until f (x # xs) s = (let (s', stop) = f x s in if stop then (s', True) else run_until f xs s')"

lemma run_until_append [loop_simps]:
  "run_until f (xs @ ys) s =
     (let (s', stop) = run_until f xs s in if stop then (s', True) else run_until f ys s')"
  by (induction xs arbitrary: s) (auto simp: Let_def split: prod.splits)

lemma run_until_concat [loop_simps]:
  "run_until f (concat xss) s = run_until (\<lambda>xs. run_until f xs) xss s"
  by (induction xss arbitrary: s) (auto simp: run_until_append Let_def split: prod.splits)

lemma run_until_map [loop_simps]: "run_until f (map g xs) s = run_until (\<lambda>x. f (g x)) xs s"
  by (induction xs arbitrary: s) (auto simp: Let_def split: prod.splits)

lemma run_until_never_stops:
  "(\<And>x s. x \<in> set xs \<Longrightarrow> \<not> snd (f x s)) \<Longrightarrow> run_until f xs s = (fold (\<lambda>x s. fst (f x s)) xs s, False)"
proof (induction xs arbitrary: s)
  case (Cons x xs)
  have "\<not> snd (f x s)" using Cons.prems by simp
  then show ?case using Cons by (cases "f x s") (simp add: Let_def)
qed simp

lemma run_until_cong [fundef_cong]:
  "xs = ys \<Longrightarrow> s = t \<Longrightarrow> (\<And>x u. x \<in> set ys \<Longrightarrow> f x u = g x u) \<Longrightarrow> run_until f xs s = run_until g ys t"
proof (induction ys arbitrary: xs s t)
  case (Cons y ys)
  then show ?case by (auto simp: Let_def split: prod.splits)
qed simp

text \<open>The loops read their array forwards, or backwards when asked to \<open>reverse\<close>.\<close>

definition directed :: "bool \<Rightarrow> 'a list \<Rightarrow> 'a list" where
  "directed reverse xs = (if reverse then rev xs else xs)"

lemma directed_False [simp]: "directed False xs = xs"
  and directed_True [simp]: "directed True xs = rev xs"
  by (simp_all add: directed_def)

lemma set_directed [simp, termination_simp]: "set (directed r xs) = set xs"
  by (simp add: directed_def)

lemma length_directed [simp]: "length (directed r xs) = length xs"
  by (simp add: directed_def)

lemma directed_directed [simp]: "directed r (directed r xs) = xs"
  by (simp add: directed_def)

lemma directed_Nil [simp]: "directed r [] = []"
  by (simp add: directed_def)

lemma directed_map: "directed r (map f xs) = map f (directed r xs)"
  by (simp add: directed_def rev_map)

lemma directed_filter: "directed r (filter P xs) = filter P (directed r xs)"
  by (simp add: directed_def rev_filter)

lemma directed_concat: "directed r (concat xss) = concat (directed r (map (directed r) xss))"
  by (cases r) (simp_all add: rev_concat directed_def [abs_def] rev_map)

lemma directed_concat_map: "directed r (concat (map f xs)) = concat (map (\<lambda>x. directed r (f x)) (directed r xs))"
  by (simp add: directed_concat directed_map o_def)

lemma mem_size_list [termination_simp]: "x \<in> set xs \<Longrightarrow> f x < Suc (size_list f xs)"
  by (rule le_imp_less_Suc) (rule size_list_estimation', auto)

lemma mem_size_list_option [termination_simp]:
  "Some x \<in> set xs \<Longrightarrow> f x < Suc (size_list (size_option f) xs)"
  using mem_size_list [of "Some x" xs "size_option f"] by simp

section \<open>The outcomes of a copy-on-write update\<close>

text \<open>
  A method of an immutable structure returns the receiver itself (possibly edited in place, when
  its owner permits), a newly allocated object, or \<open>undefined\<close>. Code compares these results by
  identity with the receiver (\<open>newNode === node\<close>), so the outcome is kept in the model.
\<close>

datatype 'n upd = Gone | This 'n | New 'n

fun upd_opt :: "'n upd \<Rightarrow> 'n option" where
  "upd_opt Gone = None"
| "upd_opt (This n) = Some n"
| "upd_opt (New n) = Some n"

fun upd_default :: "'n \<Rightarrow> 'n upd \<Rightarrow> 'n" where
  "upd_default d Gone = d"
| "upd_default d (This n) = n"
| "upd_default d (New n) = n"

fun is_this :: "'n upd \<Rightarrow> bool" where
  "is_this (This n) = True"
| "is_this _ = False"

section \<open>Lists up to an equivalence\<close>

lemma upt_split: "i < n \<Longrightarrow> [0..<n] = [0..<i] @ i # [Suc i..<n]"
  using upt_add_eq_append [of 0 i "n - i"] by (simp add: upt_conv_Cons)

lemma concat_map_filter:
  "(\<And>x. x \<in> set xs \<Longrightarrow> \<not> P x \<Longrightarrow> f x = []) \<Longrightarrow> concat (map f (filter P xs)) = concat (map f xs)"
  by (induction xs) auto

text \<open>The first position whose element satisfies a predicate: the \<open>for ... break\<close> search loops.\<close>

fun index_where :: "('a \<Rightarrow> bool) \<Rightarrow> 'a list \<Rightarrow> nat" where
  "index_where P [] = 0"
| "index_where P (x # xs) = (if P x then 0 else Suc (index_where P xs))"

lemma index_where_le: "index_where P xs \<le> length xs"
  by (induction xs) auto

lemma index_where_less_iff: "index_where P xs < length xs \<longleftrightarrow> (\<exists>x \<in> set xs. P x)"
  by (induction xs) auto

lemma index_where_sat: "index_where P xs < length xs \<Longrightarrow> P (xs ! index_where P xs)"
  by (induction xs) auto

lemma index_where_least: "j < index_where P xs \<Longrightarrow> \<not> P (xs ! j)"
  by (induction xs arbitrary: j) (auto simp: nth_Cons' split: if_splits)

lemma find_eq_index_where:
  "List.find P xs = (if index_where P xs < length xs then Some (xs ! index_where P xs) else None)"
  by (induction xs) auto

lemma sum_list_update_nat:
  "i < length xs \<Longrightarrow> sum_list (xs[i := (x::nat)]) + xs ! i = sum_list xs + x"
proof (induction xs arbitrary: i)
  case (Cons y ys)
  then show ?case by (cases i) auto
qed simp

end
