(* ===== verification/Popcount.thy ===== *)
theory Popcount
  imports Prelude
begin

unbundle bit_operations_syntax

text \<open>
  The bit-twiddling population count of \<open>static/drf-yasg/immutable.js\<close> (function
  \<open>popCount\<close>) on 32-bit words, and its equivalence with counting the set bits one by one. The
  trie nodes of \<open>Map\<close> index their packed children with it. The proof follows the three field-adding
  steps: each one adds neighbouring base-4, base-16 and base-256 digits of the word's value.
\<close>

definition popCount :: "32 word \<Rightarrow> 32 word" where
  "popCount x0 =
     (let x1 = x0 - (signed_drop_bit 1 x0 AND 0x55555555);
          x2 = (x1 AND 0x33333333) + (signed_drop_bit 2 x1 AND 0x33333333);
          x3 = (x2 + signed_drop_bit 4 x2) AND 0x0f0f0f0f;
          x4 = x3 + signed_drop_bit 8 x3;
          x5 = x4 + signed_drop_bit 16 x4
      in x5 AND 0x7f)"

fun ones :: "nat \<Rightarrow> nat \<Rightarrow> nat" where
  "ones 0 n = 0"
| "ones (Suc k) n = n mod 2 + ones k (n div 2)"

text \<open>Digits in base \<open>B\<close>, least significant first.\<close>
fun digit_val :: "nat \<Rightarrow> nat list \<Rightarrow> nat" where
  "digit_val B [] = 0" | "digit_val B (a # as) = a + B * digit_val B as"

fun digits :: "nat \<Rightarrow> nat \<Rightarrow> nat \<Rightarrow> nat list" where
  "digits B 0 n = []" | "digits B (Suc k) n = n mod B # digits B k (n div B)"

lemma digit_val_digits: "0 < B \<Longrightarrow> n < B ^ k \<Longrightarrow> digit_val B (digits B k n) = n"
proof (induction k arbitrary: n)
  case (Suc k)
  then have "n div B < B ^ k" by (simp add: less_mult_imp_div_less mult.commute)
  with Suc show ?case by simp
qed simp

lemma and_low_mask:
  assumes "j \<le> k" shows "(n::nat) AND (mask j + 2 ^ k * m) = n mod 2 ^ j + 2 ^ k * ((n div 2 ^ k) AND m)"
proof -
  have "mask j + 2 ^ k * m = (push_bit k m OR mask j)"
  proof -
    have "\<not> bit (push_bit k m) i \<or> \<not> bit (mask j :: nat) i" for i
      using assms by (auto simp: bit_simps)
    from disjunctive_add [OF this] show ?thesis
      by (simp add: push_bit_eq_mult mult.commute add.commute)
  qed
  then have "n AND (mask j + 2 ^ k * m) = (take_bit j n OR push_bit k (drop_bit k n AND m))"
    using assms by (intro bit_eqI) (auto simp: bit_simps)
  also have "\<dots> = take_bit j n + push_bit k (drop_bit k n AND m)"
    by (rule disjunctive_add [symmetric]) (use assms in \<open>auto simp: bit_simps\<close>)
  finally show ?thesis by (simp add: take_bit_eq_mod push_bit_eq_mult drop_bit_eq_div mult.commute)
qed

lemma and_1_4: "(n::nat) AND (1 + 4 * m) = n mod 2 + 4 * (n div 4 AND m)"
  using and_low_mask [of 1 2 n m] by simp

lemma and_3_16: "(n::nat) AND (3 + 16 * m) = n mod 4 + 16 * (n div 16 AND m)"
  using and_low_mask [of 2 4 n m] by (simp add: mask_eq_exp_minus_1)

lemma and_15_256: "(n::nat) AND (15 + 256 * m) = n mod 16 + 256 * (n div 256 AND m)"
  using and_low_mask [of 4 8 n m] by (simp add: mask_eq_exp_minus_1)

lemma step1: "\<forall>d \<in> set ds. d < 4 \<Longrightarrow>
  (digit_val 4 ds div 2 AND digit_val 4 (replicate (length ds) 1)) + digit_val 4 (map (\<lambda>d. d mod 2 + d div 2) ds) = digit_val 4 ds"
proof (induction ds)
  case (Cons d ds)
  have e: "(d + 4 * digit_val 4 ds) div 2 = d div 2 + 2 * digit_val 4 ds" by simp
  have "d < 4" using Cons.prems by simp
  then have 1: "(d div 2 + 2 * digit_val 4 ds) mod 2 = d div 2" by presburger
  have "d div 2 \<le> 1" using \<open>d < 4\<close> by presburger
  then have 2: "(d div 2 + 2 * digit_val 4 ds) div 4 = digit_val 4 ds div 2" by presburger
  let ?v = "digit_val 4 ds" and ?m = "digit_val 4 (replicate (length ds) 1)"
  have "(digit_val 4 (d # ds) div 2 AND digit_val 4 (replicate (length (d # ds)) 1)) = d div 2 + 4 * (?v div 2 AND ?m)"
    unfolding digit_val.simps length_Cons replicate_Suc e and_1_4 1 2 ..
  moreover have "(?v div 2 AND ?m) + digit_val 4 (map (\<lambda>d. d mod 2 + d div 2) ds) = ?v" using Cons by simp
  moreover have "d mod 2 + 2 * (d div 2) = d" by simp
  ultimately show ?case unfolding list.map digit_val.simps by linarith
qed simp

lemma step2: "\<forall>c \<in> set cs. c < 16 \<Longrightarrow>
  (digit_val 16 cs AND digit_val 16 (replicate (length cs) 3)) + (digit_val 16 cs div 4 AND digit_val 16 (replicate (length cs) 3))
   = digit_val 16 (map (\<lambda>c. c mod 4 + c div 4) cs)"
proof (induction cs)
  case (Cons c cs)
  let ?v = "digit_val 16 cs"
  have 1: "(c + 16 * ?v) mod 4 = c mod 4" by presburger
  have 2: "(c + 16 * ?v) div 16 = ?v" using Cons.prems by simp
  have 3: "(c + 16 * ?v) div 4 = c div 4 + 4 * ?v" by simp
  have "c < 16" using Cons.prems by simp
  then have "c div 4 < 4" by linarith
  then have 4: "(c div 4 + 4 * ?v) mod 4 = c div 4" by simp
  then have "(c div 4 + 4 * ?v) div 4 = ?v" by simp
  then have 5: "(c div 4 + 4 * ?v) div 16 = ?v div 4"
    using div_mult2_eq [of "c div 4 + 4 * ?v" 4 4] by simp
  let ?m = "digit_val 16 (replicate (length cs) 3)"
  have "(digit_val 16 (c # cs) AND digit_val 16 (replicate (length (c # cs)) 3)) = c mod 4 + 16 * (?v AND ?m)"
    unfolding digit_val.simps length_Cons replicate_Suc and_3_16 1 2 ..
  moreover have "(digit_val 16 (c # cs) div 4 AND digit_val 16 (replicate (length (c # cs)) 3)) = c div 4 + 16 * (?v div 4 AND ?m)"
    unfolding digit_val.simps length_Cons replicate_Suc 3 and_3_16 4 5 ..
  moreover have "(?v AND ?m) + (?v div 4 AND ?m) = digit_val 16 (map (\<lambda>c. c mod 4 + c div 4) cs)"
    using Cons by simp
  ultimately show ?case unfolding list.map digit_val.simps by linarith
qed simp

lemma step3: "\<forall>b \<in> set bs. b < 256 \<and> b mod 16 \<le> 4 \<and> b div 16 \<le> 4 \<Longrightarrow>
  ((digit_val 256 bs + digit_val 256 bs div 16) AND digit_val 256 (replicate (length bs) 15))
   = digit_val 256 (map (\<lambda>b. b mod 16 + b div 16) bs)"
proof (induction bs)
  case (Cons b bs)
  let ?v = "digit_val 256 bs"
  have b: "b < 256" "b mod 16 \<le> 4" "b div 16 \<le> 4" using Cons.prems by simp_all
  have v: "?v mod 16 \<le> 4"
  proof (cases bs)
    case (Cons a as)
    then have "a mod 16 \<le> 4" using Cons.prems by simp
    then have "(a + 256 * digit_val 256 as) mod 16 \<le> 4" by presburger
    then show ?thesis by (simp add: Cons)
  qed simp
  define lo hi where "lo = b mod 16" and "hi = b div 16"
  have bl: "b = lo + 16 * hi" "lo \<le> 4" "hi \<le> 4" using b by (simp_all add: lo_def hi_def)
  have 0: "b + 256 * ?v + (b + 256 * ?v) div 16 = lo + hi + 16 * (hi + 17 * ?v)"
    using bl by simp
  have 1: "(b + 256 * ?v + (b + 256 * ?v) div 16) mod 16 = b mod 16 + b div 16"
    unfolding 0 lo_def [symmetric] hi_def [symmetric] mod_mult_self2 using bl(2,3) by simp
  have "(lo + hi + 16 * (hi + 17 * ?v)) div 16 = hi + 17 * ?v" using bl(2,3) by simp
  then have "(lo + hi + 16 * (hi + 17 * ?v)) div 256 = (hi + 17 * ?v) div 16"
    using div_mult2_eq [of "lo + hi + 16 * (hi + 17 * ?v)" 16 16] by simp
  also have "\<dots> = (hi + ?v + 16 * ?v) div 16" by (simp add: algebra_simps)
  also have "\<dots> = ?v + (hi + ?v) div 16" by simp
  also have "(hi + ?v) div 16 = ?v div 16"
    using div_add1_eq [of hi ?v 16] v bl(3) by simp
  finally have 2: "(b + 256 * ?v + (b + 256 * ?v) div 16) div 256 = ?v + ?v div 16"
    unfolding 0 .
  have "(digit_val 256 (b # bs) + digit_val 256 (b # bs) div 16 AND digit_val 256 (replicate (length (b # bs)) 15))
      = (b mod 16 + b div 16) + 256 * (?v + ?v div 16 AND digit_val 256 (replicate (length bs) 15))"
    unfolding digit_val.simps length_Cons replicate_Suc and_15_256 1 2 ..
  moreover have "(?v + ?v div 16 AND digit_val 256 (replicate (length bs) 15)) = digit_val 256 (map (\<lambda>b. b mod 16 + b div 16) bs)"
    using Cons by simp
  ultimately show ?case unfolding list.map digit_val.simps by linarith
qed simp

text \<open>Regrouping digits two by two.\<close>

fun pairs :: "nat \<Rightarrow> nat list \<Rightarrow> nat list" where
  "pairs B (a # b # xs) = (a + B * b) # pairs B xs"
| "pairs B xs = xs"

fun add_pairs :: "nat list \<Rightarrow> nat list" where
  "add_pairs (a # b # xs) = (a + b) # add_pairs xs"
| "add_pairs xs = xs"

lemma digit_val_pairs: "even (length xs) \<Longrightarrow> digit_val (B * B) (pairs B xs) = digit_val B xs"
  by (induction B xs rule: pairs.induct) (auto simp: algebra_simps)

lemma length_pairs: "even (length xs) \<Longrightarrow> length (pairs B xs) = length xs div 2"
  by (induction B xs rule: pairs.induct) auto

lemma length_add_pairs: "even (length xs) \<Longrightarrow> length (add_pairs xs) = length xs div 2"
  by (induction xs rule: add_pairs.induct) auto

lemma sum_add_pairs: "sum_list (add_pairs xs) = sum_list xs"
  by (induction xs rule: add_pairs.induct) auto

lemma map_pairs: "even (length xs) \<Longrightarrow> \<forall>x \<in> set xs. x < B \<Longrightarrow>
  map (\<lambda>c. c mod B + c div B) (pairs B xs) = add_pairs xs"
  by (induction B xs rule: pairs.induct) auto

lemma pairs_bound: "even (length xs) \<Longrightarrow> \<forall>x \<in> set xs. x \<le> b \<Longrightarrow> \<forall>c \<in> set (pairs B xs). c \<le> b + B * b"
  by (induction B xs rule: pairs.induct) (auto intro!: add_mono)

lemma pairs_digits: "even (length xs) \<Longrightarrow> \<forall>x \<in> set xs. x \<le> b \<and> x < B \<Longrightarrow>
   \<forall>c \<in> set (pairs B xs). c mod B \<le> b \<and> c div B \<le> b"
  by (induction B xs rule: pairs.induct) auto

lemma add_pairs_bound: "even (length xs) \<Longrightarrow> \<forall>x \<in> set xs. x \<le> b \<Longrightarrow> \<forall>c \<in> set (add_pairs xs). c \<le> 2 * b"
  by (induction xs rule: add_pairs.induct) (auto simp: mult_2 intro!: add_mono)

lemma ones_digits: "ones (2 * k) n = sum_list (map (\<lambda>d. d mod 2 + d div 2) (digits 4 k n))"
proof (induction k arbitrary: n)
  case (Suc k)
  have "n mod 4 mod 2 = n mod 2" by (simp add: mod_mod_cancel)
  moreover have "n mod 4 div 2 = n div 2 mod 2" using mod_mult2_eq [of n 2 2] by simp
  moreover have "n div 4 = n div 2 div 2" using div_mult2_eq [of n 2 2] by simp
  moreover have "ones (2 * Suc k) n = n mod 2 + (n div 2 mod 2 + ones (2 * k) (n div 2 div 2))"
    unfolding mult_Suc_right add_2_eq_Suc ones.simps ..
  ultimately show ?case using Suc [of "n div 2 div 2"] by simp
qed simp

lemma length_digits [simp]: "length (digits B k n) = k"
  by (induction k arbitrary: n) auto

lemma digits_bound: "0 < B \<Longrightarrow> \<forall>d \<in> set (digits B k n). d < B"
  by (induction k arbitrary: n) auto

lemma swar_nat:
  assumes "n < 2 ^ 32"
  defines "x1 \<equiv> n - (n div 2 AND 0x55555555)"
  defines "x2 \<equiv> (x1 AND 0x33333333) + (x1 div 4 AND 0x33333333)"
  defines "x3 \<equiv> (x2 + x2 div 16) AND 0x0f0f0f0f"
  shows "\<exists>bs. x3 = digit_val 256 bs \<and> length bs = 4 \<and> (\<forall>b \<in> set bs. b \<le> 8) \<and> sum_list bs = ones 32 n
    \<and> (n div 2 AND 0x55555555) \<le> n \<and> x1 \<le> n \<and> x2 \<le> 0x44444444"
proof -
  define ds where "ds = digits 4 16 n"
  define ps where "ps = map (\<lambda>d. d mod 2 + d div 2) ds"
  have n: "digit_val 4 ds = n" using assms(1) by (simp add: ds_def digit_val_digits)
  have ds: "\<forall>d \<in> set ds. d < 4" and lds: "length ds = 16" by (simp_all add: ds_def digits_bound)
  have r16: "replicate 16 x = [x,x,x,x,x,x,x,x,x,x,x,x,x,x,x,x]"
    and r8: "replicate 8 x = [x,x,x,x,x,x,x,x]" and r4: "replicate 4 x = [x,x,x,x]" for x :: nat
    by (simp_all add: numeral_eq_Suc)
  have m1: "digit_val 4 (replicate 16 1) = 0x55555555" unfolding r16 by simp
  have m2: "digit_val 16 (replicate 8 3) = 0x33333333" unfolding r8 by simp
  have m3: "digit_val 256 (replicate 4 15) = 0x0f0f0f0f" unfolding r4 by simp
  have x1: "(n div 2 AND 0x55555555) + digit_val 4 ps = n" using step1 [OF ds] unfolding n lds m1 ps_def .
  then have x1': "x1 = digit_val 4 ps" "x1 \<le> n" "(n div 2 AND 0x55555555) \<le> n" by (auto simp: x1_def)
  have "d mod 2 + d div 2 \<le> 2" if "d < 4" for d :: nat using that by linarith
  with ds have ps: "\<forall>p \<in> set ps. p \<le> 2" and ps4: "\<forall>p \<in> set ps. p < 4" and lps: "length ps = 16"
    using lds by (force simp: ps_def)+
  define qs where "qs = add_pairs ps"
  have "\<forall>c \<in> set (pairs 4 ps). c < 16" using pairs_bound [OF _ ps, of 4] lps by force
  from step2 [OF this] have x2: "x2 = digit_val 16 qs"
    using digit_val_pairs [of ps 4] map_pairs [of ps 4] ps4 lps by (simp add: x2_def x1' qs_def length_pairs m2)
  have qs: "\<forall>q \<in> set qs. q \<le> 4" and lqs: "length qs = 8"
    using add_pairs_bound [OF _ ps] lps by (simp_all add: qs_def length_add_pairs)
  then have qs16: "\<forall>q \<in> set qs. q < 16" by force
  define bs where "bs = add_pairs qs"
  have "\<forall>c \<in> set (pairs 16 qs). c < 256 \<and> c mod 16 \<le> 4 \<and> c div 16 \<le> 4"
    using pairs_bound [OF _ qs, of 16] pairs_digits [of qs 4 16] qs qs16 lqs by force
  from step3 [OF this] have x3: "x3 = digit_val 256 bs"
    using digit_val_pairs [of qs 16] map_pairs [of qs 16] qs16 lqs by (simp add: x3_def x2 bs_def length_pairs m3)
  have bs: "\<forall>b \<in> set bs. b \<le> 8" "length bs = 4"
    using add_pairs_bound [OF _ qs] lqs by (simp_all add: bs_def length_add_pairs)
  have "sum_list bs = ones 32 n"
    using ones_digits [of 16 n] by (simp add: bs_def qs_def sum_add_pairs ps_def ds_def)
  moreover have "x2 \<le> 0x44444444"
  proof -
    have "digit_val 16 xs \<le> digit_val 16 (replicate (length xs) 4)" if "\<forall>x \<in> set xs. x \<le> 4" for xs
      using that by (induction xs) (auto intro: add_mono)
    from this [OF qs] show ?thesis unfolding x2 lqs r8 by simp
  qed
  ultimately show ?thesis using x3 bs x1' by blast
qed

lemma fold_bytes:
  assumes "length bs = 4" "\<forall>b \<in> set bs. b \<le> 8"
  defines "x \<equiv> digit_val 256 bs"
  defines "y \<equiv> x + x div 256"
  shows "(y + y div 65536) mod 128 = sum_list bs" "x \<le> 0x08080808" "y \<le> 0x09090909"
proof -
  obtain a b c d where bs: "bs = [a, b, c, d]" using assms(1) by (auto simp: numeral_eq_Suc length_Suc_conv)
  have abcd: "a \<le> 8" "b \<le> 8" "c \<le> 8" "d \<le> 8" using assms(2) by (auto simp: bs)
  have x: "x = a + 256 * (b + 256 * (c + 256 * d))" by (simp add: x_def bs)
  have "x div 256 = b + 256 * (c + 256 * d)" using abcd by (simp add: x)
  then have y: "y = (a + b) + 256 * (b + c) + 65536 * (c + d + 256 * d)" by (simp add: y_def x)
  have "((a + b) + 256 * (b + c)) < 65536" using abcd by simp
  then have "y div 65536 = c + d + 256 * d" unfolding y by simp
  then have "y + y div 65536 = (a + b + c + d) + 128 * (2 * (b + c) + 512 * (c + d + 256 * d) + 2 * d)"
    by (simp add: y)
  then have "(y + y div 65536) mod 128 = (a + b + c + d) mod 128" by (simp only: mod_mult_self2)
  then show "(y + y div 65536) mod 128 = sum_list bs" using abcd by (simp add: bs)
  show "x \<le> 0x08080808" "y \<le> 0x09090909" using abcd by (simp_all add: x y)
qed

lemma signed_drop_bit_positive:
  fixes x :: "32 word"
  assumes "unat x < 2 ^ 31" shows "signed_drop_bit n x = drop_bit n x"
proof -
  have "\<not> bit (unat x) 31" using assms by (simp add: bit_iff_odd)
  then have "\<not> bit x 31" by (simp add: bit_unsigned_iff)
  then show ?thesis
    by (intro bit_word_eqI) (use bit_imp_le_length [of x] in \<open>force simp: bit_signed_drop_bit_iff bit_drop_bit_eq\<close>)
qed

lemma unat_drop: "unat (drop_bit k w) = unat w div 2 ^ k" for w :: "'a::len word"
  unfolding unat_drop_bit_eq by (rule drop_bit_eq_div)

lemma popCount_ones: "unat (popCount w) = ones 32 (unat w)"
proof -
  have d1: "signed_drop_bit 1 w AND 0x55555555 = drop_bit 1 w AND 0x55555555"
  proof (rule bit_word_eqI)
    fix i assume "i < LENGTH(32)"
    moreover have "\<not> bit (0x55555555 :: 32 word) 31" by simp
    ultimately show "bit (signed_drop_bit 1 w AND 0x55555555) i \<longleftrightarrow> bit (drop_bit 1 w AND 0x55555555) i"
      by (cases "i = 31") (auto simp: bit_and_iff bit_signed_drop_bit_iff bit_drop_bit_eq)
  qed
  have d2: "signed_drop_bit 2 w AND 0x33333333 = drop_bit 2 w AND 0x33333333" for w :: "32 word"
  proof (rule bit_word_eqI)
    fix i assume "i < LENGTH(32)"
    moreover have "\<not> bit (0x33333333 :: 32 word) 31" "\<not> bit (0x33333333 :: 32 word) 30" by simp_all
    ultimately show "bit (signed_drop_bit 2 w AND 0x33333333) i \<longleftrightarrow> bit (drop_bit 2 w AND 0x33333333) i"
      by (cases "i = 31 \<or> i = 30") (auto simp: bit_and_iff bit_signed_drop_bit_iff bit_drop_bit_eq)
  qed
  define n where "n = unat w"
  have n: "n < 2 ^ 32" using unsigned_less [of w] by (simp add: n_def)
  define x1 x2 x3 where "x1 = n - (n div 2 AND 0x55555555)"
    and "x2 = (x1 AND 0x33333333) + (x1 div 4 AND 0x33333333)"
    and "x3 = (x2 + x2 div 16) AND 0x0f0f0f0f"
  define y4 where "y4 = x3 + x3 div 256"
  obtain bs where bs: "x3 = digit_val 256 bs" "length bs = 4" "\<forall>b \<in> set bs. b \<le> 8" "sum_list bs = ones 32 n"
    and le: "(n div 2 AND 0x55555555) \<le> n" "x1 \<le> n" "x2 \<le> 0x44444444"
    using swar_nat [OF n] unfolding x1_def [symmetric] x2_def [symmetric] x3_def [symmetric] by blast
  note bytes = fold_bytes [OF bs(2,3), folded bs(1), folded y4_def]
  define w1 where "w1 = w - (drop_bit 1 w AND 0x55555555)"
  have u1: "unat w1 = x1"
  proof -
    have t: "unat (drop_bit 1 w AND 0x55555555) = (n div 2 AND 0x55555555)"
      by (simp only: unsigned_and_eq unat_drop) (simp add: n_def)
    then have "drop_bit 1 w AND 0x55555555 \<le> w" using le(1) by (simp only: word_le_nat_alt n_def)
    from unat_sub [OF this] show ?thesis by (simp only: w1_def x1_def t n_def)
  qed
  define w2 where "w2 = (w1 AND 0x33333333) + (drop_bit 2 w1 AND 0x33333333)"
  have "unat (w1 AND 0x33333333) + unat (drop_bit 2 w1 AND 0x33333333) = x2"
    by (simp only: unsigned_and_eq unat_drop) (simp add: x2_def u1)
  then have u2: "unat w2 = x2" using le(3) by (simp add: w2_def unat_word_ariths)
  define w3 where "w3 = (w2 + drop_bit 4 w2) AND 0x0f0f0f0f"
  have "unat (w2 + drop_bit 4 w2) = x2 + x2 div 16"
    using le(3) by (simp only: unat_word_ariths unat_drop u2) simp
  then have u3: "unat w3 = x3" by (simp add: w3_def x3_def unsigned_and_eq)
  define w4 where "w4 = w3 + drop_bit 8 w3"
  have u4: "unat w4 = y4"
    using bytes(2,3) by (simp only: w4_def y4_def unat_word_ariths u3 unat_drop) simp
  have u5: "unat (w4 + drop_bit 16 w4) = y4 + y4 div 65536"
    using bytes(3) by (simp only: unat_word_ariths u4 unat_drop) simp
  have "(y4 + y4 div 65536) AND 0x7f = (y4 + y4 div 65536) mod 128"
    using and_low_mask [of 7 7 "y4 + y4 div 65536" 0] by (simp add: mask_eq_exp_minus_1)
  then have u6: "unat ((w4 + drop_bit 16 w4) AND 0x7f) = ones 32 n"
    using bytes(1) bs(4) by (simp add: unsigned_and_eq u5)
  have pos: "unat w2 < 2 ^ 31" "unat w3 < 2 ^ 31" "unat w4 < 2 ^ 31"
    using le(3) bytes(2,3) by (simp_all add: u2 u3 u4)
  have "popCount w = (w4 + drop_bit 16 w4) AND 0x7f"
    unfolding popCount_def Let_def d1 d2 w1_def [symmetric] w2_def [symmetric]
      signed_drop_bit_positive [OF pos(1)] w3_def [symmetric] signed_drop_bit_positive [OF pos(2)]
      w4_def [symmetric] signed_drop_bit_positive [OF pos(3)] ..
  with u6 show ?thesis by (simp add: n_def)
qed

lemma ones_filter: "ones k n = length (filter (bit n) [0..<k])"
proof (induction k arbitrary: n)
  case (Suc k)
  have "filter (bit n) [0..<Suc k] = (if odd n then [0] else []) @ map Suc (filter (bit (n div 2)) [0..<k])"
    by (simp add: upt_conv_Cons filter_map o_def bit_Suc bit_0 flip: map_Suc_upt del: upt_Suc)
  with Suc show ?case by (simp add: odd_iff_mod_2_eq_one)
qed simp

end
