(* ===== verification/JS_Int32.thy ===== *)
theory JS_Int32
  imports Popcount "HOL-Library.Char_ord"
begin

text \<open>
  JavaScript's numeric primitives as \<open>static/drf-yasg/immutable.js\<close> uses them: the 32-bit
  integer operators, the index helpers shared by the collections (\<open>wrapIndex\<close>,
  \<open>wholeSlice\<close>, \<open>resolveBegin\<close>, \<open>resolveEnd\<close>, \<open>resolveIndex\<close>), the multiplication polyfill
  \<open>imul\<close> and the hash mixers. A hash code is a 32-bit word; a JavaScript number that only holds
  integers is an \<open>int\<close>, and \<open>jsnum\<close> adds the infinities and NaN where the code meets them.
\<close>

section \<open>The 32-bit operators\<close>

type_synonym int32 = "32 word"

definition to_int32 :: "int \<Rightarrow> int" where
  \<comment> \<open>\<open>n | 0\<close>\<close>
  [js_defs]: "to_int32 n = sint (word_of_int n :: int32)"

definition ushr32 :: "int32 \<Rightarrow> nat \<Rightarrow> int32" where
  \<comment> \<open>\<open>w >>> n\<close>: the shift count is taken modulo 32\<close>
  [js_defs]: "ushr32 w n = drop_bit (n mod 32) w"

definition shl32 :: "int32 \<Rightarrow> nat \<Rightarrow> int32" where
  \<comment> \<open>\<open>w << n\<close>\<close>
  [js_defs]: "shl32 w n = push_bit (n mod 32) w"

definition sshr32 :: "int32 \<Rightarrow> nat \<Rightarrow> int32" where
  \<comment> \<open>\<open>w >> n\<close>\<close>
  [js_defs]: "sshr32 w n = signed_drop_bit (n mod 32) w"

text \<open>The same operators on integers: operands go through \<open>ToInt32\<close> or \<open>ToUint32\<close> first.\<close>

definition jsl :: "int \<Rightarrow> nat \<Rightarrow> int" where
  \<comment> \<open>\<open>a << n\<close>\<close>
  [js_defs]: "jsl a n = sint (shl32 (word_of_int a) n)"

definition jsr :: "int \<Rightarrow> nat \<Rightarrow> int" where
  \<comment> \<open>\<open>a >>> n\<close>\<close>
  [js_defs]: "jsr a n = uint (ushr32 (word_of_int a) n)"

definition jasr :: "int \<Rightarrow> nat \<Rightarrow> int" where
  \<comment> \<open>\<open>a >> n\<close>\<close>
  [js_defs]: "jasr a n = sint (sshr32 (word_of_int a) n)"

definition jand :: "int \<Rightarrow> int \<Rightarrow> int" where
  \<comment> \<open>\<open>a & b\<close>\<close>
  [js_defs]: "jand a b = sint ((word_of_int a :: int32) AND word_of_int b)"

lemma to_int32_id: "- (2 ^ 31) \<le> n \<Longrightarrow> n < 2 ^ 31 \<Longrightarrow> to_int32 n = n"
  by (simp add: to_int32_def signed_of_int signed_take_bit_int_eq_self)

lemma to_int32_range: "- (2 ^ 31) \<le> to_int32 n \<and> to_int32 n < 2 ^ 31"
  using sint_range_size [of "word_of_int n :: int32"] by (simp add: to_int32_def word_size)

lemma to_int32_idem [simp]: "to_int32 (to_int32 n) = to_int32 n"
  using to_int32_range [of n] by (intro to_int32_id) auto

text \<open>The trie constants of the file.\<close>

definition SHIFT :: nat where [js_defs]: "SHIFT = 5"
definition SIZE :: nat where [js_defs]: "SIZE = 2 ^ SHIFT"
definition MASK :: int32 where [js_defs]: "MASK = of_nat (SIZE - 1)"

lemma SIZE_32 [simp]: "SIZE = 32" by (simp add: SIZE_def SHIFT_def)

text \<open>Bits of a hash code that pick the child of a trie node at depth \<open>shift\<close>.\<close>

definition frag :: "int32 \<Rightarrow> nat \<Rightarrow> nat" where
  \<comment> \<open>\<open>(shift === 0 ? keyHash : keyHash >>> shift) & MASK\<close>\<close>
  "frag h shift = unat ((if shift = 0 then h else ushr32 h shift) AND MASK)"

lemma frag_eq: "frag h shift = unat h div 2 ^ (shift mod 32) mod 32"
proof -
  have "frag h shift = unat (drop_bit (shift mod 32) h AND MASK)"
    by (cases "shift = 0") (simp_all add: frag_def ushr32_def)
  also have "\<dots> = take_bit 5 (unat (drop_bit (shift mod 32) h))"
  proof -
    have "MASK = (mask 5 :: int32)" by (simp add: MASK_def SHIFT_def SIZE_def mask_eq_exp_minus_1)
    then have "drop_bit (shift mod 32) h AND MASK = take_bit 5 (drop_bit (shift mod 32) h)"
      by (simp add: take_bit_eq_mask)
    then show ?thesis by (simp add: unsigned_take_bit_eq)
  qed
  also have "\<dots> = unat h div 2 ^ (shift mod 32) mod 32"
    by (simp add: take_bit_eq_mod unat_drop)
  finally show ?thesis .
qed

lemma frag_less [simp]: "frag h shift < 32"
  by (simp add: frag_eq)

lemma frag_bits: "i < 5 \<Longrightarrow> bit (frag h shift) i \<longleftrightarrow> bit h (shift mod 32 + i)"
proof -
  assume "i < 5"
  have "frag h shift = take_bit 5 (drop_bit (shift mod 32) (unat h))"
    by (simp add: frag_eq take_bit_eq_mod drop_bit_eq_div)
  with \<open>i < 5\<close> show ?thesis by (simp add: bit_simps)
qed

lemma frag_all_eq:
  assumes "\<And>n. frag h1 (shift + 5 * n) = frag h2 (shift + 5 * n)"
  shows "h1 = h2"
proof (rule bit_word_eqI)
  fix i assume i: "i < LENGTH(32)"
  define n where "n = 13 * (i + 32 - shift mod 32)"
  have "(shift + 5 * n) mod 32 = (shift mod 32 + 65 * (i + 32 - shift mod 32)) mod 32"
    by (simp add: n_def mod_add_left_eq [symmetric, of shift])
  also have "\<dots> = (i + 32 * (2 * (i + 32 - shift mod 32) + 1)) mod 32"
  proof -
    have "shift mod 32 \<le> i + 32" using mod_less_divisor [of 32 shift] by linarith
    then have "shift mod 32 + 65 * (i + 32 - shift mod 32) = i + 32 * (2 * (i + 32 - shift mod 32) + 1)"
      by simp
    then show ?thesis by (simp only:)
  qed
  also have "\<dots> = i" using i by (simp only: mod_mult_self2) simp
  finally have "(shift + 5 * n) mod 32 = i" .
  with frag_bits [of 0 h1 "shift + 5 * n"] frag_bits [of 0 h2 "shift + 5 * n"] assms [of n]
  show "bit h1 i \<longleftrightarrow> bit h2 i" by simp
qed

section \<open>Population count below a bit\<close>

text \<open>\<open>popCount(bitmap & (bit - 1))\<close>: the position of child \<open>i\<close> in a packed child array.\<close>

definition bitpos :: "nat \<Rightarrow> int32" where
  \<comment> \<open>\<open>1 << i\<close>\<close>
  "bitpos i = shl32 1 i"

definition packed_index :: "int32 \<Rightarrow> nat \<Rightarrow> nat" where
  "packed_index bitmap i = unat (popCount (bitmap AND (bitpos i - 1)))"

lemma bitpos_eq: "i < 32 \<Longrightarrow> bitpos i = push_bit i 1"
  by (simp add: bitpos_def shl32_def)

lemma bit_bitpos [simp]: "i < 32 \<Longrightarrow> bit (bitpos i) j \<longleftrightarrow> i = j"
  by (auto simp: bitpos_eq bit_simps)

lemma bitmap_test: "i < 32 \<Longrightarrow> bitmap AND bitpos i = 0 \<longleftrightarrow> \<not> bit bitmap i"
proof
  assume "i < 32" "bitmap AND bitpos i = 0"
  then show "\<not> bit bitmap i" using bit_and_iff [of bitmap "bitpos i" i] by simp
next
  assume "i < 32" "\<not> bit bitmap i"
  then show "bitmap AND bitpos i = 0" by (intro bit_word_eqI) (auto simp: bit_and_iff)
qed

lemma bitpos_minus_one: "i < 32 \<Longrightarrow> bitpos i - 1 = mask i"
  by (simp add: bitpos_eq mask_eq_exp_minus_1 push_bit_eq_mult)

lemma packed_index_eq:
  assumes "i < 32" shows "packed_index bitmap i = length (filter (bit bitmap) [0..<i])"
proof -
  have "packed_index bitmap i = ones 32 (unat (take_bit i bitmap))"
    by (simp add: packed_index_def popCount_ones bitpos_minus_one [OF assms] take_bit_eq_mask)
  also have "\<dots> = length (filter (bit (unat (take_bit i bitmap))) [0..<32])"
    by (rule ones_filter)
  also have "filter (bit (unat (take_bit i bitmap))) [0..<32] = filter (bit (unat (take_bit i bitmap))) ([0..<i] @ [i..<32])"
    using assms upt_add_eq_append [of 0 i "32 - i"] by simp
  also have "\<dots> = filter (bit bitmap) [0..<i]"
    using assms by (auto simp: bit_simps intro!: filter_cong filter_False)
  finally show ?thesis .
qed

text \<open>
  The packed child array of a bitmap: child \<open>i\<close> is present when bit \<open>i\<close> is set, and is stored
  at the position that counts the set bits below \<open>i\<close>.
\<close>

definition rank :: "int32 \<Rightarrow> nat \<Rightarrow> nat" where
  "rank bitmap i = length (filter (bit bitmap) [0..<i])"

lemma rank_0 [simp]: "rank bm 0 = 0"
  by (simp add: rank_def)

lemma rank_Suc [simp]: "rank bm (Suc i) = rank bm i + (if bit bm i then 1 else 0)"
  by (simp add: rank_def)

lemma rank_mono: "i \<le> j \<Longrightarrow> rank bm i \<le> rank bm j"
  by (induction j) (auto simp: le_Suc_eq)

lemma rank_less: "bit bm i \<Longrightarrow> i < j \<Longrightarrow> rank bm i < rank bm j"
  using rank_mono [of "Suc i" j bm] by simp

lemma rank_inj: "bit bm i \<Longrightarrow> bit bm j \<Longrightarrow> rank bm i = rank bm j \<Longrightarrow> i = j"
  by (metis nat_neq_iff rank_less)

lemma rank_onto: "k < rank bm n \<Longrightarrow> \<exists>i<n. bit bm i \<and> rank bm i = k"
proof (induction n)
  case (Suc n)
  then show ?case by (cases "k < rank bm n") (auto split: if_splits simp: less_Suc_eq)
qed simp

lemma packed_index_rank: "i < 32 \<Longrightarrow> packed_index bm i = rank bm i"
  by (simp add: packed_index_eq rank_def)

lemma rank_set_bit:
  assumes "i < 32" "\<not> bit bm i"
  shows "rank (bm OR bitpos i) j = rank bm j + (if i < j then 1 else 0)"
  using assms by (induction j) (auto simp: bit_or_iff less_Suc_eq)

lemma rank_flip_bit:
  assumes "i < 32" "bit bm i"
  shows "rank (bm XOR bitpos i) j + (if i < j then 1 else 0) = rank bm j"
  using assms by (induction j) (auto simp: bit_xor_iff less_Suc_eq)

definition child :: "int32 \<Rightarrow> 'n list \<Rightarrow> nat \<Rightarrow> 'n option" where
  "child bm nodes i = (if bit bm i then nth_opt nodes (rank bm i) else None)"

definition packed_ok :: "int32 \<Rightarrow> 'n list \<Rightarrow> bool" where
  "packed_ok bm nodes \<longleftrightarrow> length nodes = rank bm 32"

lemma packed_in_range: "packed_ok bm nodes \<Longrightarrow> i < 32 \<Longrightarrow> bit bm i \<Longrightarrow> rank bm i < length nodes"
  by (simp add: packed_ok_def rank_less)

lemma child_Some: "packed_ok bm nodes \<Longrightarrow> i < 32 \<Longrightarrow> bit bm i \<Longrightarrow> child bm nodes i = Some (nodes ! rank bm i)"
  by (simp add: child_def packed_in_range)

lemma set_packed:
  assumes "packed_ok bm nodes"
  shows "set nodes = {n. \<exists>i<32. child bm nodes i = Some n}"
proof (intro set_eqI iffI)
  fix n assume "n \<in> set nodes"
  then obtain k where k: "k < length nodes" "n = nodes ! k" by (auto simp: in_set_conv_nth)
  then obtain i where "i < 32" "bit bm i" "rank bm i = k"
    using assms rank_onto [of k bm 32] by (auto simp: packed_ok_def)
  with k show "n \<in> {n. \<exists>i<32. child bm nodes i = Some n}" by (auto simp: child_def)
qed (auto simp: child_def nth_opt_eq_Some split: if_splits)

lemma child_update:
  assumes "packed_ok bm nodes" "i < 32" "bit bm i"
  shows "packed_ok bm (nodes[rank bm i := n])"
    and "child bm (nodes[rank bm i := n]) = (child bm nodes)(i := Some n)"
  using assms packed_in_range [OF assms] rank_inj [of bm _ i]
  by (auto simp: packed_ok_def child_def fun_eq_iff nth_opt_def nth_list_update)

lemma child_splice_in:
  assumes ok: "packed_ok bm nodes" and i: "i < 32" "\<not> bit bm i"
  shows "packed_ok (bm OR bitpos i) (insert_at nodes (rank bm i) n)"
    and "child (bm OR bitpos i) (insert_at nodes (rank bm i) n) = (child bm nodes)(i := Some n)"
proof -
  have le: "rank bm i \<le> length nodes" using ok i rank_mono [of i 32 bm] by (simp add: packed_ok_def)
  then show "packed_ok (bm OR bitpos i) (insert_at nodes (rank bm i) n)"
    using ok i by (simp add: packed_ok_def rank_set_bit)
  show "child (bm OR bitpos i) (insert_at nodes (rank bm i) n) = (child bm nodes)(i := Some n)"
  proof
    fix j
    show "child (bm OR bitpos i) (insert_at nodes (rank bm i) n) j = ((child bm nodes)(i := Some n)) j"
    proof (cases i j rule: linorder_cases)
      case less
      then have "rank bm i \<le> rank bm j" by (simp add: rank_mono)
      then show ?thesis using less i le
        by (auto simp: child_def bit_or_iff rank_set_bit nth_opt_def insert_at_nth)
    next
      case equal
      then show ?thesis using i le by (simp add: child_def bit_or_iff rank_set_bit nth_opt_def insert_at_nth)
    next
      case greater
      moreover have "bit bm j \<Longrightarrow> rank bm j < rank bm i" using greater by (simp add: rank_less)
      ultimately show ?thesis using i le
        by (auto simp: child_def bit_or_iff rank_set_bit nth_opt_def insert_at_nth)
    qed
  qed
qed

lemma child_splice_out:
  assumes ok: "packed_ok bm nodes" and i: "i < 32" "bit bm i"
  shows "packed_ok (bm XOR bitpos i) (delete_at nodes (rank bm i))"
    and "child (bm XOR bitpos i) (delete_at nodes (rank bm i)) = (child bm nodes)(i := None)"
proof -
  have lt: "rank bm i < length nodes" using packed_in_range [OF ok i] .
  have r32: "rank (bm XOR bitpos i) 32 + 1 = rank bm 32" using rank_flip_bit [OF i, of 32] i by simp
  with lt ok show "packed_ok (bm XOR bitpos i) (delete_at nodes (rank bm i))"
    by (simp add: packed_ok_def)
  show "child (bm XOR bitpos i) (delete_at nodes (rank bm i)) = (child bm nodes)(i := None)"
  proof
    fix j
    show "child (bm XOR bitpos i) (delete_at nodes (rank bm i)) j = ((child bm nodes)(i := None)) j"
    proof (cases i j rule: linorder_cases)
      case less
      then have "rank bm i < rank bm j" using i by (simp add: rank_less)
      moreover have "rank (bm XOR bitpos i) j + 1 = rank bm j" using less rank_flip_bit [OF i, of j] by simp
      ultimately show ?thesis using less i lt
        by (auto simp: child_def bit_xor_iff nth_opt_def delete_at_nth)
    next
      case equal
      then show ?thesis using i by (simp add: child_def bit_xor_iff)
    next
      case greater
      then have "rank (bm XOR bitpos i) j = rank bm j" using rank_flip_bit [OF i, of j] by simp
      moreover have "bit bm j \<Longrightarrow> rank bm j < rank bm i" using greater by (simp add: rank_less)
      ultimately show ?thesis using greater i lt
        by (auto simp: child_def bit_xor_iff nth_opt_def delete_at_nth)
    qed
  qed
qed

end
