(* ===== verification/JS_Number.thy ===== *)
theory JS_Number
  imports JS_Int32 Complex_Main
begin

text \<open>
  The number values of JavaScript as far as the program uses them: \<open>NaN\<close>, the two infinities
  and finite values as rationals. The two zeros are one value here: no operation modelled in this
  development distinguishes them (\<open>===\<close>, \<open><\<close>, \<open>+\<close>, \<open>Math.min\<close> and \<open>ToInt32\<close> agree on both).
  A product or quotient that need not be a double is rounded to 53 significant bits, ties to
  even, with gradual underflow, and overflows to an infinity.
\<close>

datatype jsnum = NaN | Infinity bool | Fin rat
  \<comment> \<open>\<open>Infinity True\<close> is \<open>-Infinity\<close>\<close>

abbreviation PosInf :: jsnum where "PosInf \<equiv> Infinity False"

definition NumInt :: "int \<Rightarrow> jsnum" where "NumInt n = Fin (of_int n)"

definition num_eq :: "jsnum \<Rightarrow> jsnum \<Rightarrow> bool" where
  \<comment> \<open>\<open>===\<close> on numbers\<close>
  "num_eq a b \<longleftrightarrow> a \<noteq> NaN \<and> a = b"

fun num_less :: "jsnum \<Rightarrow> jsnum \<Rightarrow> bool" where
  \<comment> \<open>\<open><\<close>\<close>
  "num_less (Fin a) (Fin b) \<longleftrightarrow> a < b"
| "num_less (Fin _) (Infinity n) \<longleftrightarrow> \<not> n"
| "num_less (Infinity n) (Fin _) \<longleftrightarrow> n"
| "num_less (Infinity n) (Infinity n') \<longleftrightarrow> n \<and> \<not> n'"
| "num_less _ _ \<longleftrightarrow> False"

definition num_leq :: "jsnum \<Rightarrow> jsnum \<Rightarrow> bool" where
  \<comment> \<open>\<open><=\<close>, false on \<open>NaN\<close>\<close>
  "num_leq a b \<longleftrightarrow> num_less a b \<or> num_eq a b"

fun num_neg :: "jsnum \<Rightarrow> jsnum" where
  "num_neg (Fin a) = Fin (- a)"
| "num_neg (Infinity n) = Infinity (\<not> n)"
| "num_neg NaN = NaN"

fun ToInt32 :: "jsnum \<Rightarrow> int32" where
  \<comment> \<open>\<open>n | 0\<close>: truncate, then wrap\<close>
  "ToInt32 (Fin q) = word_of_int (if 0 \<le> q then \<lfloor>q\<rfloor> else - \<lfloor>- q\<rfloor>)"
| "ToInt32 _ = 0"

definition NumInt32 :: "int32 \<Rightarrow> jsnum" where "NumInt32 w = NumInt (sint w)"

lemma ToInt32_NumInt [simp]: "ToInt32 (NumInt n) = word_of_int n"
  by (simp add: NumInt_def)

section \<open>Rounding to a double\<close>

fun bits :: "nat \<Rightarrow> int" where
  "bits n = (if n = 0 then 0 else bits (n div 2) + 1)"

declare bits.simps [simp del]

definition pow2 :: "int \<Rightarrow> rat" where
  "pow2 e = (if 0 \<le> e then 2 ^ nat e else 1 / 2 ^ nat (- e))"

definition exponent :: "rat \<Rightarrow> int" where
  \<comment> \<open>of a positive number \<open>q\<close>: the \<open>e\<close> with \<open>2 ^ e \<le> q < 2 ^ (e + 1)\<close>\<close>
  "exponent q =
     (let (a, b) = quotient_of q; e = bits (nat a) - bits (nat b)
      in if pow2 e \<le> q then e else e - 1)"

definition round_half_even :: "rat \<Rightarrow> int" where
  "round_half_even q =
     (let r = \<lfloor>q\<rfloor>; f = q - of_int r
      in if f < 1 / 2 then r else if f > 1 / 2 then r + 1 else if even r then r else r + 1)"

definition round_double :: "rat \<Rightarrow> jsnum" where
  "round_double q =
     (if q = 0 then Fin 0
      else let e = max (exponent \<bar>q\<bar> - 52) (- 1074);
               v = of_int (round_half_even (\<bar>q\<bar> / pow2 e)) * pow2 e
           in if v \<ge> 2 ^ 1024 then Infinity (q < 0) else Fin (sgn q * v))"

lemma pow2_pos [simp]: "0 < pow2 e"
  by (simp add: pow2_def)

lemma pow2_mono: "d \<le> e \<Longrightarrow> pow2 d \<le> pow2 e"
proof -
  have step: "pow2 d \<le> pow2 (d + 1)" for d
  proof (cases "0 \<le> d")
    case True
    then show ?thesis by (simp add: pow2_def nat_add_distrib)
  next
    case False
    then have "nat (- d) = Suc (nat (- (d + 1)))" by simp
    then show ?thesis using False by (simp add: pow2_def frac_le)
  qed
  have "pow2 d \<le> pow2 (d + int n)" for n
  proof (induction n)
    case (Suc n)
    then show ?case using step [of "d + int n"] by (simp add: ac_simps)
  qed simp
  moreover assume "d \<le> e"
  ultimately show ?thesis by (metis nat_0_le diff_ge_0_iff_ge add_diff_cancel_left' add_diff_eq)
qed

lemma bits_bounds: "0 < n \<Longrightarrow> 0 < bits n \<and> 2 ^ nat (bits n - 1) \<le> n \<and> n < 2 ^ nat (bits n)"
proof (induction n rule: bits.induct)
  case (1 n)
  show ?case
  proof (cases "n div 2 = 0")
    case True
    with "1.prems" have "n = 1" by simp
    then show ?thesis by (simp add: bits.simps [of "Suc 0"] bits.simps [of 0])
  next
    case False
    with 1 have IH: "0 < bits (n div 2)" "2 ^ nat (bits (n div 2) - 1) \<le> n div 2" "n div 2 < 2 ^ nat (bits (n div 2))"
      by auto
    have b: "bits n = bits (n div 2) + 1" using "1.prems" by (subst bits.simps) simp
    have e: "nat (bits n - 1) = Suc (nat (bits (n div 2) - 1))" "nat (bits n) = Suc (nat (bits (n div 2)))"
      using IH(1) b by auto
    have "2 * (n div 2) \<le> n" "n < 2 * (n div 2 + 1)" by auto
    have "2 ^ nat (bits n - 1) \<le> 2 * (n div 2)" using IH(2) e(1) by simp
    moreover have "2 * (n div 2 + 1) \<le> 2 ^ nat (bits n)" using IH(3) e(2) by simp
    ultimately show ?thesis using b IH(1) \<open>2 * (n div 2) \<le> n\<close> \<open>n < 2 * (n div 2 + 1)\<close> by linarith
  qed
qed

lemma exponent_le:
  assumes "0 < q" shows "pow2 (exponent q) \<le> q"
proof -
  obtain a b where ab: "quotient_of q = (a, b)" by force
  have b: "0 < b" using quotient_of_denom_pos [OF ab] .
  have q: "q = of_int a / of_int b" using quotient_of_div [OF ab] .
  have a: "0 < a" using assms q b by (simp add: zero_less_divide_iff)
  let ?i = "bits (nat a)" and ?j = "bits (nat b)"
  have i: "0 < ?i" "2 ^ nat (?i - 1) \<le> nat a" and j: "0 < ?j" "nat b < 2 ^ nat ?j"
    using bits_bounds [of "nat a"] bits_bounds [of "nat b"] a b by auto
  have A: "(2::rat) ^ nat (?i - 1) \<le> of_int a"
  proof -
    have "(2::int) ^ nat (?i - 1) \<le> a" using i(2) a by (metis int_nat_eq less_imp_le of_nat_le_iff of_nat_numeral of_nat_power)
    then have "(of_int (2 ^ nat (?i - 1)) :: rat) \<le> of_int a" by (simp only: of_int_le_iff)
    then show ?thesis by simp
  qed
  have B: "of_int b \<le> (2::rat) ^ nat ?j"
  proof -
    have "b \<le> (2::int) ^ nat ?j" using j(2) b by (metis int_nat_eq less_imp_le of_nat_less_iff of_nat_numeral of_nat_power)
    then have "of_int b \<le> (of_int (2 ^ nat ?j) :: rat)" by (simp only: of_int_le_iff)
    then show ?thesis by simp
  qed
  have "pow2 (?i - ?j - 1) = 2 ^ nat (?i - 1) / 2 ^ nat ?j"
  proof (cases "?j \<le> ?i - 1")
    case True
    then have "nat (?i - 1) = nat (?i - ?j - 1) + nat ?j" using i j by (simp add: nat_add_distrib [symmetric])
    then show ?thesis using True by (simp add: pow2_def power_add)
  next
    case False
    then have "nat ?j = nat (- (?i - ?j - 1)) + nat (?i - 1)" using i j by (simp add: nat_add_distrib [symmetric])
    then show ?thesis using False by (simp add: pow2_def power_add)
  qed
  also have "\<dots> \<le> of_int a / of_int b"
    using A B a b by (intro frac_le) auto
  finally show ?thesis using ab by (auto simp: exponent_def q Let_def)
qed

lemma round_half_even_le: "of_int (round_half_even q) \<le> q + 1 / 2"
  by (auto simp: round_half_even_def Let_def) linarith+

lemma round_double_le:
  assumes "1 \<le> q" "round_double q = Fin v"
  shows "v \<le> 2 * q"
proof -
  define e where "e = max (exponent q - 52) (- 1074)"
  have "pow2 e \<le> q"
  proof (cases "- 1074 \<le> exponent q - 52")
    case True
    then have "pow2 e \<le> pow2 (exponent q)" by (intro pow2_mono) (simp add: e_def)
    also have "\<dots> \<le> q" using assms by (intro exponent_le) simp
    finally show ?thesis .
  next
    case False
    then have "pow2 e \<le> pow2 0" by (intro pow2_mono) (simp add: e_def)
    also have "\<dots> \<le> q" using assms by (simp add: pow2_def)
    finally show ?thesis .
  qed
  moreover have "v = of_int (round_half_even (q / pow2 e)) * pow2 e"
    using assms by (auto simp: round_double_def Let_def e_def split: if_splits)
  moreover have "\<dots> \<le> (q / pow2 e + 1 / 2) * pow2 e"
    by (rule mult_right_mono [OF round_half_even_le]) (simp add: less_imp_le)
  moreover have "\<dots> = q + pow2 e / 2"
  proof -
    have "pow2 e \<noteq> 0" using pow2_pos [of e] by linarith
    then show ?thesis by (simp add: field_simps)
  qed
  ultimately show ?thesis using assms(1) by linarith
qed

section \<open>Arithmetic on indices\<close>

text \<open>Sums, minima and maxima of the index computations, where every finite value is an exact integer.\<close>

fun num_add :: "jsnum \<Rightarrow> jsnum \<Rightarrow> jsnum" where
  "num_add (Fin a) (Fin b) = Fin (a + b)"
| "num_add (Infinity n) (Infinity n') = (if n = n' then Infinity n else NaN)"
| "num_add NaN _ = NaN"
| "num_add _ NaN = NaN"
| "num_add (Infinity n) (Fin _) = Infinity n"
| "num_add (Fin _) (Infinity n) = Infinity n"

definition num_max :: "jsnum \<Rightarrow> jsnum \<Rightarrow> jsnum" where
  \<comment> \<open>\<open>Math.max\<close>\<close>
  "num_max a b = (if a = NaN \<or> b = NaN then NaN else if num_less a b then b else a)"

definition num_min :: "jsnum \<Rightarrow> jsnum \<Rightarrow> jsnum" where
  \<comment> \<open>\<open>Math.min\<close>\<close>
  "num_min a b = (if a = NaN \<or> b = NaN then NaN else if num_less b a then b else a)"

end
