(* ===== verification/JS_Hash.thy ===== *)
theory JS_Hash
  imports JS_Number
begin

text \<open>
  The hash functions of \<open>static/drf-yasg/immutable.js\<close> on numbers and strings, with their mixing
  steps: \<open>imul\<close> (the polyfill), \<open>smi\<close>, \<open>hashString\<close>, the numeric branch of \<open>hash\<close>,
  \<open>hashMerge\<close>, \<open>murmurHashOfSize\<close>, and the string-hash cache as a state machine. A value that
  went through \<open>| 0\<close> is an \<open>int32\<close>; additions and products that stay below \<open>2 ^ 53\<close> before the
  \<open>| 0\<close> are exact in a double, so their wrap-around is that of the word operations.
\<close>

section \<open>Integer mixing\<close>

definition smi :: "int32 \<Rightarrow> int32" where
  "smi i32 = (ushr32 i32 1 AND 0x40000000) OR (i32 AND 0xBFFFFFFF)"

definition imul :: "int32 \<Rightarrow> int32 \<Rightarrow> int" where
  \<comment> \<open>the polyfill, with its intermediate results as unbounded integers before the final \<open>| 0\<close>\<close>
  "imul a b =
     (let c = uint (a AND 0xffff);
          d = uint (b AND 0xffff);
          hi = uint (shl32 (word_of_int (uint (ushr32 a 16) * d + c * uint (ushr32 b 16))) 16)
      in to_int32 (c * d + hi))"

definition imul32 :: "int32 \<Rightarrow> int32 \<Rightarrow> int32" where
  "imul32 a b = word_of_int (imul a b)"

definition hashMerge :: "int32 \<Rightarrow> int32 \<Rightarrow> int32" where
  "hashMerge a b = a XOR (b + 0x9E3779B9 + shl32 a 6 + sshr32 a 2)"

definition murmurHashOfSize :: "int32 \<Rightarrow> int32 \<Rightarrow> int32" where
  \<comment> \<open>a shift count of \<open>-15\<close> is 17, of \<open>-13\<close> is 19\<close>
  "murmurHashOfSize sz h0 =
     (let h1 = imul32 h0 0xCC9E2D51;
          h2 = imul32 (shl32 h1 15 OR ushr32 h1 17) 0x1B873593;
          h3 = imul32 (shl32 h2 13 OR ushr32 h2 19) 5;
          h4 = (h3 + 0xE6546B64) XOR sz;
          h5 = imul32 (h4 XOR ushr32 h4 16) 0x85EBCA6B;
          h6 = imul32 (h5 XOR ushr32 h5 13) 0xC2B2AE35
      in smi (h6 XOR ushr32 h6 16))"

lemma uint_and_ffff: "uint (a AND 0xffff :: int32) = uint a mod 65536"
proof -
  have m: "(0xffff :: int32) = mask 16" by (simp add: mask_eq_exp_minus_1)
  show ?thesis unfolding m take_bit_eq_mask [symmetric] by (simp only: unsigned_take_bit_eq) (simp add: take_bit_eq_mod)
qed

lemma uint_ushr32: "n < 32 \<Longrightarrow> uint (ushr32 a n) = uint a div 2 ^ n"
  unfolding ushr32_def uint_nat by (simp only: mod_less unat_drop zdiv_int of_nat_power of_nat_numeral)

lemma bit_clear_30: "bit (0xBFFFFFFF :: int32) i \<longleftrightarrow> i < 32 \<and> i \<noteq> 30"
proof -
  have "(0xBFFFFFFF :: int32) = NOT (push_bit 30 1)" by (simp add: not_eq_complement)
  then show ?thesis by (simp only: bit_not_iff bit_push_bit_iff bit_1_iff) auto
qed

lemma bit_set_30: "bit (0x40000000 :: int32) i \<longleftrightarrow> i = 30"
proof -
  have "(0x40000000 :: int32) = push_bit 30 1" by simp
  then show ?thesis by (simp only: bit_push_bit_iff bit_1_iff) auto
qed

lemma bit_smi: "bit (smi w) i \<longleftrightarrow> i < 32 \<and> (if i = 30 then bit w 31 else bit w i)"
  unfolding smi_def ushr32_def bit_or_iff bit_and_iff bit_clear_30 bit_set_30 bit_drop_bit_eq o_def
  by (auto dest: bit_imp_le_length)

lemma smi_idem: "smi (smi w) = smi w"
  by (rule bit_word_eqI) (auto simp: bit_smi)

lemma smi_range: "- (2 ^ 30) \<le> sint (smi w) \<and> sint (smi w) < 2 ^ 30"
proof -
  have "signed_take_bit 30 (uint (smi w)) = signed_take_bit 31 (uint (smi w))"
    by (rule bit_eqI) (auto simp: bit_signed_take_bit_iff bit_uint_iff bit_smi min_def le_Suc_eq not_le)
  then have "sint (smi w) = signed_take_bit 30 (uint (smi w))" by (simp add: sint_uint)
  then show ?thesis
    using signed_take_bit_int_greater_eq_minus_exp [of 30 "uint (smi w)"] signed_take_bit_int_less_exp [of 30 "uint (smi w)"] by simp
qed

lemma imul_times: "imul32 a b = a * b"
proof -
  let ?a = "uint a" and ?b = "uint b"
  let ?m = "?a div 65536 * (?b mod 65536) + ?a mod 65536 * (?b div 65536)"
  let ?c = "?a mod 65536 * (?b mod 65536)"
  have "shl32 (word_of_int ?m) 16 = word_of_int (?m * 65536)"
    by (simp add: shl32_def push_bit_eq_mult)
  then have "imul32 a b = word_of_int (to_int32 (?c + uint (word_of_int (?m * 65536) :: int32)))"
    by (simp add: imul32_def imul_def Let_def uint_and_ffff uint_ushr32)
  also have "\<dots> = word_of_int (?c + ?m * 65536)" by (simp add: to_int32_def)
  also have "word_of_int (?c + ?m * 65536) = (word_of_int (?c + ?m * 65536 + ?a div 65536 * (?b div 65536) * 2 ^ 32) :: int32)"
    by (rule word_of_int_eq_iff [THEN iffD2]) (simp add: take_bit_eq_mod)
  also have "?c + ?m * 65536 + ?a div 65536 * (?b div 65536) * 2 ^ 32 = (?a div 65536 * 65536 + ?a mod 65536) * (?b div 65536 * 65536 + ?b mod 65536)"
    by algebra
  also have "\<dots> = ?a * ?b" by simp
  finally show ?thesis by simp
qed

section \<open>Strings\<close>

type_synonym jsstring = "16 word list"
  \<comment> \<open>the code units\<close>

definition js_str :: "string \<Rightarrow> jsstring" where
  "js_str s = map of_char s"

fun hash_loop :: "jsstring \<Rightarrow> int32 \<Rightarrow> int32" where
  "hash_loop [] hash = hash"
| "hash_loop (c # string) hash = hash_loop string (31 * hash + ucast c)"

definition hashString :: "jsstring \<Rightarrow> int32" where
  "hashString string = smi (hash_loop string 0)"

lemma hash_loop_poly:
  "hash_loop s h = 31 ^ length s * h + (\<Sum>i<length s. 31 ^ (length s - 1 - i) * ucast (s ! i))"
proof (induction s arbitrary: h)
  case (Cons c s)
  have "(\<Sum>i<length (c # s). 31 ^ (length (c # s) - 1 - i) * (ucast ((c # s) ! i) :: int32))
      = 31 ^ length s * ucast c + (\<Sum>i<length s. 31 ^ (length s - 1 - i) * ucast (s ! i))"
    by (simp add: sum.lessThan_Suc_shift del: sum.lessThan_Suc)
  then show ?case using Cons by (simp add: algebra_simps)
qed simp

section \<open>Numbers\<close>

text \<open>
  The loop \<open>while (o > 0xFFFFFFFF) { o /= 0xFFFFFFFF; h ^= o; }\<close>. A quotient never overflows to an
  infinity, so the last branch is not reached by a double.
\<close>

function hash_scale :: "rat \<Rightarrow> int32 \<Rightarrow> int32" where
  "hash_scale q h =
     (if q > 4294967295
      then (case round_double (q / 4294967295) of
              Fin v \<Rightarrow> hash_scale v (h XOR ToInt32 (Fin v))
            | _ \<Rightarrow> h)
      else h)"
  by pat_completeness auto
termination
proof (relation "measure (\<lambda>(q, h). nat \<lfloor>q\<rfloor>)", goal_cases)
  case (2 q h v)
  then have "v \<le> 2 * (q / 4294967295)" by (intro round_double_le) auto
  with 2(1) have "v \<le> q - 1" by simp
  then have "\<lfloor>v\<rfloor> \<le> \<lfloor>q\<rfloor> - 1" by (metis floor_diff_one floor_mono)
  moreover have "0 < \<lfloor>q\<rfloor>" using 2(1) by linarith
  ultimately show ?case by simp
qed simp

declare hash_scale.simps [simp del]

fun hashNumber :: "jsnum \<Rightarrow> int32" where
  "hashNumber NaN = 0"
| "hashNumber (Infinity negative) =
     (if \<not> negative then 0
      else let h = ToInt32 (Infinity negative) in smi (h XOR ToInt32 (Infinity negative)))"
| "hashNumber (Fin q) =
     (let h = ToInt32 (Fin q);
          h' = (if NumInt32 h = Fin q then h else h XOR ToInt32 (round_double (q * 4294967295)))
      in smi (hash_scale q h'))"

lemma hashNumber_int: "- (2 ^ 31) \<le> n \<Longrightarrow> n < 2 ^ 31 \<Longrightarrow> hashNumber (NumInt n) = smi (word_of_int n)"
proof -
  assume n: "- (2 ^ 31) \<le> n" "n < 2 ^ 31"
  have t: "ToInt32 (Fin (of_int n)) = word_of_int n" using ToInt32_NumInt [of n] by (simp only: NumInt_def)
  have "sint (word_of_int n :: int32) = n" using to_int32_id [OF n] by (simp only: to_int32_def)
  then have e: "NumInt32 (word_of_int n) = Fin (of_int n)" by (simp only: NumInt32_def NumInt_def)
  have "\<not> (of_int n :: rat) > of_int 4294967295" unfolding of_int_less_iff using n by simp
  then have "hash_scale (of_int n) h = h" for h by (subst hash_scale.simps) simp
  then show ?thesis by (simp only: NumInt_def hashNumber.simps Let_def t e refl if_True)
qed

section \<open>The string-hash cache\<close>

text \<open>
  \<open>stringHashCache\<close> is an object literal, so a lookup of a name that \<open>Object.prototype\<close> defines
  finds the inherited function. Among the inherited names, \<open>propertyIsEnumerable\<close> is the only one
  longer than 16 code units, and only longer strings reach the cache.
\<close>

datatype cached = CachedHash int32 | InheritedFunction

record strcache =
  stringHashCache :: "jsstring \<Rightarrow> int32 option"
  STRING_HASH_CACHE_SIZE :: nat

definition STRING_HASH_CACHE_MIN_STRLEN :: nat where "STRING_HASH_CACHE_MIN_STRLEN = 16"
definition STRING_HASH_CACHE_MAX_SIZE :: nat where "STRING_HASH_CACHE_MAX_SIZE = 255"

definition cache_lookup :: "strcache \<Rightarrow> jsstring \<Rightarrow> cached option" where
  "cache_lookup st string =
     (case stringHashCache st string of
        Some h \<Rightarrow> Some (CachedHash h)
      | None \<Rightarrow> if string = js_str ''propertyIsEnumerable'' then Some InheritedFunction else None)"

definition cachedHashString :: "jsstring \<Rightarrow> strcache \<Rightarrow> cached \<times> strcache" where
  "cachedHashString string st =
     (case cache_lookup st string of
        Some hash \<Rightarrow> (hash, st)
      | None \<Rightarrow>
          (let hash = hashString string;
               st1 = (if STRING_HASH_CACHE_SIZE st = STRING_HASH_CACHE_MAX_SIZE
                      then \<lparr>stringHashCache = Map.empty, STRING_HASH_CACHE_SIZE = 0\<rparr> else st)
           in (CachedHash hash,
               st1\<lparr>stringHashCache := (stringHashCache st1)(string \<mapsto> hash),
                   STRING_HASH_CACHE_SIZE := STRING_HASH_CACHE_SIZE st1 + 1\<rparr>)))"

definition hash_string_value :: "jsstring \<Rightarrow> strcache \<Rightarrow> cached \<times> strcache" where
  \<comment> \<open>the string branch of \<open>hash\<close>\<close>
  "hash_string_value string st =
     (if length string > STRING_HASH_CACHE_MIN_STRLEN then cachedHashString string st
      else (CachedHash (hashString string), st))"

definition empty_cache :: strcache where
  "empty_cache = \<lparr>stringHashCache = Map.empty, STRING_HASH_CACHE_SIZE = 0\<rparr>"

definition hash_string :: "jsstring \<Rightarrow> int32" where
  \<comment> \<open>the number that the string branch of \<open>hash\<close> stands for in 32-bit arithmetic; what the cache holds makes no difference
    to it, and a function is 0 there\<close>
  "hash_string string =
     (case fst (hash_string_value string empty_cache) of CachedHash h \<Rightarrow> h | InheritedFunction \<Rightarrow> 0)"

fun hash_strings :: "jsstring list \<Rightarrow> strcache \<Rightarrow> cached list \<times> strcache" where
  \<comment> \<open>a run of the program that hashes these strings one after the other\<close>
  "hash_strings [] st = ([], st)"
| "hash_strings (s # ss) st =
     (let (h, st') = hash_string_value s st; (hs, st'') = hash_strings ss st' in (h # hs, st''))"

definition cache_ok :: "strcache \<Rightarrow> bool" where
  "cache_ok st \<longleftrightarrow> (\<forall>s h. stringHashCache st s = Some h \<longrightarrow> h = hashString s \<and> s \<noteq> js_str ''propertyIsEnumerable'') \<and>
     finite (dom (stringHashCache st)) \<and> card (dom (stringHashCache st)) = STRING_HASH_CACHE_SIZE st \<and>
     STRING_HASH_CACHE_SIZE st \<le> STRING_HASH_CACHE_MAX_SIZE"

lemma cache_ok_empty: "cache_ok empty_cache"
  by (simp add: cache_ok_def empty_cache_def)

lemma cachedHashString_ok:
  assumes "cache_ok st" "cachedHashString s st = (h, st')"
  shows "cache_ok st' \<and> h = (if s = js_str ''propertyIsEnumerable'' then InheritedFunction else CachedHash (hashString s))"
proof (cases "cache_lookup st s")
  case None
  then have new: "stringHashCache st s = None" "s \<noteq> js_str ''propertyIsEnumerable''"
    by (auto simp: cache_lookup_def split: option.splits if_splits)
  have "stringHashCache st (js_str ''propertyIsEnumerable'') = None"
    using assms(1) by (cases "stringHashCache st (js_str ''propertyIsEnumerable'')") (auto simp: cache_ok_def)
  with assms None new show ?thesis
    by (auto simp: cachedHashString_def cache_ok_def Let_def STRING_HASH_CACHE_MAX_SIZE_def domIff split: if_splits)
next
  case (Some x)
  then show ?thesis using assms
    by (auto simp: cachedHashString_def cache_lookup_def cache_ok_def split: option.splits if_splits)
qed

lemma hash_string_value_ok:
  assumes "cache_ok st" "hash_string_value s st = (h, st')"
  shows "cache_ok st' \<and> (h = CachedHash (hashString s) \<or> s = js_str ''propertyIsEnumerable'')"
  using assms cachedHashString_ok [of st s h st'] by (auto simp: hash_string_value_def split: if_splits)

end
