(* ===== verification/Imm_Trie.thy ===== *)
theory Imm_Trie
  imports JS_Int32
begin

text \<open>
  The trie nodes behind \<open>Map\<close> in \<open>static/drf-yasg/immutable.js\<close>: \<open>ArrayMapNode\<close>,
  \<open>BitmapIndexedNode\<close>, \<open>HashArrayMapNode\<close>, \<open>HashCollisionNode\<close>, \<open>ValueNode\<close>, with their
  \<open>get\<close>, \<open>update\<close> and \<open>iterate\<close> methods and the helpers \<open>updateNode\<close>, \<open>mergeIntoNode\<close>,
  \<open>createNodes\<close>, \<open>packNodes\<close>, \<open>expandNodes\<close>, \<open>setIn\<close>, \<open>spliceIn\<close>, \<open>spliceOut\<close>.

  Keys and values are type variables. The three JavaScript operations the nodes apply to them,
  the key equality \<open>is\<close>, the function \<open>hash\<close> and the strict equality \<open>===\<close> on values, come in
  an environment record; \<open>JS_Value\<close> gives the file's own \<open>is\<close> and \<open>hash\<close> for it. The sentinel
  \<open>NOT_SET\<close> is \<open>None\<close>, so a lookup returns an option and an update takes one. An owner is
  \<open>Some\<close> token or \<open>None\<close> for \<open>undefined\<close>. The result of an update keeps the identity the
  callers test: \<open>This n\<close> is the receiver (with contents \<open>n\<close>, after an edit in place when the
  owner allowed one), \<open>New n\<close> another node, \<open>Gone\<close> the value \<open>undefined\<close>. The references
  \<open>didChangeSize\<close> and \<open>didAlter\<close> become two Booleans of the result.
\<close>

record ('k, 'v) eqenv =
  js_is :: "'k \<Rightarrow> 'k \<Rightarrow> bool"
  js_hash :: "'k \<Rightarrow> int32"
  js_same :: "'v \<Rightarrow> 'v \<Rightarrow> bool"

type_synonym owner = "nat option"

datatype ('k, 'v) trie =
  BitmapIndexedNode owner int32 "('k, 'v) trie list"
| HashArrayMapNode owner nat "('k, 'v) trie option list"
| HashCollisionNode owner int32 "('k \<times> 'v) list"
| ValueNode owner int32 "'k \<times> 'v"

text \<open>An \<open>ArrayMapNode\<close> only ever occurs as the root of a map.\<close>

datatype ('k, 'v) root =
  ArrayMapNode owner "('k \<times> 'v) list"
| Trie "('k, 'v) trie"

type_synonym ('k, 'v) node_result = "('k, 'v) trie upd \<times> bool \<times> bool"

definition MAX_ARRAY_MAP_SIZE :: nat where [js_defs]: "MAX_ARRAY_MAP_SIZE = SIZE div 4"
definition MAX_BITMAP_INDEXED_SIZE :: nat where [js_defs]: "MAX_BITMAP_INDEXED_SIZE = SIZE div 2"
definition MIN_HASH_ARRAY_MAP_SIZE :: nat where [js_defs]: "MIN_HASH_ARRAY_MAP_SIZE = SIZE div 4"

fun trie_owner :: "('k, 'v) trie \<Rightarrow> owner" where
  "trie_owner (BitmapIndexedNode o' _ _) = o'"
| "trie_owner (HashArrayMapNode o' _ _) = o'"
| "trie_owner (HashCollisionNode o' _ _) = o'"
| "trie_owner (ValueNode o' _ _) = o'"

definition editable :: "owner \<Rightarrow> owner \<Rightarrow> bool" where
  \<comment> \<open>\<open>ownerID && ownerID === this.ownerID\<close>\<close>
  "editable own o' \<longleftrightarrow> own \<noteq> None \<and> own = o'"

fun isLeafNode :: "('k, 'v) trie \<Rightarrow> bool" where
  "isLeafNode (ValueNode _ _ _) = True"
| "isLeafNode (HashCollisionNode _ _ _) = True"
| "isLeafNode _ = False"

section \<open>Array helpers\<close>

text \<open>
  \<open>setIn\<close>, \<open>spliceIn\<close> and \<open>spliceOut\<close> copy the array unless it may be edited; either way the
  resulting contents are the same.
\<close>

definition setIn :: "'n list \<Rightarrow> nat \<Rightarrow> 'n \<Rightarrow> 'n list" where
  "setIn array idx val = array[idx := val]"

fun splice_in_loop :: "'n list \<Rightarrow> nat \<Rightarrow> 'n \<Rightarrow> nat list \<Rightarrow> bool \<Rightarrow> 'n list \<Rightarrow> 'n list" where
  \<comment> \<open>the flag is \<open>after = -1\<close>\<close>
  "splice_in_loop array idx val [] after acc = acc"
| "splice_in_loop array idx val (ii # iis) after acc =
     (if ii = idx then splice_in_loop array idx val iis True (acc @ [val])
      else splice_in_loop array idx val iis after (acc @ [array ! (if after then ii - 1 else ii)]))"

definition spliceIn :: "'n list \<Rightarrow> nat \<Rightarrow> 'n \<Rightarrow> bool \<Rightarrow> 'n list" where
  "spliceIn array idx val canEdit =
     (let newLen = length array + 1
      in if canEdit \<and> idx + 1 = newLen then array @ [val]
         else splice_in_loop array idx val [0..<newLen] False [])"

fun splice_out_loop :: "'n list \<Rightarrow> nat \<Rightarrow> nat list \<Rightarrow> bool \<Rightarrow> 'n list \<Rightarrow> 'n list" where
  "splice_out_loop array idx [] after acc = acc"
| "splice_out_loop array idx (ii # iis) after acc =
     (let after' = after \<or> ii = idx
      in splice_out_loop array idx iis after' (acc @ [array ! (if after' then ii + 1 else ii)]))"

definition spliceOut :: "'n list \<Rightarrow> nat \<Rightarrow> bool \<Rightarrow> 'n list" where
  "spliceOut array idx canEdit =
     (let newLen = length array - 1
      in if canEdit \<and> idx = newLen then pop array
         else splice_out_loop array idx [0..<newLen] False [])"

section \<open>Lookup\<close>

fun entry_get :: "('k, 'v) eqenv \<Rightarrow> 'k \<Rightarrow> 'v option \<Rightarrow> ('k \<times> 'v) list \<Rightarrow> 'v option" where
  \<comment> \<open>the search loop of \<open>ArrayMapNode.get\<close> and \<open>HashCollisionNode.get\<close>\<close>
  "entry_get E key notSet [] = notSet"
| "entry_get E key notSet (e # es) = (if js_is E key (fst e) then Some (snd e) else entry_get E key notSet es)"

definition key_hash :: "('k, 'v) eqenv \<Rightarrow> int32 option \<Rightarrow> 'k \<Rightarrow> int32" where
  \<comment> \<open>\<open>if (keyHash === undefined) keyHash = hash(key)\<close>\<close>
  "key_hash E kh key = (case kh of None \<Rightarrow> js_hash E key | Some h \<Rightarrow> h)"

fun trie_get :: "('k, 'v) eqenv \<Rightarrow> nat \<Rightarrow> int32 option \<Rightarrow> 'k \<Rightarrow> 'v option \<Rightarrow> ('k, 'v) trie \<Rightarrow> 'v option" where
  "trie_get E shift kh key notSet (BitmapIndexedNode _ bitmap nodes) =
     (let h = key_hash E kh key;
          bit = bitpos (frag h shift)
      in if bitmap AND bit = 0 then notSet
         else case nth_opt nodes (unat (popCount (bitmap AND (bit - 1)))) of
                Some node \<Rightarrow> trie_get E (shift + SHIFT) (Some h) key notSet node
              | None \<Rightarrow> notSet \<comment> \<open>would raise; excluded by the node invariant\<close>)"
| "trie_get E shift kh key notSet (HashArrayMapNode _ _ nodes) =
     (let h = key_hash E kh key
      in case nth_opt nodes (frag h shift) of
           Some (Some node) \<Rightarrow> trie_get E (shift + SHIFT) (Some h) key notSet node
         | _ \<Rightarrow> notSet)"
| "trie_get E shift kh key notSet (HashCollisionNode _ _ entries) = entry_get E key notSet entries"
| "trie_get E shift kh key notSet (ValueNode _ _ entry) =
     (if js_is E key (fst entry) then Some (snd entry) else notSet)"

fun root_get :: "('k, 'v) eqenv \<Rightarrow> 'k \<Rightarrow> 'v option \<Rightarrow> ('k, 'v) root \<Rightarrow> 'v option" where
  "root_get E key notSet (ArrayMapNode _ entries) = entry_get E key notSet entries"
| "root_get E key notSet (Trie t) = trie_get E 0 None key notSet t"

section \<open>Building nodes\<close>

fun leaf_hash :: "('k, 'v) trie \<Rightarrow> int32" where
  \<comment> \<open>\<open>node.keyHash\<close>, read of leaves only\<close>
  "leaf_hash (ValueNode _ h _) = h"
| "leaf_hash (HashCollisionNode _ h _) = h"
| "leaf_hash _ = 0"

fun leaf_entries :: "('k, 'v) trie \<Rightarrow> ('k \<times> 'v) list" where
  \<comment> \<open>\<open>[node.entry]\<close>: \<open>mergeIntoNode\<close> reads \<open>entry\<close> of a \<open>ValueNode\<close> only, since a
    \<open>HashCollisionNode\<close> is merged with a different hash\<close>
  "leaf_entries (ValueNode _ _ e) = [e]"
| "leaf_entries _ = []"

definition frag_gap :: "nat \<Rightarrow> int32 \<Rightarrow> int32 \<Rightarrow> nat" where
  "frag_gap shift h1 h2 = (LEAST n. frag h1 (shift + 5 * n) \<noteq> frag h2 (shift + 5 * n))"

lemma frag_gap_decreases:
  assumes "h1 \<noteq> h2" "frag h1 shift = frag h2 shift"
  shows "frag_gap (shift + 5) h1 h2 < frag_gap shift h1 h2"
proof -
  obtain n where "frag h1 (shift + 5 * n) \<noteq> frag h2 (shift + 5 * n)"
    using assms(1) frag_all_eq by blast
  then have L: "frag h1 (shift + 5 * frag_gap shift h1 h2) \<noteq> frag h2 (shift + 5 * frag_gap shift h1 h2)"
    unfolding frag_gap_def by (rule LeastI)
  then obtain m where m: "frag_gap shift h1 h2 = Suc m"
    using assms(2) by (cases "frag_gap shift h1 h2") auto
  with L have "frag h1 (shift + 5 + 5 * m) \<noteq> frag h2 (shift + 5 + 5 * m)"
    by (simp add: algebra_simps)
  then have "frag_gap (shift + 5) h1 h2 \<le> m" unfolding frag_gap_def by (rule Least_le)
  with m show ?thesis by simp
qed

function mergeIntoNode ::
  "owner \<Rightarrow> nat \<Rightarrow> int32 \<Rightarrow> 'k \<times> 'v \<Rightarrow> ('k, 'v) trie \<Rightarrow> ('k, 'v) trie" where
  "mergeIntoNode own shift keyHash entry node =
     (if leaf_hash node = keyHash
      then HashCollisionNode own keyHash (leaf_entries node @ [entry])
      else let idx1 = frag (leaf_hash node) shift;
               idx2 = frag keyHash shift;
               nodes = (if idx1 = idx2 then [mergeIntoNode own (shift + SHIFT) keyHash entry node]
                        else if idx1 < idx2 then [node, ValueNode own keyHash entry]
                        else [ValueNode own keyHash entry, node])
           in BitmapIndexedNode own (bitpos idx1 OR bitpos idx2) nodes)"
  by pat_completeness auto
termination
  by (relation "measure (\<lambda>(own, shift, keyHash, entry, node). frag_gap shift (leaf_hash node) keyHash)")
    (auto simp: SHIFT_def intro: frag_gap_decreases)

declare mergeIntoNode.simps [simp del]

text \<open>\<open>packNodes\<close>: the loop over the 32 children, with the bit \<open>b\<close> doubling at every turn.\<close>

fun pack_loop :: "'n option list \<Rightarrow> nat \<Rightarrow> int32 \<Rightarrow> nat \<Rightarrow> int32 \<Rightarrow> 'n list \<Rightarrow> int32 \<times> 'n list" where
  "pack_loop [] ii b excluding bitmap packed = (bitmap, packed)"
| "pack_loop (node # rest) ii b excluding bitmap packed =
     (case node of
        Some n \<Rightarrow>
          if ii \<noteq> excluding
          then pack_loop rest (ii + 1) (shl32 b 1) excluding (bitmap OR b) (packed @ [n])
          else pack_loop rest (ii + 1) (shl32 b 1) excluding bitmap packed
      | None \<Rightarrow> pack_loop rest (ii + 1) (shl32 b 1) excluding bitmap packed)"

definition packNodes :: "owner \<Rightarrow> ('k, 'v) trie option list \<Rightarrow> nat \<Rightarrow> nat \<Rightarrow> ('k, 'v) trie" where
  "packNodes own nodes count excluding =
     (let (bitmap, packed) = pack_loop nodes 0 1 excluding 0 []
      in BitmapIndexedNode own bitmap packed)"

text \<open>\<open>expandNodes\<close>: shifts the bitmap right until it is zero.\<close>

function expand_loop ::
  "'n list \<Rightarrow> int32 \<Rightarrow> nat \<Rightarrow> nat \<Rightarrow> 'n option list \<Rightarrow> nat \<times> 'n option list" where
  "expand_loop nodes bitmap ii count expanded =
     (if bitmap = 0 then (count, expanded)
      else if bitmap AND 1 \<noteq> 0
      then expand_loop nodes (ushr32 bitmap 1) (ii + 1) (count + 1) (expanded[ii := nth_opt nodes count])
      else expand_loop nodes (ushr32 bitmap 1) (ii + 1) count (expanded[ii := None]))"
  by pat_completeness auto
termination
proof (relation "measure (\<lambda>(nodes, bitmap, ii, count, expanded). unat bitmap)", goal_cases)
  case (2 nodes bitmap ii count expanded)
  then have "0 < unat bitmap" by (simp add: unat_gt_0)
  then show ?case by (simp add: ushr32_def unat_drop)
next
  case (3 nodes bitmap ii count expanded)
  then have "0 < unat bitmap" by (simp add: unat_gt_0)
  then show ?case by (simp add: ushr32_def unat_drop)
qed simp

declare expand_loop.simps [simp del]

definition expandNodes ::
  "owner \<Rightarrow> ('k, 'v) trie list \<Rightarrow> int32 \<Rightarrow> nat \<Rightarrow> ('k, 'v) trie \<Rightarrow> ('k, 'v) trie" where
  "expandNodes own nodes bitmap including node =
     (let (count, expanded) = expand_loop nodes bitmap 0 0 (replicate SIZE None)
      in HashArrayMapNode own (count + 1) (expanded[including := Some node]))"

section \<open>Update\<close>

text \<open>
  The tail shared by \<open>ArrayMapNode.update\<close> and \<open>HashCollisionNode.update\<close>: overwrite, swap out
  or append an entry.
\<close>

definition edit_entries :: "('k \<times> 'v) list \<Rightarrow> nat \<Rightarrow> 'k \<Rightarrow> 'v option \<Rightarrow> ('k \<times> 'v) list" where
  "edit_entries entries idx key value =
     (if idx < length entries
      then (case value of None \<Rightarrow> swap_out entries idx | Some v \<Rightarrow> entries[idx := (key, v)])
      else (case value of None \<Rightarrow> entries | Some v \<Rightarrow> entries @ [(key, v)]))"

definition entries_unchanged :: "('k, 'v) eqenv \<Rightarrow> ('k \<times> 'v) list \<Rightarrow> nat \<Rightarrow> 'v option \<Rightarrow> bool" where
  \<comment> \<open>\<open>exists ? entries[idx][1] === value : removed\<close>\<close>
  "entries_unchanged E entries idx value =
     (if idx < length entries
      then (case value of None \<Rightarrow> False | Some v \<Rightarrow> js_same E (snd (entries ! idx)) v)
      else value = None)"

fun collision_update ::
  "('k, 'v) eqenv \<Rightarrow> owner \<Rightarrow> nat \<Rightarrow> int32 option \<Rightarrow> 'k \<Rightarrow> 'v option \<Rightarrow>
   owner \<Rightarrow> int32 \<Rightarrow> ('k \<times> 'v) list \<Rightarrow> ('k, 'v) node_result" where
  \<comment> \<open>\<open>HashCollisionNode.update\<close>\<close>
  "collision_update E own shift kh key value o' hash entries =
     (let this = HashCollisionNode o' hash entries;
          h = key_hash E kh key
      in if h \<noteq> hash
         then (case value of
                 None \<Rightarrow> (This this, False, False)
               | Some v \<Rightarrow> (New (mergeIntoNode own shift h (key, v) this), True, True))
         else
           let idx = index_where (\<lambda>e. js_is E key (fst e)) entries;
               exists = idx < length entries;
               removed = (value = None)
           in if entries_unchanged E entries idx value then (This this, False, False)
              else if removed \<and> length entries = 2
              then (New (ValueNode own hash (entries ! (idx XOR 1))), True, True)
              else if editable own o'
              then (This (HashCollisionNode o' hash (edit_entries entries idx key value)), removed \<or> \<not> exists, True)
              else (New (HashCollisionNode own hash (edit_entries entries idx key value)), removed \<or> \<not> exists, True))"

fun value_update ::
  "('k, 'v) eqenv \<Rightarrow> owner \<Rightarrow> nat \<Rightarrow> 'k \<Rightarrow> 'v option \<Rightarrow>
   owner \<Rightarrow> int32 \<Rightarrow> 'k \<times> 'v \<Rightarrow> ('k, 'v) node_result" where
  \<comment> \<open>\<open>ValueNode.update\<close>\<close>
  "value_update E own shift key value o' hash entry =
     (let this = ValueNode o' hash entry;
          keyMatch = js_is E key (fst entry)
      in case value of
           None \<Rightarrow> if keyMatch then (Gone, True, True) else (This this, False, False)
         | Some v \<Rightarrow>
             if keyMatch
             then if js_same E v (snd entry) then (This this, False, False)
                  else if editable own o' then (This (ValueNode o' hash (fst entry, v)), False, True)
                  else (New (ValueNode own hash (key, v)), False, True)
             else (New (mergeIntoNode own shift (js_hash E key) (key, v) this), True, True))"

definition new_value_node :: "owner \<Rightarrow> int32 \<Rightarrow> 'k \<Rightarrow> 'v option \<Rightarrow> ('k, 'v) node_result" where
  \<comment> \<open>\<open>updateNode\<close> on an absent node\<close>
  "new_value_node own h key value =
     (case value of None \<Rightarrow> (Gone, False, False) | Some v \<Rightarrow> (New (ValueNode own h (key, v)), True, True))"

definition bitmap_result ::
  "owner \<Rightarrow> owner \<Rightarrow> int32 \<Rightarrow> ('k, 'v) trie list \<Rightarrow> nat \<Rightarrow> ('k, 'v) trie upd \<Rightarrow> ('k, 'v) trie upd" where
  \<comment> \<open>what \<open>BitmapIndexedNode.update\<close> does with the updated child\<close>
  "bitmap_result own o' bitmap nodes f res =
     (let bit = bitpos f;
          exists = (bitmap AND bit \<noteq> 0);
          idx = unat (popCount (bitmap AND (bit - 1)));
          edit = editable own o'
      in case res of
           This node \<Rightarrow> This (BitmapIndexedNode o' bitmap (nodes[idx := node]))
         | New newNode \<Rightarrow>
             if \<not> exists \<and> length nodes \<ge> MAX_BITMAP_INDEXED_SIZE
             then New (expandNodes own nodes bitmap f newNode)
             else if exists \<and> length nodes = 1 \<and> isLeafNode newNode then New newNode
             else
               let newBitmap = (if exists then bitmap else bitmap OR bit);
                   newNodes = (if exists then setIn nodes idx newNode else spliceIn nodes idx newNode edit)
               in if edit then This (BitmapIndexedNode o' newBitmap newNodes)
                  else New (BitmapIndexedNode own newBitmap newNodes)
         | Gone \<Rightarrow>
             if exists \<and> length nodes = 2 \<and> isLeafNode (nodes ! (idx XOR 1))
             then New (nodes ! (idx XOR 1))
             else
               let newBitmap = bitmap XOR bit;
                   newNodes = spliceOut nodes idx edit
               in if edit then This (BitmapIndexedNode o' newBitmap newNodes)
                  else New (BitmapIndexedNode own newBitmap newNodes))"

definition hash_array_result ::
  "owner \<Rightarrow> owner \<Rightarrow> nat \<Rightarrow> ('k, 'v) trie option list \<Rightarrow> nat \<Rightarrow> ('k, 'v) trie upd \<Rightarrow> ('k, 'v) trie upd" where
  \<comment> \<open>what \<open>HashArrayMapNode.update\<close> does with the updated child\<close>
  "hash_array_result own o' count nodes idx res =
     (let node = (case nth_opt nodes idx of Some (Some n) \<Rightarrow> Some n | _ \<Rightarrow> None)
      in case res of
           This n \<Rightarrow> This (HashArrayMapNode o' count (nodes[idx := Some n]))
         | _ \<Rightarrow>
             let newCount = (if node = None then count + 1 else if upd_opt res = None then count - 1 else count)
             in if node \<noteq> None \<and> upd_opt res = None \<and> newCount < MIN_HASH_ARRAY_MAP_SIZE
                then New (packNodes own nodes newCount idx)
                else let newNodes = setIn nodes idx (upd_opt res)
                     in if editable own o' then This (HashArrayMapNode o' newCount newNodes)
                        else New (HashArrayMapNode own newCount newNodes))"

lemma nth_opt_if_size [termination_simp]:
  "(if b then nth_opt xs i else None) = Some x \<Longrightarrow> f x < Suc (size_list f xs)"
  by (auto split: if_splits intro: nth_opt_size)

fun trie_update ::
  "('k, 'v) eqenv \<Rightarrow> owner \<Rightarrow> nat \<Rightarrow> int32 option \<Rightarrow> 'k \<Rightarrow> 'v option \<Rightarrow> ('k, 'v) trie \<Rightarrow> ('k, 'v) node_result" where
  "trie_update E own shift kh key value (BitmapIndexedNode o' bitmap nodes) =
     (let h = key_hash E kh key;
          f = frag h shift;
          exists = (bitmap AND bitpos f \<noteq> 0)
      in if \<not> exists \<and> value = None then (This (BitmapIndexedNode o' bitmap nodes), False, False)
         else
           let (res, chg, alt) =
                 (case (if exists then nth_opt nodes (unat (popCount (bitmap AND (bitpos f - 1)))) else None) of
                    None \<Rightarrow> new_value_node own h key value
                  | Some node \<Rightarrow> trie_update E own (shift + SHIFT) (Some h) key value node)
           in (bitmap_result own o' bitmap nodes f res, chg, alt))"
| "trie_update E own shift kh key value (HashArrayMapNode o' count nodes) =
     (let h = key_hash E kh key;
          idx = frag h shift
      in case nth_opt nodes idx of
           Some (Some node) \<Rightarrow>
             let (res, chg, alt) = trie_update E own (shift + SHIFT) (Some h) key value node
             in (hash_array_result own o' count nodes idx res, chg, alt)
         | _ \<Rightarrow>
             if value = None then (This (HashArrayMapNode o' count nodes), False, False)
             else let (res, chg, alt) = new_value_node own h key value
                  in (hash_array_result own o' count nodes idx res, chg, alt))"
| "trie_update E own shift kh key value (HashCollisionNode o' hash entries) =
     collision_update E own shift kh key value o' hash entries"
| "trie_update E own shift kh key value (ValueNode o' hash entry) =
     value_update E own shift key value o' hash entry"

definition createNodes ::
  "('k, 'v) eqenv \<Rightarrow> owner \<Rightarrow> nat \<Rightarrow> ('k \<times> 'v) list \<Rightarrow> 'k \<Rightarrow> 'v \<Rightarrow> ('k, 'v) trie" where
  \<comment> \<open>\<open>fresh\<close> stands for \<open>new OwnerID()\<close>\<close>
  "createNodes E own fresh entries key v =
     (let own' = (case own of None \<Rightarrow> Some fresh | Some _ \<Rightarrow> own)
      in foldl (\<lambda>node e. upd_default node (fst (trie_update E own' 0 None (fst e) (Some (snd e)) node)))
           (ValueNode own' (js_hash E key) (key, v)) entries)"

fun root_update ::
  "('k, 'v) eqenv \<Rightarrow> owner \<Rightarrow> nat \<Rightarrow> 'k \<Rightarrow> 'v option \<Rightarrow> ('k, 'v) root \<Rightarrow> ('k, 'v) root upd \<times> bool \<times> bool" where
  "root_update E own fresh key value (ArrayMapNode o' entries) =
     (let idx = index_where (\<lambda>e. js_is E key (fst e)) entries;
          exists = idx < length entries;
          removed = (value = None)
      in if entries_unchanged E entries idx value then (This (ArrayMapNode o' entries), False, False)
         else if removed \<and> length entries = 1 then (Gone, True, True)
         else if \<not> exists \<and> \<not> removed \<and> length entries \<ge> MAX_ARRAY_MAP_SIZE
         then (New (Trie (createNodes E own fresh entries key (the value))), True, True)
         else if editable own o'
         then (This (ArrayMapNode o' (edit_entries entries idx key value)), removed \<or> \<not> exists, True)
         else (New (ArrayMapNode own (edit_entries entries idx key value)), removed \<or> \<not> exists, True))"
| "root_update E own fresh key value (Trie t) =
     (let (res, chg, alt) = trie_update E own 0 None key value t
      in (case res of Gone \<Rightarrow> Gone | This n \<Rightarrow> This (Trie n) | New n \<Rightarrow> New (Trie n), chg, alt))"

section \<open>Iteration\<close>

fun trie_iterate ::
  "('k \<times> 'v \<Rightarrow> 's \<Rightarrow> 's \<times> bool) \<Rightarrow> bool \<Rightarrow> ('k, 'v) trie \<Rightarrow> 's \<Rightarrow> 's \<times> bool" where
  \<comment> \<open>the Boolean of a result says that \<open>false\<close> was returned\<close>
  "trie_iterate fn reverse (BitmapIndexedNode _ _ nodes) s =
     run_until (\<lambda>node s. trie_iterate fn reverse node s) (directed reverse nodes) s"
| "trie_iterate fn reverse (HashArrayMapNode _ _ nodes) s =
     run_until (\<lambda>node s. case node of None \<Rightarrow> (s, False) | Some n \<Rightarrow> trie_iterate fn reverse n s)
       (directed reverse nodes) s"
| "trie_iterate fn reverse (HashCollisionNode _ _ entries) s =
     run_until fn (directed reverse entries) s"
| "trie_iterate fn reverse (ValueNode _ _ entry) s = fn entry s"

fun root_iterate ::
  "('k \<times> 'v \<Rightarrow> 's \<Rightarrow> 's \<times> bool) \<Rightarrow> bool \<Rightarrow> ('k, 'v) root \<Rightarrow> 's \<Rightarrow> 's \<times> bool" where
  "root_iterate fn reverse (ArrayMapNode _ entries) s =
     run_until fn (directed reverse entries) s"
| "root_iterate fn reverse (Trie t) s = trie_iterate fn reverse t s"

end
