(* ===== verification/Imm_TrieInv.thy ===== *)
theory Imm_TrieInv
  imports Imm_Trie
begin

text \<open>
  The invariant of the trie nodes and what a node contains. \<open>trie_entries\<close> lists the entries in
  iteration order. \<open>wf_trie E s P t\<close> says that \<open>t\<close> is a well-formed subtree for depth \<open>s\<close> whose
  keys all have a hash satisfying \<open>P\<close>: a packed node has as many children as set bits, at most
  16, and is never a chain to a single leaf; an unpacked node has 32 slots, at least 8 in use, and
  counts them; a collision node holds at least two distinct keys of one hash. Both kinds of inner
  node are then viewed as one function from the 32 hash fragments to optional children
  (\<open>kids\<close>), so that the proofs about lookup and update treat them alike.

  The locale \<open>key_equality\<close> is the contract on the key operations that \<open>is\<close> documents: an
  equivalence under which equal keys have equal hash codes; strictly equal values are identical.
\<close>

section \<open>The contract on keys and values\<close>

locale key_equality =
  fixes E :: "('k, 'v) eqenv"
  assumes is_refl [simp]: "js_is E k k"
    and is_sym: "js_is E k k' \<Longrightarrow> js_is E k' k"
    and is_trans: "js_is E k k' \<Longrightarrow> js_is E k' k'' \<Longrightarrow> js_is E k k''"
    and is_hash: "js_is E k k' \<Longrightarrow> js_hash E k = js_hash E k'"
    and same_eq: "js_same E x y \<Longrightarrow> x = y"

section \<open>Entries\<close>

fun trie_entries :: "('k, 'v) trie \<Rightarrow> ('k \<times> 'v) list" where
  "trie_entries (BitmapIndexedNode _ _ nodes) = concat (map trie_entries nodes)"
| "trie_entries (HashArrayMapNode _ _ nodes) =
     concat (map (\<lambda>n. case n of None \<Rightarrow> [] | Some t \<Rightarrow> trie_entries t) nodes)"
| "trie_entries (HashCollisionNode _ _ entries) = entries"
| "trie_entries (ValueNode _ _ e) = [e]"

definition opt_entries :: "('k, 'v) trie option \<Rightarrow> ('k \<times> 'v) list" where
  "opt_entries n = (case n of None \<Rightarrow> [] | Some t \<Rightarrow> trie_entries t)"

lemma opt_entries_simps [simp]: "opt_entries None = []" "opt_entries (Some t) = trie_entries t"
  by (simp_all add: opt_entries_def)

lemma set_opt_entries: "e \<in> set (opt_entries n) \<longleftrightarrow> (\<exists>t. n = Some t \<and> e \<in> set (trie_entries t))"
  by (cases n) auto

fun distinct_keys :: "('k, 'v) eqenv \<Rightarrow> ('k \<times> 'v) list \<Rightarrow> bool" where
  "distinct_keys E [] \<longleftrightarrow> True"
| "distinct_keys E (e # es) \<longleftrightarrow> (\<forall>e' \<in> set es. \<not> js_is E (fst e) (fst e')) \<and> distinct_keys E es"

section \<open>The invariant\<close>

lemma child_size [termination_simp]:
  "child bm nodes i = Some c \<Longrightarrow> size c < Suc (size_list size nodes)"
  by (auto simp: child_def split: if_splits intro: nth_opt_size)

fun wf_trie :: "('k, 'v) eqenv \<Rightarrow> nat \<Rightarrow> (int32 \<Rightarrow> bool) \<Rightarrow> ('k, 'v) trie \<Rightarrow> bool" where
  "wf_trie E s P (BitmapIndexedNode _ bm nodes) \<longleftrightarrow>
     packed_ok bm nodes \<and> nodes \<noteq> [] \<and> length nodes \<le> MAX_BITMAP_INDEXED_SIZE \<and>
     (length nodes = 1 \<longrightarrow> \<not> isLeafNode (hd nodes)) \<and>
     (\<forall>i<32. \<forall>c. child bm nodes i = Some c \<longrightarrow> wf_trie E (s + 5) (\<lambda>h. P h \<and> frag h s = i) c)"
| "wf_trie E s P (HashArrayMapNode _ count nodes) \<longleftrightarrow>
     length nodes = 32 \<and> count = length (filter (\<lambda>n. n \<noteq> None) nodes) \<and> MIN_HASH_ARRAY_MAP_SIZE \<le> count \<and>
     (\<forall>i<32. \<forall>c. nth_opt nodes i = Some (Some c) \<longrightarrow> wf_trie E (s + 5) (\<lambda>h. P h \<and> frag h s = i) c)"
| "wf_trie E s P (HashCollisionNode _ h es) \<longleftrightarrow>
     2 \<le> length es \<and> P h \<and> (\<forall>e \<in> set es. js_hash E (fst e) = h) \<and> distinct_keys E es"
| "wf_trie E s P (ValueNode _ h e) \<longleftrightarrow> P h \<and> js_hash E (fst e) = h"

lemma wf_leaf: "isLeafNode t \<Longrightarrow> wf_trie E s P t \<Longrightarrow> (\<And>h. P h \<Longrightarrow> Q h) \<Longrightarrow> wf_trie E s' Q t"
  by (cases t) auto

lemma wf_trie_cong: "wf_trie E s P t \<Longrightarrow> (\<And>h. P h = Q h) \<Longrightarrow> wf_trie E s Q t"
  by (subgoal_tac "P = Q") auto

section \<open>Inner nodes as functions from hash fragments to children\<close>

definition slot :: "('k, 'v) trie option list \<Rightarrow> nat \<Rightarrow> ('k, 'v) trie option" where
  "slot nodes i = (case nth_opt nodes i of Some n \<Rightarrow> n | None \<Rightarrow> None)"

lemma slot_Some: "slot nodes i = Some c \<longleftrightarrow> nth_opt nodes i = Some (Some c)"
  by (auto simp: slot_def split: option.splits)

definition kids_wf ::
  "('k, 'v) eqenv \<Rightarrow> nat \<Rightarrow> (int32 \<Rightarrow> bool) \<Rightarrow> (nat \<Rightarrow> ('k, 'v) trie option) \<Rightarrow> bool" where
  "kids_wf E s P kids \<longleftrightarrow> (\<forall>i<32. \<forall>c. kids i = Some c \<longrightarrow> wf_trie E (s + 5) (\<lambda>h. P h \<and> frag h s = i) c)"

definition kid_entries :: "(nat \<Rightarrow> ('k, 'v) trie option) \<Rightarrow> ('k \<times> 'v) list" where
  "kid_entries kids = concat (map (\<lambda>i. opt_entries (kids i)) [0..<32])"

lemma wf_bitmap_iff:
  "wf_trie E s P (BitmapIndexedNode o' bm nodes) \<longleftrightarrow>
     packed_ok bm nodes \<and> nodes \<noteq> [] \<and> length nodes \<le> 16 \<and>
     (length nodes = 1 \<longrightarrow> \<not> isLeafNode (hd nodes)) \<and> kids_wf E s P (child bm nodes)"
  by (simp add: kids_wf_def MAX_BITMAP_INDEXED_SIZE_def)

lemma wf_hash_array_iff:
  "wf_trie E s P (HashArrayMapNode o' count nodes) \<longleftrightarrow>
     length nodes = 32 \<and> count = length (filter (\<lambda>n. n \<noteq> None) nodes) \<and> 8 \<le> count \<and> kids_wf E s P (slot nodes)"
  by (simp add: kids_wf_def slot_Some MIN_HASH_ARRAY_MAP_SIZE_def)

lemma filter_bits_nth:
  "k < rank bm n \<Longrightarrow> bit bm (filter (bit bm) [0..<n] ! k) \<and> filter (bit bm) [0..<n] ! k < n \<and>
     rank bm (filter (bit bm) [0..<n] ! k) = k"
proof (induction n)
  case (Suc n)
  have len: "length (filter (bit bm) [0..<n]) = rank bm n" by (simp add: rank_def)
  show ?case
  proof (cases "k < rank bm n")
    case True
    with Suc.IH show ?thesis by (simp add: nth_append len less_Suc_eq)
  next
    case False
    with Suc.prems have "bit bm n" "k = rank bm n" by (auto split: if_splits)
    then show ?thesis by (simp add: nth_append len)
  qed
qed simp

lemma packed_unpack:
  assumes "packed_ok bm nodes"
  shows "nodes = map (\<lambda>i. the (child bm nodes i)) (filter (bit bm) [0..<32])"
proof (rule nth_equalityI)
  show "length nodes = length (map (\<lambda>i. the (child bm nodes i)) (filter (bit bm) [0..<32]))"
    using assms by (simp add: packed_ok_def rank_def)
  fix k assume "k < length nodes"
  then have "k < rank bm 32" using assms by (simp add: packed_ok_def)
  from filter_bits_nth [OF this] \<open>k < length nodes\<close>
  show "nodes ! k = map (\<lambda>i. the (child bm nodes i)) (filter (bit bm) [0..<32]) ! k"
    using \<open>k < rank bm 32\<close> by (simp add: child_def rank_def)
qed

lemma concat_packed:
  assumes "packed_ok bm nodes"
  shows "concat (map f nodes) = concat (map (\<lambda>i. case child bm nodes i of None \<Rightarrow> [] | Some c \<Rightarrow> f c) [0..<32])"
proof -
  let ?g = "\<lambda>i. case child bm nodes i of None \<Rightarrow> [] | Some c \<Rightarrow> f c"
  have "concat (map f nodes) = concat (map (\<lambda>i. f (the (child bm nodes i))) (filter (bit bm) [0..<32]))"
    by (subst packed_unpack [OF assms]) (simp add: o_def)
  also have "\<dots> = concat (map ?g (filter (bit bm) [0..<32]))"
    using child_Some [OF assms] by (auto intro!: arg_cong [where f = concat] map_cong)
  also have "\<dots> = concat (map ?g [0..<32])"
    by (rule concat_map_filter) (auto simp: child_def)
  finally show ?thesis .
qed

lemma bitmap_entries:
  "packed_ok bm nodes \<Longrightarrow> trie_entries (BitmapIndexedNode o' bm nodes) = kid_entries (child bm nodes)"
  by (simp add: kid_entries_def concat_packed opt_entries_def)

lemma hash_array_entries:
  "length nodes = 32 \<Longrightarrow> trie_entries (HashArrayMapNode o' count nodes) = kid_entries (slot nodes)"
proof -
  assume len: "length nodes = 32"
  then have "map (\<lambda>n. case n of None \<Rightarrow> [] | Some t \<Rightarrow> trie_entries t) nodes = map (\<lambda>i. opt_entries (slot nodes i)) [0..<32]"
    by (intro nth_equalityI) (simp_all add: opt_entries_def slot_def)
  then show ?thesis by (simp add: kid_entries_def)
qed

lemma set_kid_entries: "set (kid_entries kids) = (\<Union>i<32. set (opt_entries (kids i)))"
  by (auto simp: kid_entries_def)

lemma kid_entries_split:
  assumes "i < 32"
  obtains pre post where "\<And>x. kid_entries (kids(i := x)) = pre @ opt_entries x @ post"
    and "kid_entries kids = pre @ opt_entries (kids i) @ post"
    and "set pre \<union> set post = (\<Union>j \<in> {..<32} - {i}. set (opt_entries (kids j)))"
proof
  let ?pre = "concat (map (\<lambda>j. opt_entries (kids j)) [0..<i])"
  let ?post = "concat (map (\<lambda>j. opt_entries (kids j)) [Suc i..<32])"
  have "map (\<lambda>j. opt_entries ((kids(i := x)) j)) [0..<i] = map (\<lambda>j. opt_entries (kids j)) [0..<i]"
    "map (\<lambda>j. opt_entries ((kids(i := x)) j)) [Suc i..<32] = map (\<lambda>j. opt_entries (kids j)) [Suc i..<32]" for x
    by auto
  then show "kid_entries (kids(i := x)) = ?pre @ opt_entries x @ ?post" for x
    unfolding kid_entries_def upt_split [OF assms] map_append list.map concat_append concat.simps by (simp only: fun_upd_same)
  show "kid_entries kids = ?pre @ opt_entries (kids i) @ ?post"
    unfolding kid_entries_def upt_split [OF assms] by simp
  have "{..<32} - {i} = {0..<i} \<union> {Suc i..<32}" using assms by auto
  then show "set ?pre \<union> set ?post = (\<Union>j \<in> {..<32} - {i}. set (opt_entries (kids j)))"
    by (simp only: set_concat set_map set_upt) auto
qed

lemma kid_entries_update:
  assumes "i < 32"
  shows "length (kid_entries (kids(i := x))) + length (opt_entries (kids i)) =
         length (kid_entries kids) + length (opt_entries x)"
  by (rule kid_entries_split [OF assms, of kids]) simp

lemma kids_wf_update:
  "kids_wf E s P kids \<Longrightarrow> (\<And>c. x = Some c \<Longrightarrow> wf_trie E (s + 5) (\<lambda>h. P h \<and> frag h s = i) c) \<Longrightarrow>
   kids_wf E s P (kids(i := x))"
  by (auto simp: kids_wf_def)

lemma kid_entries_single:
  assumes "i < 32" "\<And>j. j < 32 \<Longrightarrow> j \<noteq> i \<Longrightarrow> kids j = None"
  shows "kid_entries kids = opt_entries (kids i)"
proof (rule kid_entries_split [OF assms(1), of kids])
  fix pre post
  assume e: "kid_entries kids = pre @ opt_entries (kids i) @ post"
    and s: "set pre \<union> set post = (\<Union>j \<in> {..<32} - {i}. set (opt_entries (kids j)))"
  from s assms(2) have "pre = []" "post = []" by auto
  with e show ?thesis by simp
qed

lemma wf_entries_hash: "wf_trie E s P t \<Longrightarrow> e \<in> set (trie_entries t) \<Longrightarrow> P (js_hash E (fst e))"
proof (induction E s P t arbitrary: e rule: wf_trie.induct)
  case (1 E s P o' bm nodes)
  then have "packed_ok bm nodes" by simp
  from "1.prems"(2)[unfolded bitmap_entries [OF this]] obtain i c
    where i: "i < 32" "child bm nodes i = Some c" "e \<in> set (trie_entries c)"
    by (auto simp: set_kid_entries set_opt_entries)
  with "1.prems"(1) have "wf_trie E (s + 5) (\<lambda>h. P h \<and> frag h s = i) c" by simp
  from "1.IH" [OF i(1,2) this i(3)] show ?case by simp
next
  case (2 E s P o' count nodes)
  then have "length nodes = 32" by simp
  from "2.prems"(2)[unfolded hash_array_entries [OF this]] obtain i c
    where i: "i < 32" "nth_opt nodes i = Some (Some c)" "e \<in> set (trie_entries c)"
    by (auto simp: set_kid_entries set_opt_entries slot_Some)
  with "2.prems"(1) have "wf_trie E (s + 5) (\<lambda>h. P h \<and> frag h s = i) c" by simp
  from "2.IH" [OF i(1,2) this i(3)] show ?case by simp
qed auto

lemma kids_entries_hash:
  "kids_wf E s P kids \<Longrightarrow> i < 32 \<Longrightarrow> e \<in> set (opt_entries (kids i)) \<Longrightarrow>
   P (js_hash E (fst e)) \<and> frag (js_hash E (fst e)) s = i"
  by (auto simp: kids_wf_def set_opt_entries dest!: wf_entries_hash)


text \<open>Induction over a well-formed trie, with both kinds of inner node seen as their children.\<close>

lemma wf_trie_induct [consumes 1, case_names inner leaf]:
  assumes "wf_trie E s P t"
    and inner: "\<And>s P t kids. wf_trie E s P t \<Longrightarrow> \<not> isLeafNode t \<Longrightarrow> kids_wf E s P kids \<Longrightarrow>
      trie_entries t = kid_entries kids \<Longrightarrow> \<exists>i<32. \<exists>c. kids i = Some c \<Longrightarrow>
      (\<And>i c. i < 32 \<Longrightarrow> kids i = Some c \<Longrightarrow> Q (s + 5) (\<lambda>h. P h \<and> frag h s = i) c) \<Longrightarrow> Q s P t"
    and leaf: "\<And>s P t. wf_trie E s P t \<Longrightarrow> isLeafNode t \<Longrightarrow> Q s P t"
  shows "Q s P t"
  using assms(1)
proof (induction t arbitrary: s P rule: measure_induct_rule [of size])
  case (less t)
  show ?case
  proof (cases t)
    case (BitmapIndexedNode o' bm nodes)
    with less.prems have wf: "packed_ok bm nodes" "kids_wf E s P (child bm nodes)" by (simp_all add: wf_bitmap_iff del: wf_trie.simps)
    show ?thesis
    proof (rule inner [OF less.prems _ wf(2)])
      show "trie_entries t = kid_entries (child bm nodes)" using wf BitmapIndexedNode by (simp add: bitmap_entries del: trie_entries.simps)
      show "\<exists>i<32. \<exists>c. child bm nodes i = Some c"
        using less.prems set_packed [OF wf(1)] hd_in_set [of nodes] by (auto simp: BitmapIndexedNode)
      fix i c assume i: "i < 32" "child bm nodes i = Some c"
      have "size c < size t" using child_size [OF i(2)] BitmapIndexedNode by simp
      then show "Q (s + 5) (\<lambda>h. P h \<and> frag h s = i) c" by (rule less.IH) (use wf i in \<open>simp add: kids_wf_def\<close>)
    qed (simp add: BitmapIndexedNode)
  next
    case (HashArrayMapNode o' count nodes)
    with less.prems have wf: "length nodes = 32" "kids_wf E s P (slot nodes)" by (simp_all add: wf_hash_array_iff del: wf_trie.simps)
    show ?thesis
    proof (rule inner [OF less.prems _ wf(2)])
      show "trie_entries t = kid_entries (slot nodes)" using wf HashArrayMapNode by (simp add: hash_array_entries del: trie_entries.simps)
      have "filter (\<lambda>n. n \<noteq> None) nodes \<noteq> []"
        using less.prems by (auto simp: HashArrayMapNode MIN_HASH_ARRAY_MAP_SIZE_def)
      then obtain c where "Some c \<in> set nodes" by (auto simp: filter_empty_conv)
      then show "\<exists>i<32. \<exists>c. slot nodes i = Some c"
        using wf(1) by (auto simp: in_set_conv_nth slot_Some nth_opt_eq_Some)
      fix i c assume i: "i < 32" "slot nodes i = Some c"
      have "size c < size t" using nth_opt_size_option [of nodes i c size] i(2) HashArrayMapNode by (simp add: slot_Some)
      then show "Q (s + 5) (\<lambda>h. P h \<and> frag h s = i) c" by (rule less.IH) (use wf i in \<open>simp add: kids_wf_def\<close>)
    qed (simp add: HashArrayMapNode)
  qed (use less.prems in \<open>auto intro: leaf\<close>)
qed

end
