(* ===== verification/JS_Value.thy ===== *)
theory JS_Value
  imports JS_Hash Imm_TrieInv
begin

text \<open>
  JavaScript values and the equality \<open>is\<close> and the function \<open>hash\<close> of
  \<open>static/drf-yasg/immutable.js\<close> on them. A reference to an object is a number; what the objects'
  own methods answer (\<open>valueOf\<close>, \<open>equals\<close>, \<open>hashCode\<close>, the number \<open>hashJSObj\<close> has handed out, the
  source text of a function) is not code of this file and comes in the record \<open>objects\<close>. The
  locale \<open>js_objects\<close> states what the documentation of \<open>is\<close> demands of it: \<open>valueOf\<close> is inherited
  by every object, \<open>equals\<close> is symmetric and transitive and agrees with \<open>hashCode\<close>.
\<close>

datatype jsval = Undefined | Null | Bool bool | Num jsnum | Str jsstring | Obj nat

record objects =
  obj_valueOf :: "nat \<Rightarrow> jsval option"
    \<comment> \<open>\<open>None\<close>: the object has no function of that name\<close>
  obj_equals :: "nat \<Rightarrow> (jsval \<Rightarrow> bool) option"
  obj_hashCode :: "nat \<Rightarrow> int32 option"
  obj_toString :: "nat \<Rightarrow> jsstring option"
    \<comment> \<open>\<open>Some\<close>: \<open>typeof\<close> is \<open>function\<close>, with this source text\<close>
  obj_uid :: "nat \<Rightarrow> int32"

fun truthy :: "jsval \<Rightarrow> bool" where
  "truthy Undefined = False"
| "truthy Null = False"
| "truthy (Bool b) = b"
| "truthy (Num n) = (n \<noteq> NaN \<and> n \<noteq> Fin 0)"
| "truthy (Str s) = (s \<noteq> [])"
| "truthy (Obj _) = True"

definition strict_eq :: "jsval \<Rightarrow> jsval \<Rightarrow> bool" where
  \<comment> \<open>\<open>===\<close>\<close>
  "strict_eq a b \<longleftrightarrow> a = b \<and> a \<noteq> Num NaN"

definition same_value :: "jsval \<Rightarrow> jsval \<Rightarrow> bool" where
  \<comment> \<open>\<open>valueA === valueB || (valueA !== valueA && valueB !== valueB)\<close>\<close>
  "same_value a b \<longleftrightarrow> strict_eq a b \<or> (\<not> strict_eq a a \<and> \<not> strict_eq b b)"

lemma same_value_eq: "same_value a b \<longleftrightarrow> a = b"
  by (auto simp: same_value_def strict_eq_def)

fun valueOf :: "objects \<Rightarrow> jsval \<Rightarrow> jsval option" where
  "valueOf H (Obj a) = obj_valueOf H a"
| "valueOf H Undefined = None"
| "valueOf H Null = None"
| "valueOf H x = Some x"

fun equals_method :: "objects \<Rightarrow> jsval \<Rightarrow> (jsval \<Rightarrow> bool) option" where
  "equals_method H (Obj a) = obj_equals H a"
| "equals_method H _ = None"

definition equals_call :: "objects \<Rightarrow> jsval \<Rightarrow> jsval \<Rightarrow> bool" where
  \<comment> \<open>both have a function \<open>equals\<close>, and the first one's answer is truthy\<close>
  "equals_call H a b =
     (case equals_method H a of
        None \<Rightarrow> False
      | Some eq \<Rightarrow> equals_method H b \<noteq> None \<and> eq b)"

definition is_value :: "objects \<Rightarrow> jsval \<Rightarrow> jsval \<Rightarrow> bool" where
  \<comment> \<open>the function \<open>is\<close>\<close>
  "is_value H valueA valueB =
     (if same_value valueA valueB then True
      else if \<not> truthy valueA \<or> \<not> truthy valueB then False
      else case (valueOf H valueA, valueOf H valueB) of
             (Some a, Some b) \<Rightarrow>
               if same_value a b then True
               else if \<not> truthy a \<or> \<not> truthy b then False
               else equals_call H a b
           | _ \<Rightarrow> equals_call H valueA valueB)"

definition hash_after :: "objects \<Rightarrow> jsval \<Rightarrow> int32" where
  \<comment> \<open>\<open>hash\<close> from the second test on, after \<open>valueOf\<close>; for \<open>propertyIsEnumerable\<close>, whose hash is a function, the
    number that stands for it in the trie (there \<open>===\<close> tells it from a hash 0, the model does not)\<close>
  "hash_after H x =
     (case x of
        Undefined \<Rightarrow> 0
      | Null \<Rightarrow> 0
      | Bool b \<Rightarrow> if b then 1 else 0
      | Num n \<Rightarrow> hashNumber n
      | Str s \<Rightarrow> hash_string s
      | Obj a \<Rightarrow>
          (case obj_hashCode H a of
             Some h \<Rightarrow> h
           | None \<Rightarrow> (case obj_toString H a of None \<Rightarrow> obj_uid H a | Some text \<Rightarrow> hashString text)))"

definition hash_value :: "objects \<Rightarrow> jsval \<Rightarrow> int32" where
  \<comment> \<open>the function \<open>hash\<close>\<close>
  "hash_value H x =
     (if x = Bool False \<or> x = Null \<or> x = Undefined then 0
      else hash_after H (case valueOf H x of Some y \<Rightarrow> y | None \<Rightarrow> x))"

definition js_env :: "objects \<Rightarrow> (jsval, jsval) eqenv" where
  "js_env H = \<lparr>js_is = is_value H, js_hash = hash_value H, js_same = strict_eq\<rparr>"

lemma js_env_simps [simp]:
  "js_is (js_env H) = is_value H" "js_hash (js_env H) = hash_value H" "js_same (js_env H) = strict_eq"
  by (simp_all add: js_env_def)

section \<open>The contract on objects\<close>

locale js_objects =
  fixes H :: objects
  assumes has_valueOf: "\<exists>v. obj_valueOf H a = Some v"
    and equals_sym: "equals_call H x y \<Longrightarrow> equals_call H y x"
    and equals_trans: "equals_call H x y \<Longrightarrow> equals_call H y z \<Longrightarrow> equals_call H x z"
    and equals_hash: "equals_call H x y \<Longrightarrow> hash_after H x = hash_after H y"
begin

definition unwrap :: "jsval \<Rightarrow> jsval" where
  "unwrap x = (case valueOf H x of Some y \<Rightarrow> y | None \<Rightarrow> x)"

lemma valueOf_truthy: "truthy x \<Longrightarrow> valueOf H x = Some (unwrap x)"
proof (cases x)
  case (Obj a)
  then show ?thesis using has_valueOf [of a] by (auto simp: unwrap_def)
qed (simp_all add: unwrap_def)

lemma equals_truthy: "equals_call H x y \<Longrightarrow> truthy x \<and> truthy y"
  by (cases x; cases y) (auto simp: equals_call_def split: option.splits)

lemma is_value_iff:
  "is_value H x y \<longleftrightarrow> x = y \<or> truthy x \<and> truthy y \<and> (unwrap x = unwrap y \<or> equals_call H (unwrap x) (unwrap y))"
  using equals_truthy by (auto simp: is_value_def same_value_eq valueOf_truthy)

lemma hash_value_unwrap: "truthy x \<Longrightarrow> hash_value H x = hash_after H (unwrap x)"
  by (auto simp: hash_value_def unwrap_def)

end

section \<open>\<open>hashJSObj\<close>\<close>

text \<open>
  The numbering of objects by \<open>hashJSObj\<close> where a \<open>WeakMap\<close> is available, as in every current
  browser: the table and the counter \<open>objHashUID\<close>, which restarts from 0 when it reaches bit 30.
\<close>

record uids =
  weakMap :: "nat \<Rightarrow> int option"
  objHashUID :: int

definition hashJSObj :: "nat \<Rightarrow> uids \<Rightarrow> int \<times> uids" where
  "hashJSObj obj st =
     (case weakMap st obj of
        Some hash \<Rightarrow> (hash, st)
      | None \<Rightarrow>
          (let hash = objHashUID st + 1;
               uid = (if jand hash 0x40000000 \<noteq> 0 then 0 else hash)
           in (hash, \<lparr>weakMap = (weakMap st)(obj \<mapsto> hash), objHashUID = uid\<rparr>)))"

fun hashJSObjs :: "nat list \<Rightarrow> uids \<Rightarrow> int list \<times> uids" where
  "hashJSObjs [] st = ([], st)"
| "hashJSObjs (a # as) st =
     (let (h, st') = hashJSObj a st; (hs, st'') = hashJSObjs as st' in (h # hs, st''))"

definition empty_uids :: uids where
  "empty_uids = \<lparr>weakMap = Map.empty, objHashUID = 0\<rparr>"

text \<open>Until the counter first wraps, the table is injective and uses the numbers up to the counter.\<close>

definition uids_ok :: "uids \<Rightarrow> bool" where
  "uids_ok st \<longleftrightarrow> finite (dom (weakMap st)) \<and> int (card (dom (weakMap st))) = objHashUID st \<and>
     inj_on (weakMap st) (dom (weakMap st)) \<and> (\<forall>a h. weakMap st a = Some h \<longrightarrow> 1 \<le> h \<and> h \<le> objHashUID st)"

lemma jand_bit_30: "0 \<le> n \<Longrightarrow> n < 2 ^ 30 \<Longrightarrow> jand n 0x40000000 = 0"
proof -
  assume n: "0 \<le> n" "n < 2 ^ 30"
  have "word_of_int n AND 0x40000000 = (0 :: int32)"
  proof (rule bit_word_eqI)
    fix i
    have "\<not> bit n 30" using n by (simp add: bit_iff_odd)
    then show "bit (word_of_int n AND 0x40000000 :: int32) i = bit (0 :: int32) i"
      unfolding bit_and_iff bit_set_30 by (auto simp: bit_word_of_int_iff)
  qed
  then show ?thesis by (simp add: jand_def)
qed

lemma hashJSObj_ok:
  assumes ok: "uids_ok st" and room: "card (insert a (dom (weakMap st))) < 2 ^ 30" and r: "hashJSObj a st = (h, st')"
  shows "uids_ok st' \<and> weakMap st' a = Some h \<and> (\<forall>b x. weakMap st b = Some x \<longrightarrow> weakMap st' b = Some x) \<and>
    dom (weakMap st') = insert a (dom (weakMap st))"
proof (cases "weakMap st a")
  case (Some x)
  then show ?thesis using ok r by (auto simp: hashJSObj_def)
next
  case None
  let ?n = "objHashUID st + 1"
  have fin: "finite (dom (weakMap st))" and c: "int (card (dom (weakMap st))) = objHashUID st" using ok by (simp_all add: uids_ok_def)
  have na: "a \<notin> dom (weakMap st)" using None by (simp add: domIff)
  then have cI: "card (insert a (dom (weakMap st))) = Suc (card (dom (weakMap st)))" using fin by simp
  have "card (dom (weakMap st)) + 1 < 1073741824" using cI room by simp
  then have small: "0 \<le> ?n" "?n < 2 ^ 30" using c by auto
  then have st': "st' = \<lparr>weakMap = (weakMap st)(a \<mapsto> ?n), objHashUID = ?n\<rparr>" "h = ?n"
    using r None jand_bit_30 [OF small] by (auto simp: hashJSObj_def Let_def)
  have rng: "\<And>b x. weakMap st b = Some x \<Longrightarrow> 1 \<le> x \<and> x \<le> objHashUID st" using ok by (simp add: uids_ok_def)
  have "inj_on (weakMap st) (dom (weakMap st))" using ok by (simp add: uids_ok_def)
  then have "inj_on ((weakMap st)(a \<mapsto> ?n)) (insert a (dom (weakMap st)))"
    using rng na by (fastforce simp: inj_on_def)
  moreover have "1 \<le> ?n" using c by linarith
  moreover have "x \<le> objHashUID st + 1" if "weakMap st b = Some x" for b x using rng [OF that] by simp
  ultimately show ?thesis
    using rng cI c fin na by (auto simp: uids_ok_def st' domIff)
qed

lemma hashJSObjs_ok:
  "uids_ok st \<Longrightarrow> card (dom (weakMap st) \<union> set as) < 2 ^ 30 \<Longrightarrow> hashJSObjs as st = (hs, st') \<Longrightarrow>
   uids_ok st' \<and> map (weakMap st') as = map Some hs \<and> (\<forall>b x. weakMap st b = Some x \<longrightarrow> weakMap st' b = Some x)"
proof (induction as arbitrary: st hs)
  case (Cons a as)
  obtain h st1 where h: "hashJSObj a st = (h, st1)" by force
  obtain hs1 where hs1: "hashJSObjs as st1 = (hs1, st')" "hs = h # hs1"
    using Cons.prems(3) h by (auto split: prod.splits)
  have fin: "finite (dom (weakMap st) \<union> set (a # as))" using Cons.prems(1) by (simp add: uids_ok_def)
  have "card (insert a (dom (weakMap st))) \<le> card (dom (weakMap st) \<union> set (a # as))"
    using fin by (intro card_mono) auto
  then have "card (insert a (dom (weakMap st))) < 2 ^ 30" using Cons.prems(2) by linarith
  note s = hashJSObj_ok [OF Cons.prems(1) this h]
  have "dom (weakMap st1) \<union> set as = dom (weakMap st) \<union> set (a # as)" using s by auto
  then have "card (dom (weakMap st1) \<union> set as) < 2 ^ 30" using Cons.prems(2) by simp
  with s Cons.IH [of st1 hs1] hs1 show ?case by auto
qed simp

end
