(* ===== verification/Imm_TrieEntries.thy ===== *)
theory Imm_TrieEntries
  imports Imm_TrieInv "HOL-Library.Multiset"
begin

text \<open>
  Lookup in entry lists and through the children of an inner node, under the contract
  \<open>key_equality\<close>: an entry list with pairwise different keys is a finite map up to \<open>is\<close>, the
  entry-editing tail of \<open>ArrayMapNode.update\<close> and \<open>HashCollisionNode.update\<close> changes that map at
  one key, and a key is found below an inner node exactly in the child its hash selects.
\<close>

lemma mset_swap_out: "i < length xs \<Longrightarrow> add_mset (xs ! i) (mset (swap_out xs i)) = mset xs"
proof (cases xs rule: rev_cases)
  case (snoc ys y)
  assume i: "i < length xs"
  show ?thesis
  proof (cases "i = length ys")
    case True
    then show ?thesis by (simp add: snoc swap_out_def pop_def)
  next
    case False
    with i snoc have "i < length ys" by simp
    then show ?thesis by (simp add: snoc swap_out_def pop_def mset_update nth_append)
  qed
qed simp

lemma splice_in_loop_eq:
  "idx \<le> length array \<Longrightarrow> splice_in_loop array idx v iis after acc =
   acc @ map (\<lambda>ii. if ii = idx then v else array ! (if after \<or> ii > idx then ii - 1 else ii)) iis"
  if "sorted_wrt (<) iis" "after \<longrightarrow> (\<forall>ii \<in> set iis. ii > idx)" "\<not> after \<longrightarrow> (\<forall>ii \<in> set iis. ii > idx \<longrightarrow> idx \<in> set iis)"
  using that
proof (induction iis arbitrary: after acc)
  case (Cons ii iis)
  show ?case
  proof (cases "ii = idx")
    case True
    have gt: "\<forall>j \<in> set iis. j > idx" using Cons.prems(2) True by auto
    have "splice_in_loop array idx v (ii # iis) after acc = splice_in_loop array idx v iis True (acc @ [v])"
      by (simp add: True)
    also have "\<dots> = (acc @ [v]) @ map (\<lambda>ii. if ii = idx then v else array ! (if True \<or> ii > idx then ii - 1 else ii)) iis"
      using Cons.prems gt by (intro Cons.IH) auto
    also have "map (\<lambda>ii. if ii = idx then v else array ! (if True \<or> ii > idx then ii - 1 else ii)) iis
       = map (\<lambda>ii. if ii = idx then v else array ! (if after \<or> ii > idx then ii - 1 else ii)) iis"
      using gt by (intro map_cong) auto
    finally show ?thesis by (simp add: True)
  next
    case False
    have d: "\<not> after \<Longrightarrow> \<not> idx < ii"
      using Cons.prems(2,4) False by auto
    have "splice_in_loop array idx v iis after (acc @ [array ! (if after then ii - 1 else ii)])
      = (acc @ [array ! (if after then ii - 1 else ii)]) @ map (\<lambda>ii. if ii = idx then v else array ! (if after \<or> ii > idx then ii - 1 else ii)) iis"
      using Cons.prems False by (intro Cons.IH) auto
    then show ?thesis using False d by auto
  qed
qed simp

lemma spliceIn_eq: "idx \<le> length array \<Longrightarrow> spliceIn array idx v canEdit = insert_at array idx v"
proof -
  assume idx: "idx \<le> length array"
  have "splice_in_loop array idx v [0..<length array + 1] False [] = insert_at array idx v"
    using idx
    by (subst splice_in_loop_eq)
      (auto simp del: upt_Suc simp: insert_at_nth intro!: nth_equalityI)
  moreover have "idx = length array \<Longrightarrow> array @ [v] = insert_at array idx v"
    by (simp add: insert_at_def)
  ultimately show ?thesis by (auto simp: spliceIn_def Let_def)
qed

lemma splice_out_loop_eq:
  "sorted_wrt (<) iis \<Longrightarrow> after \<longrightarrow> (\<forall>ii \<in> set iis. ii > idx) \<Longrightarrow>
   \<not> after \<longrightarrow> (\<forall>ii \<in> set iis. ii > idx \<longrightarrow> idx \<in> set iis) \<Longrightarrow>
   splice_out_loop array idx iis after acc = acc @ map (\<lambda>ii. array ! (if after \<or> ii \<ge> idx then ii + 1 else ii)) iis"
proof (induction iis arbitrary: after acc)
  case (Cons ii iis)
  define a where "a \<longleftrightarrow> after \<or> ii = idx"
  have gt: "a \<Longrightarrow> \<forall>j \<in> set iis. j > idx" using Cons.prems by (auto simp: a_def)
  have d: "\<not> a \<Longrightarrow> \<not> idx < ii" using Cons.prems by (auto simp: a_def)
  have IH: "splice_out_loop array idx iis a (acc @ [array ! (if a then ii + 1 else ii)])
    = (acc @ [array ! (if a then ii + 1 else ii)]) @ map (\<lambda>ii. array ! (if a \<or> ii \<ge> idx then ii + 1 else ii)) iis"
    using Cons.prems gt by (intro Cons.IH) (auto simp: a_def)
  have "map (\<lambda>ii. array ! (if a \<or> ii \<ge> idx then ii + 1 else ii)) iis
     = map (\<lambda>ii. array ! (if after \<or> ii \<ge> idx then ii + 1 else ii)) iis"
    using gt by (intro map_cong) (auto simp: a_def dest: less_imp_le)
  moreover have "splice_out_loop array idx (ii # iis) after acc =
     splice_out_loop array idx iis a (acc @ [array ! (if a then ii + 1 else ii)])"
    by (simp add: a_def Let_def)
  moreover have "(if a then ii + 1 else ii) = (if after \<or> ii \<ge> idx then ii + 1 else ii)"
    using d by (auto simp: a_def)
  ultimately show ?case using IH by simp
qed simp

lemma spliceOut_eq: "idx < length array \<Longrightarrow> spliceOut array idx canEdit = delete_at array idx"
proof -
  assume idx: "idx < length array"
  have "splice_out_loop array idx [0..<length array - 1] False [] = delete_at array idx"
    using idx by (subst splice_out_loop_eq) (auto simp: delete_at_nth intro!: nth_equalityI)
  moreover have "idx = length array - 1 \<Longrightarrow> pop array = delete_at array idx"
    using idx by (simp add: pop_def delete_at_def butlast_conv_take)
  ultimately show ?thesis by (auto simp: spliceOut_def Let_def)
qed

context key_equality
begin

lemma is_iff: "js_is E k k' \<Longrightarrow> js_is E k x \<longleftrightarrow> js_is E k' x"
  by (meson is_sym is_trans)

lemma is_iff_right: "js_is E k k' \<Longrightarrow> js_is E x k \<longleftrightarrow> js_is E x k'"
  by (meson is_sym is_trans)

lemma entry_get_default:
  "entry_get E k ns es = (case entry_get E k None es of None \<Rightarrow> ns | Some v \<Rightarrow> Some v)"
  by (induction es) auto

lemma entry_get_append:
  "entry_get E k ns (es @ es') = entry_get E k (entry_get E k ns es') es"
  by (induction es) auto

lemma entry_get_None_iff: "entry_get E k None es = None \<longleftrightarrow> (\<forall>e \<in> set es. \<not> js_is E k (fst e))"
  by (induction es) auto

lemma entry_get_miss: "\<forall>e \<in> set es. \<not> js_is E k (fst e) \<Longrightarrow> entry_get E k ns es = ns"
  by (induction es) auto

lemma entry_get_cong: "js_is E k k' \<Longrightarrow> entry_get E k ns es = entry_get E k' ns es"
  by (induction es) (auto dest: is_iff)

lemma entry_get_index:
  "entry_get E k None es =
     (if index_where (\<lambda>e. js_is E k (fst e)) es < length es
      then Some (snd (es ! index_where (\<lambda>e. js_is E k (fst e)) es)) else None)"
  by (induction es) auto

lemma entry_get_SomeD: "entry_get E k None es = Some v \<Longrightarrow> \<exists>e \<in> set es. js_is E k (fst e) \<and> snd e = v"
  by (induction es) (auto split: if_splits)

lemma distinct_keys_unique:
  "distinct_keys E es \<Longrightarrow> e \<in> set es \<Longrightarrow> e' \<in> set es \<Longrightarrow> js_is E (fst e) (fst e') \<Longrightarrow> e = e'"
  by (induction es) (auto dest: is_sym)

lemma entry_get_iff:
  "distinct_keys E es \<Longrightarrow> entry_get E k None es = Some v \<longleftrightarrow> (\<exists>e \<in> set es. js_is E k (fst e) \<and> snd e = v)"
proof
  assume d: "distinct_keys E es" and "\<exists>e \<in> set es. js_is E k (fst e) \<and> snd e = v"
  then obtain e where e: "e \<in> set es" "js_is E k (fst e)" "snd e = v" by blast
  then obtain w where w: "entry_get E k None es = Some w"
    using entry_get_None_iff [of k es] by fastforce
  then obtain e' where e': "e' \<in> set es" "js_is E k (fst e')" "snd e' = w"
    using entry_get_SomeD by blast
  with e have "e' = e" using distinct_keys_unique [OF d e'(1) e(1)] is_sym is_trans by metis
  with w e e' show "entry_get E k None es = Some v" by simp
qed (rule entry_get_SomeD)

lemma distinct_keys_append:
  "distinct_keys E (es @ es') \<longleftrightarrow>
     distinct_keys E es \<and> distinct_keys E es' \<and> (\<forall>e \<in> set es. \<forall>e' \<in> set es'. \<not> js_is E (fst e) (fst e'))"
  by (induction es) auto

lemma distinct_keys_pair:
  "distinct_keys E es \<Longrightarrow> {#a, b#} \<subseteq># mset es \<Longrightarrow> \<not> js_is E (fst a) (fst b)"
proof (induction es)
  case (Cons e es)
  consider "a = e" "b \<in> set es" | "b = e" "a \<in> set es" | "{#a, b#} \<subseteq># mset es"
    using Cons.prems(2) by (cases "a = e"; cases "b = e")
      (auto simp: insert_subset_eq_iff subset_mset.le_diff_conv2 single_subset_iff add_mset_commute
        dest!: insert_subset_eq_iff [THEN iffD1] in_diffD)
  then show ?case using Cons by cases (auto dest: is_sym)
qed simp

lemma distinct_keys_mset:
  "distinct_keys E es \<Longrightarrow> mset es' \<subseteq># mset es \<Longrightarrow> distinct_keys E es'"
proof (induction es')
  case (Cons e es')
  have "\<not> js_is E (fst e) (fst e')" if "e' \<in> set es'" for e'
  proof -
    have "{#e, e'#} \<subseteq># mset (e # es')" using that by simp
    with Cons.prems(2) have "{#e, e'#} \<subseteq># mset es" by (rule subset_mset.trans [rotated])
    with Cons.prems(1) show ?thesis by (rule distinct_keys_pair)
  qed
  moreover have "mset es' \<subseteq># mset es" using Cons.prems(2) by (auto dest: mset_subset_eq_insertD subset_mset.less_imp_le)
  ultimately show ?case using Cons by simp
qed simp

end

end
