(* ===== verification/Imm_TrieGet.thy ===== *)
theory Imm_TrieGet
  imports Imm_TrieEntries
begin

text \<open>
  Lookup in a well-formed trie: a key is found below an inner node exactly in the child that
  the five hash bits of the level select, all keys of a trie differ, and \<open>get\<close> returns what a
  search through the entries in iteration order returns.
\<close>

context key_equality
begin

lemma distinct_keys_snoc: "distinct_keys E es \<Longrightarrow> \<forall>e \<in> set es. \<not> js_is E k (fst e) \<Longrightarrow> distinct_keys E (es @ [(k, v)])"
  by (auto simp: distinct_keys_append dest: is_sym)

lemma entry_get_mset:
  assumes "distinct_keys E es" "mset es = mset es'"
  shows "entry_get E k None es = entry_get E k None es'"
proof -
  have d: "distinct_keys E es'" using assms distinct_keys_mset by (metis subset_mset.order_refl)
  have s: "set es = set es'" using assms(2) by (metis set_mset_mset)
  have "\<And>v. entry_get E k None es = Some v \<longleftrightarrow> entry_get E k None es' = Some v"
    using entry_get_iff [OF assms(1)] entry_get_iff [OF d] s by simp
  then show ?thesis by (metis not_Some_eq)
qed

lemma edit_entries_spec:
  fixes k x and es :: "('k \<times> 'v) list"
  assumes d: "distinct_keys E es"
  defines "i \<equiv> index_where (\<lambda>e. js_is E k (fst e)) es"
  shows "distinct_keys E (edit_entries es i k value)"
    and "entry_get E x None (edit_entries es i k value) = (if js_is E k x then value else entry_get E x None es)"
proof -
  have *: "distinct_keys E (edit_entries es i k value) \<and>
    entry_get E x None (edit_entries es i k value) = (if js_is E k x then value else entry_get E x None es)"
  proof (cases "i < length es")
    case True
    let ?r = "swap_out es i"
    have at: "js_is E k (fst (es ! i))" using True index_where_sat unfolding i_def by blast
    have m: "mset (es ! i # ?r) = mset es" using mset_swap_out [OF True] by simp
    have d1: "distinct_keys E (es ! i # ?r)" by (rule distinct_keys_mset [OF d]) (simp only: m)
    have miss: "\<forall>e \<in> set ?r. \<not> js_is E k (fst e)" using d1 at is_iff by auto
    have old: "entry_get E x None es = (if js_is E k x then Some (snd (es ! i)) else entry_get E x None ?r)"
    proof -
      have "js_is E x (fst (es ! i)) \<longleftrightarrow> js_is E k x" using at is_sym is_trans by blast
      then show ?thesis using entry_get_mset [OF d1 m, of x] by simp
    qed
    show ?thesis
    proof (cases "value")
      case None
      then show ?thesis using True d1 old miss is_sym
        by (simp add: edit_entries_def) (metis entry_get_cong entry_get_miss)
    next
      case (Some v)
      have "mset (es[i := (k, v)]) = mset ((k, v) # ?r)"
        using True m by (simp add: mset_update) (metis add_mset_remove_trivial)
      moreover have "distinct_keys E ((k, v) # ?r)" using d1 miss by simp
      ultimately have "distinct_keys E (es[i := (k, v)]) \<and>
         entry_get E x None (es[i := (k, v)]) = entry_get E x None ((k, v) # ?r)"
        by (metis distinct_keys_mset entry_get_mset subset_mset.order_refl)
      then show ?thesis using True Some old is_sym by (auto simp: edit_entries_def)
    qed
  next
    case False
    then have miss: "\<forall>e \<in> set es. \<not> js_is E k (fst e)"
      using index_where_less_iff [of "\<lambda>e. js_is E k (fst e)" es] unfolding i_def by auto
    have "js_is E k x \<Longrightarrow> entry_get E x None es = None"
      using miss entry_get_None_iff is_iff by blast
    then show ?thesis using False d miss distinct_keys_snoc is_sym
      by (cases "js_is E k x"; cases "value") (auto simp: edit_entries_def entry_get_append entry_get_default [of x "Some _"]
          split: option.splits)
  qed
  then show "distinct_keys E (edit_entries es i k value)"
    "entry_get E x None (edit_entries es i k value) = (if js_is E k x then value else entry_get E x None es)" by auto
qed

lemma entries_unchanged_spec:
  assumes d: "distinct_keys E es"
    and u: "entries_unchanged E es (index_where (\<lambda>e. js_is E k (fst e)) es) value"
    and k: "js_is E k x"
  shows "entry_get E x None es = value"
proof -
  let ?i = "index_where (\<lambda>e. js_is E k (fst e)) es"
  have "entry_get E x None es = entry_get E k None es" using k entry_get_cong is_sym by blast
  also have "\<dots> = value"
    using u entry_get_index [of k es] by (auto simp: entries_unchanged_def dest: same_eq split: if_splits option.splits)
  finally show ?thesis .
qed

lemma entries_changed_spec:
  assumes "\<not> entries_unchanged E es (index_where (\<lambda>e. js_is E k (fst e)) es) value"
  shows "entry_get E k None es = value \<longrightarrow> (\<forall>x. value = Some x \<longrightarrow> js_same E x x) \<longrightarrow> False"
  using assms entry_get_index [of k es]
  by (auto simp: entries_unchanged_def split: option.splits if_splits)

lemma edit_entries_length:
  "int (length (edit_entries es i k value)) =
     int (length es) + (if \<not> (value = None \<or> \<not> i < length es) then 0 else if value = None then (if i < length es then -1 else 0) else 1)"
  by (auto simp: edit_entries_def split: option.splits)

lemma edit_entries_hash:
  "\<forall>e \<in> set es. js_hash E (fst e) = h \<Longrightarrow> js_hash E k = h \<Longrightarrow> \<forall>e \<in> set (edit_entries es i k value). js_hash E (fst e) = h"
  by (auto simp: edit_entries_def split: option.splits dest!: set_swap_out_subset [THEN subsetD] set_update_subset_insert [THEN subsetD])

section \<open>Children\<close>

lemma kids_get:
  assumes "kids_wf E s P kids"
  shows "entry_get E k ns (kid_entries kids) =
         (case kids (frag (js_hash E k) s) of None \<Rightarrow> ns | Some c \<Rightarrow> entry_get E k ns (trie_entries c))"
proof -
  let ?i = "frag (js_hash E k) s"
  obtain pre post where e: "kid_entries kids = pre @ opt_entries (kids ?i) @ post"
    and s: "set pre \<union> set post = (\<Union>j \<in> {..<32} - {?i}. set (opt_entries (kids j)))"
    by (rule kid_entries_split [OF frag_less, of kids])
  have "\<not> js_is E k (fst e)" if "e \<in> set pre \<union> set post" for e
  proof -
    from that obtain j where j: "j < 32" "j \<noteq> ?i" "e \<in> set (opt_entries (kids j))" unfolding s by auto
    with kids_entries_hash [OF assms, of j e] show ?thesis using is_hash by metis
  qed
  then show ?thesis by (simp add: e entry_get_append entry_get_miss opt_entries_def split: option.splits)
qed

lemma kids_distinct:
  assumes wf: "kids_wf E s P kids" and d: "\<And>i c. i < 32 \<Longrightarrow> kids i = Some c \<Longrightarrow> distinct_keys E (trie_entries c)"
  shows "distinct_keys E (kid_entries kids)"
proof -
  have "distinct xs \<Longrightarrow> set xs \<subseteq> {..<32} \<Longrightarrow> distinct_keys E (concat (map (\<lambda>i. opt_entries (kids i)) xs))" for xs
  proof (induction xs)
    case (Cons i xs)
    have "distinct_keys E (opt_entries (kids i))" using d [of i] Cons.prems by (cases "kids i") auto
    moreover have "\<not> js_is E (fst e) (fst e')"
      if "e \<in> set (opt_entries (kids i))" "e' \<in> set (concat (map (\<lambda>i. opt_entries (kids i)) xs))" for e e'
    proof -
      from that(2) obtain j where j: "j \<in> set xs" "e' \<in> set (opt_entries (kids j))" by auto
      with Cons.prems have "j < 32" "j \<noteq> i" "frag (js_hash E (fst e')) s = j"
        using kids_entries_hash [OF wf, of j e'] by auto
      moreover have "frag (js_hash E (fst e)) s = i" using kids_entries_hash [OF wf] Cons.prems that(1) by auto
      ultimately show ?thesis using is_hash by metis
    qed
    ultimately show ?case using Cons by (simp add: distinct_keys_append)
  qed simp
  from this [of "[0..<32]"] show ?thesis unfolding kid_entries_def by fastforce
qed

lemma wf_distinct: "wf_trie E s P t \<Longrightarrow> distinct_keys E (trie_entries t)"
proof (induction rule: wf_trie_induct)
  case (inner s P t kids)
  then show ?case using kids_distinct [of s P kids] by metis
next
  case (leaf s P t)
  then show ?case by (cases t) auto
qed

lemma trie_get_entries:
  assumes "wf_trie E s P t" "kh = None \<or> kh = Some (js_hash E k)"
  shows "trie_get E s kh k ns t = entry_get E k ns (trie_entries t)"
  using assms
proof (induction t arbitrary: s P kh rule: measure_induct_rule [of size])
  case (less t)
  have h: "key_hash E kh k = js_hash E k" using less.prems(2) by (auto simp: key_hash_def)
  let ?f = "frag (js_hash E k) s"
  show ?case
  proof (cases t)
    case (BitmapIndexedNode o' bm nodes)
    with less.prems have wf: "packed_ok bm nodes" "kids_wf E s P (child bm nodes)"
      by (simp_all add: wf_bitmap_iff del: wf_trie.simps)
    have "trie_get E s kh k ns t =
      (case child bm nodes ?f of None \<Rightarrow> ns | Some c \<Rightarrow> trie_get E (s + 5) (Some (js_hash E k)) k ns c)"
      using packed_index_rank [of ?f bm]
      by (simp add: BitmapIndexedNode h Let_def bitmap_test child_def packed_index_def SHIFT_def cong: option.case_cong)
    also have "\<dots> = (case child bm nodes ?f of None \<Rightarrow> ns | Some c \<Rightarrow> entry_get E k ns (trie_entries c))"
    proof (cases "child bm nodes ?f")
      case (Some c)
      then have "size c < size t" using child_size BitmapIndexedNode by fastforce
      then show ?thesis using less.IH [of c "s + 5" "\<lambda>h. P h \<and> frag h s = ?f"] wf Some by (simp add: kids_wf_def)
    qed simp
    also have "\<dots> = entry_get E k ns (kid_entries (child bm nodes))" using kids_get [OF wf(2), of k ns] by (simp del: option.case)
    also have "\<dots> = entry_get E k ns (trie_entries t)"
      unfolding BitmapIndexedNode by (simp add: bitmap_entries [OF wf(1)] del: trie_entries.simps)
    finally show ?thesis .
  next
    case (HashArrayMapNode o' count nodes)
    with less.prems have wf: "length nodes = 32" "kids_wf E s P (slot nodes)"
      by (simp_all add: wf_hash_array_iff del: wf_trie.simps)
    have "trie_get E s kh k ns t =
      (case slot nodes ?f of None \<Rightarrow> ns | Some c \<Rightarrow> trie_get E (s + 5) (Some (js_hash E k)) k ns c)"
      by (simp add: HashArrayMapNode h Let_def slot_def SHIFT_def split: option.splits)
    also have "\<dots> = (case slot nodes ?f of None \<Rightarrow> ns | Some c \<Rightarrow> entry_get E k ns (trie_entries c))"
    proof (cases "slot nodes ?f")
      case (Some c)
      then have "size c < size t" using nth_opt_size_option [of nodes ?f c size] HashArrayMapNode by (simp add: slot_Some)
      then show ?thesis using less.IH [of c "s + 5" "\<lambda>h. P h \<and> frag h s = ?f"] wf Some by (simp add: kids_wf_def)
    qed simp
    also have "\<dots> = entry_get E k ns (kid_entries (slot nodes))" using kids_get [OF wf(2), of k ns] by (simp del: option.case)
    also have "\<dots> = entry_get E k ns (trie_entries t)"
      unfolding HashArrayMapNode by (simp add: hash_array_entries [OF wf(1)] del: trie_entries.simps)
    finally show ?thesis .
  qed auto
qed

end

end
