(* ===== verification/Imm_TrieUpdate.thy ===== *)
theory Imm_TrieUpdate
  imports Imm_TrieGet
begin

text \<open>
  Updates of a well-formed trie. The contract \<open>upd_spec\<close> of one node update says that the
  result is well formed, holds the old entries except at the updated key, reports the change of
  size truthfully, and returns the receiver itself when nothing changed. It is proved for the
  leaves, for both kinds of inner nodes (through their view as functions from hash fragments to
  children), and for the conversions between them.
\<close>

section \<open>Conversions between packed and unpacked nodes\<close>

lemma shl32_bitpos: "i < 32 \<Longrightarrow> shl32 (bitpos i) 1 = (if Suc i < 32 then bitpos (Suc i) else 0)"
proof -
  assume i: "i < 32"
  have "push_bit (Suc i) (1 :: int32) = 0" if "\<not> Suc i < 32"
  proof -
    from that i have "Suc i = 32" by simp
    then show ?thesis by (simp only:) simp
  qed
  then show ?thesis using i by (simp add: bitpos_eq shl32_def mult.commute)
qed

lemma rank_top: "\<forall>j. bit bm j \<longrightarrow> j < i \<Longrightarrow> i \<le> n \<Longrightarrow> rank bm n = rank bm i"
  by (induction n) (auto simp: le_Suc_eq)

lemma slot_Cons: "slot (n # ns) j = (if j = 0 then n else slot ns (j - 1))"
  by (cases j) (auto simp: slot_def nth_opt_def)

lemma pack_loop_spec:
  assumes "ii + length nodes = 32" "b = (if ii < 32 then bitpos ii else 0)"
    "\<forall>j. bit bitmap j \<longrightarrow> j < ii" "length packed = rank bitmap 32"
    "pack_loop nodes ii b excl bitmap packed = (bm, ns)"
  shows "packed_ok bm ns \<and>
    (\<forall>j. child bm ns j = (if j < ii then child bitmap packed j else if j = excl then None else slot nodes (j - ii)))"
  using assms
proof (induction nodes arbitrary: ii b bitmap packed)
  case Nil
  then show ?case by (auto simp: packed_ok_def child_def slot_def not_less)
next
  case (Cons node nodes)
  have ii: "ii < 32" using Cons.prems(1) by simp
  have b': "shl32 b 1 = (if Suc ii < 32 then bitpos (Suc ii) else 0)"
    using Cons.prems(2) ii shl32_bitpos [OF ii] by simp
  have nb: "\<not> bit bitmap ii" using Cons.prems(3) by auto
  have rk: "rank bitmap ii = rank bitmap 32"
    using rank_top [OF Cons.prems(3), of 32] ii by simp
  show ?case
  proof (cases "node \<noteq> None \<and> ii \<noteq> excl")
    case True
    then obtain n where n: "node = Some n" "ii \<noteq> excl" by auto
    have ok: "packed_ok bitmap packed" using Cons.prems(4) by (simp add: packed_ok_def)
    have ins: "insert_at packed (rank bitmap ii) n = packed @ [n]"
      using rk Cons.prems(4) by (simp add: insert_at_def)
    have spl: "packed_ok (bitmap OR bitpos ii) (packed @ [n])"
      "child (bitmap OR bitpos ii) (packed @ [n]) = (child bitmap packed)(ii := Some n)"
      using child_splice_in [OF ok ii nb, of n] by (simp_all add: ins)
    have p: "pack_loop nodes (Suc ii) (shl32 b 1) excl (bitmap OR bitpos ii) (packed @ [n]) = (bm, ns)"
      using Cons.prems(2,5) n ii by simp
    have s: "Suc ii + length nodes = 32" using Cons.prems(1) by simp
    have t: "\<forall>j. bit (bitmap OR bitpos ii) j \<longrightarrow> j < Suc ii" using Cons.prems(3) ii by (auto simp: bit_or_iff less_Suc_eq)
    have l: "length (packed @ [n]) = rank (bitmap OR bitpos ii) 32" using spl(1) by (simp add: packed_ok_def)
    note Cons.IH [OF s b' t l p, unfolded spl(2)]
    then have ok': "packed_ok bm ns" and ch: "\<And>j. child bm ns j = (if j < Suc ii then ((child bitmap packed)(ii := Some n)) j
        else if j = excl then None else slot nodes (j - Suc ii))" by blast+
    have "child bm ns j = (if j < ii then child bitmap packed j else if j = excl then None else slot (node # nodes) (j - ii))" for j
      using n by (cases j ii rule: linorder_cases) (simp_all add: ch slot_Cons)
    with ok' show ?thesis by blast
  next
    case False
    then have p: "pack_loop nodes (Suc ii) (shl32 b 1) excl bitmap packed = (bm, ns)"
      using Cons.prems(5) by (auto split: option.splits)
    have s: "Suc ii + length nodes = 32" using Cons.prems(1) by simp
    have t: "\<forall>j. bit bitmap j \<longrightarrow> j < Suc ii" using Cons.prems(3) by auto
    note Cons.IH [OF s b' t Cons.prems(4) p]
    then have ok': "packed_ok bm ns" and ch: "\<And>j. child bm ns j = (if j < Suc ii then child bitmap packed j
        else if j = excl then None else slot nodes (j - Suc ii))" by blast+
    have "child bitmap packed ii = None" using nb by (simp add: child_def)
    then have "child bm ns j = (if j < ii then child bitmap packed j else if j = excl then None else slot (node # nodes) (j - ii))" for j
      using False by (cases j ii rule: linorder_cases) (auto simp: ch slot_Cons)
    with ok' show ?thesis by blast
  qed
qed

text \<open>The number of children in use, in either representation.\<close>

definition kid_count :: "(nat \<Rightarrow> 'n option) \<Rightarrow> nat" where
  "kid_count kids = card {i. i < 32 \<and> kids i \<noteq> None}"

lemma kid_count_update:
  assumes "i < 32"
  shows "kid_count (kids(i := x)) =
    (if kids i = None then kid_count kids else kid_count kids - 1) + (if x = None then 0 else 1)"
proof -
  let ?S = "{j. j < 32 \<and> kids j \<noteq> None}"
  have "{j. j < 32 \<and> (kids(i := x)) j \<noteq> None} = (if x = None then ?S - {i} else insert i (?S - {i}))"
    using assms by auto
  moreover have fin: "finite ?S" by (rule finite_subset [of _ "{..<32}"]) auto
  moreover have "card (insert i (?S - {i})) = Suc (card (?S - {i}))" using fin by (intro card_insert_disjoint) auto
  moreover have "card (?S - {i}) = (if kids i = None then card ?S else card ?S - 1)"
    using assms card_Diff_singleton_if [of ?S i] by (cases "kids i") simp_all
  ultimately show ?thesis by (simp add: kid_count_def del: finite_Collect_conjI)
qed

lemma kid_count_pos: "i < 32 \<Longrightarrow> kids i = Some c \<Longrightarrow> 0 < kid_count kids"
  by (auto simp: kid_count_def card_gt_0_iff)

lemma kid_count_cong: "(\<And>i. i < 32 \<Longrightarrow> kids i = kids' i) \<Longrightarrow> kid_count kids = kid_count kids'"
  unfolding kid_count_def by (rule arg_cong [where f = card]) auto

lemma packed_count: "packed_ok bm nodes \<Longrightarrow> length nodes = kid_count (child bm nodes)"
proof -
  assume ok: "packed_ok bm nodes"
  have "{i. i < 32 \<and> child bm nodes i \<noteq> None} = set (filter (bit bm) [0..<32])"
    using child_Some [OF ok] by (auto simp: child_def split: if_splits)
  also have "card \<dots> = rank bm 32" unfolding rank_def by (rule distinct_card) simp
  finally show ?thesis using ok by (simp add: packed_ok_def kid_count_def)
qed

lemma slot_count: "length nodes = 32 \<Longrightarrow> length (filter (\<lambda>n. n \<noteq> None) nodes) = kid_count (slot nodes)"
  by (simp add: length_filter_conv_card kid_count_def slot_def nth_opt_def cong: conj_cong)

lemma packNodes_spec:
  assumes "length nodes = 32"
  obtains bm ns where "packNodes own nodes cnt excl = BitmapIndexedNode own bm ns"
    "packed_ok bm ns" "child bm ns = (slot nodes)(excl := None)"
proof -
  obtain bm ns where e: "pack_loop nodes 0 1 excl 0 [] = (bm, ns)" by force
  have "packed_ok bm ns \<and> (\<forall>j. child bm ns j = (if j < 0 then child 0 [] j else if j = excl then None else slot nodes (j - 0)))"
    by (rule pack_loop_spec [OF _ _ _ _ e]) (use assms in \<open>simp_all add: bitpos_eq rank_def\<close>)
  then show ?thesis using that [of bm ns] e by (auto simp: packNodes_def fun_eq_iff)
qed

lemma slot_update: "i < length ns \<Longrightarrow> slot (ns[i := x]) = (slot ns)(i := x)"
  by (auto simp: fun_eq_iff slot_def nth_opt_def nth_list_update)

lemma expand_loop_spec:
  assumes "bitmap = drop_bit ii bm" "cnt = rank bm ii" "ii \<le> 32" "length expanded = 32"
    "\<forall>j. slot expanded j = (if j < ii then child bm nodes j else None)" "packed_ok bm nodes"
    "expand_loop nodes bitmap ii cnt expanded = (cnt', ns)"
  shows "cnt' = length nodes \<and> length ns = 32 \<and> (\<forall>j<32. slot ns j = child bm nodes j)"
  using assms
proof (induction nodes bitmap ii cnt expanded rule: expand_loop.induct)
  case (1 nodes bitmap ii cnt expanded)
  have one: "bitmap AND 1 \<noteq> 0 \<longleftrightarrow> bit bm ii"
    by (simp add: "1.prems"(1) and_one_eq bit_iff_odd_drop_bit odd_iff_mod_2_eq_one)
  have nxt: "ushr32 bitmap 1 = drop_bit (ii + 1) bm" by (simp add: "1.prems"(1) ushr32_def)
  show ?case
  proof (cases "bitmap = 0")
    case True
    then have no: "\<not> bit bm j" if "ii \<le> j" for j
    proof -
      have "bit (drop_bit ii bm) (j - ii) = bit bm j" using that by (simp add: bit_drop_bit_eq)
      then show ?thesis using True "1.prems"(1) by simp
    qed
    then have "rank bm 32 = rank bm ii" using rank_top [of bm ii 32] "1.prems"(3) by (meson not_less)
    moreover have "\<forall>j. slot expanded j = child bm nodes j" using "1.prems"(5) no by (auto simp: child_def)
    moreover have "cnt' = cnt" "ns = expanded" using "1.prems"(7) True by (simp_all add: expand_loop.simps)
    ultimately show ?thesis using "1.prems" by (simp add: packed_ok_def)
  next
    case False
    have ii: "ii < 32"
    proof (rule ccontr)
      assume "\<not> ii < 32"
      then have "bitmap = drop_bit 32 bm" using "1.prems"(1,3) by simp
      with False show False by simp
    qed
    show ?thesis
    proof (cases "bitmap AND 1 \<noteq> 0")
      case True
      have b: "bit bm ii" using one True by simp
      have ch: "nth_opt nodes cnt = child bm nodes ii" using b "1.prems"(2) by (simp add: child_def)
      show ?thesis
      proof (rule "1.IH"(1) [OF False True nxt])
        show "expand_loop nodes (ushr32 bitmap 1) (ii + 1) (cnt + 1) (expanded[ii := nth_opt nodes cnt]) = (cnt', ns)"
          using "1.prems"(7) False True by (simp add: expand_loop.simps [of nodes bitmap])
        show "\<forall>j. slot (expanded[ii := nth_opt nodes cnt]) j = (if j < ii + 1 then child bm nodes j else None)"
          using "1.prems"(4,5) ii ch by (simp add: slot_update less_Suc_eq)
      qed (use "1.prems" b ii in auto)
    next
      case f: False
      have b: "\<not> bit bm ii" using one f by simp
      show ?thesis
      proof (rule "1.IH"(2) [OF False f nxt])
        show "expand_loop nodes (ushr32 bitmap 1) (ii + 1) cnt (expanded[ii := None]) = (cnt', ns)"
          using "1.prems"(7) False f by (simp add: expand_loop.simps [of nodes bitmap])
        show "\<forall>j. slot (expanded[ii := None]) j = (if j < ii + 1 then child bm nodes j else None)"
          using "1.prems"(4,5) ii b by (simp add: slot_update less_Suc_eq child_def)
      qed (use "1.prems" b ii in auto)
    qed
  qed
qed

lemma expandNodes_spec:
  assumes "packed_ok bm nodes" "f < 32"
  obtains ns where "expandNodes own nodes bm f node = HashArrayMapNode own (length nodes + 1) ns"
    "length ns = 32" "\<And>i. i < 32 \<Longrightarrow> slot ns i = ((child bm nodes)(f := Some node)) i"
proof -
  obtain c ns where e: "expand_loop nodes bm 0 0 (replicate SIZE None) = (c, ns)" by force
  have "c = length nodes \<and> length ns = 32 \<and> (\<forall>j<32. slot ns j = child bm nodes j)"
    by (rule expand_loop_spec [OF _ _ _ _ _ assms(1) e]) (simp_all add: slot_def nth_opt_def)
  then show ?thesis using that [of "ns[f := Some node]"] e assms(2)
    by (simp add: expandNodes_def slot_update)
qed

end
