(* ===== verification/Imm_TrieSpec.thy ===== *)
theory Imm_TrieSpec
  imports Imm_TrieUpdate
begin

text \<open>
  The contract of a node update, \<open>upd_spec\<close>, and its proof: for \<open>mergeIntoNode\<close>, for the two
  kinds of leaf, for the two kinds of inner node, and by induction for \<open>trie_update\<close>.
\<close>

definition upd_spec ::
  "('k, 'v) eqenv \<Rightarrow> owner \<Rightarrow> nat \<Rightarrow> (int32 \<Rightarrow> bool) \<Rightarrow> ('k, 'v) trie option \<Rightarrow> 'k \<Rightarrow> 'v option \<Rightarrow> ('k, 'v) node_result \<Rightarrow> bool" where
  "upd_spec E own s P c0 key value r = (case r of (res, chg, alt) \<Rightarrow>
     (\<forall>t. upd_opt res = Some t \<longrightarrow> wf_trie E s P t) \<and>
     (\<forall>x. entry_get E x None (opt_entries (upd_opt res)) =
        (if js_is E key x then value else entry_get E x None (opt_entries c0))) \<and>
     int (length (opt_entries (upd_opt res))) =
       int (length (opt_entries c0)) + (if \<not> chg then 0 else if value = None then -1 else 1) \<and>
     (\<not> alt \<longrightarrow> \<not> chg \<and> upd_opt res = c0 \<and> (c0 = None \<or> is_this res)) \<and>
     (own = None \<longrightarrow> alt \<longrightarrow> \<not> is_this res) \<and>
     (entry_get E key None (opt_entries c0) = value \<longrightarrow> (\<forall>x. value = Some x \<longrightarrow> js_same E x x) \<longrightarrow> \<not> alt) \<and>
     (\<forall>n. res = This n \<longrightarrow> (\<exists>t. c0 = Some t \<and> isLeafNode n = isLeafNode t)) \<and>
     (res = Gone \<longrightarrow> value = None \<and> (\<forall>t. c0 = Some t \<longrightarrow> isLeafNode t)))"

lemma kid_count_one:
  assumes "kid_count kids = 1" "f < 32" "kids f \<noteq> None" "j < 32" "j \<noteq> f"
  shows "kids j = None"
proof (rule ccontr)
  assume "kids j \<noteq> None"
  then have "{f, j} \<subseteq> {i. i < 32 \<and> kids i \<noteq> None}" using assms by auto
  moreover have "finite {i. i < 32 \<and> kids i \<noteq> None}" by (rule finite_subset [of _ "{..<32}"]) auto
  ultimately have "card {f, j} \<le> kid_count kids" unfolding kid_count_def by (intro card_mono)
  with assms show False by simp
qed

lemma packed_single:
  assumes "i < 32"
  shows "packed_ok (bitpos i) [a]" "child (bitpos i) [a] = [i \<mapsto> a]"
proof -
  have e: "packed_ok 0 []" "child 0 [] = Map.empty" by (simp_all add: packed_ok_def rank_def child_def fun_eq_iff)
  from child_splice_in [OF e(1) assms, of a, unfolded e(2)]
  show "packed_ok (bitpos i) [a]" "child (bitpos i) [a] = [i \<mapsto> a]" by (simp_all add: insert_at_def)
qed

lemma packed_pair:
  assumes "i < 32" "j < 32" "i \<noteq> j"
  shows "packed_ok (bitpos i OR bitpos j) (if i < j then [a, b] else [b, a])"
    "child (bitpos i OR bitpos j) (if i < j then [a, b] else [b, a]) = [i \<mapsto> a, j \<mapsto> b]"
proof -
  have "rank (bitpos i) j = (if i < j then 1 else 0)" using assms rank_set_bit [of i 0 j] by (simp add: rank_def)
  with child_splice_in [OF packed_single(1) [OF assms(1), of a], of j b] assms packed_single(2) [of i a]
  show "packed_ok (bitpos i OR bitpos j) (if i < j then [a, b] else [b, a])"
    "child (bitpos i OR bitpos j) (if i < j then [a, b] else [b, a]) = [i \<mapsto> a, j \<mapsto> b]"
    by (auto simp: insert_at_def)
qed

lemma xor_one_less_two: "i < 2 \<Longrightarrow> i XOR 1 < (2::nat)"
  by (auto simp: less_2_cases_iff)

lemma edit_pair: "length es = 2 \<Longrightarrow> i < 2 \<Longrightarrow> edit_entries es i k None = [es ! (i XOR 1)]"
proof -
  assume "length es = 2" "i < 2"
  then obtain a b where "es = [a, b]" by (auto simp: length_Suc_conv numeral_2_eq_2)
  moreover have "i = 0 \<or> i = 1" using \<open>i < 2\<close> by auto
  ultimately show ?thesis by (auto simp: edit_entries_def swap_out_def pop_def)
qed

context key_equality
begin

lemma merge_spec:
  assumes "wf_trie E s P node" "isLeafNode node" "P (js_hash E k)"
    "(\<exists>o' h e. node = ValueNode o' h e \<and> \<not> js_is E k (fst e)) \<or> leaf_hash node \<noteq> js_hash E k"
  shows "wf_trie E s P (mergeIntoNode own s (js_hash E k) (k, v) node) \<and>
    mset (trie_entries (mergeIntoNode own s (js_hash E k) (k, v) node)) = add_mset (k, v) (mset (trie_entries node)) \<and>
    (leaf_hash node \<noteq> js_hash E k \<longrightarrow> \<not> isLeafNode (mergeIntoNode own s (js_hash E k) (k, v) node))"
  using assms
proof (induction "frag_gap s (leaf_hash node) (js_hash E k)" arbitrary: s P rule: less_induct)
  case less
  let ?h = "js_hash E k" and ?g = "leaf_hash node"
  have pg: "P ?g" "wf_trie E t Q node" if "Q ?g" for t Q
    using less.prems(1,2) that by (cases node; auto)+
  have Pg: "P ?g" using less.prems(1,2) by (cases node) auto
  show ?case
  proof (cases "?g = ?h")
    case True
    with less.prems obtain o' h e where "node = ValueNode o' h e" "\<not> js_is E k (fst e)" by auto
    then show ?thesis using less.prems True
      by (subst (1 2 3) mergeIntoNode.simps) (auto dest: is_sym)
  next
    case False
    let ?i = "frag ?g s" and ?j = "frag ?h s"
    show ?thesis
    proof (cases "?i = ?j")
      case eq: True
      let ?m = "mergeIntoNode own (s + 5) ?h (k, v) node" and ?Q = "\<lambda>h. P h \<and> frag h s = ?i"
      have m: "mergeIntoNode own s ?h (k, v) node = BitmapIndexedNode own (bitpos ?i) [?m]"
        using False eq by (subst mergeIntoNode.simps) (simp add: SHIFT_def Let_def)
      have "wf_trie E (s + 5) ?Q ?m \<and> mset (trie_entries ?m) = add_mset (k, v) (mset (trie_entries node)) \<and> \<not> isLeafNode ?m"
      proof -
        have "wf_trie E (s + 5) ?Q node" using Pg by (intro pg(2)) simp
        from less.hyps [OF frag_gap_decreases [OF False eq] this less.prems(2)]
        show ?thesis using less.prems(3) False eq by simp
      qed
      then show ?thesis unfolding m
        by (simp add: wf_bitmap_iff packed_single kids_wf_def del: wf_trie.simps)
    next
      case neq: False
      let ?ns = "if ?i < ?j then [node, ValueNode own ?h (k, v)] else [ValueNode own ?h (k, v), node]"
      have m: "mergeIntoNode own s ?h (k, v) node = BitmapIndexedNode own (bitpos ?i OR bitpos ?j) ?ns"
        using False neq by (subst mergeIntoNode.simps) (simp add: SHIFT_def Let_def)
      have "kids_wf E s P (child (bitpos ?i OR bitpos ?j) ?ns)"
        unfolding packed_pair(2) [OF frag_less frag_less neq] using neq pg(2) Pg less.prems(3) by (auto simp: kids_wf_def)
      moreover have "packed_ok (bitpos ?i OR bitpos ?j) ?ns" by (rule packed_pair(1) [OF frag_less frag_less neq])
      ultimately show ?thesis unfolding m wf_bitmap_iff by auto
    qed
  qed
qed

lemma add_mset_spec:
  assumes d: "distinct_keys E es'" and m: "mset es' = add_mset (k, v) (mset es)" and no: "\<forall>e \<in> set es. \<not> js_is E k (fst e)"
  shows "entry_get E x None es' = (if js_is E k x then Some v else entry_get E x None es)"
    and "length es' = Suc (length es)"
proof -
  have "entry_get E x None es' = entry_get E x None ((k, v) # es)" by (rule entry_get_mset [OF d]) (simp add: m)
  then show "entry_get E x None es' = (if js_is E k x then Some v else entry_get E x None es)"
    using is_sym by auto
  show "length es' = Suc (length es)" using m by (metis size_mset size_add_mset)
qed

lemma merge_upd_spec:
  assumes wf: "wf_trie E s P node" "isLeafNode node" "P (js_hash E k)"
    and c: "(\<exists>o' h e. node = ValueNode o' h e \<and> \<not> js_is E k (fst e)) \<or> leaf_hash node \<noteq> js_hash E k"
  shows "upd_spec E own s P (Some node) k (Some v) (New (mergeIntoNode own s (js_hash E k) (k, v) node), True, True)"
proof -
  note m = merge_spec [OF wf c, of own v]
  have no: "\<forall>e \<in> set (trie_entries node). \<not> js_is E k (fst e)"
    using c wf is_hash by (cases node) auto
  have nk: "entry_get E k None (trie_entries node) = None" using no by (simp add: entry_get_None_iff)
  have d: "distinct_keys E (trie_entries (mergeIntoNode own s (js_hash E k) (k, v) node))" using m wf_distinct by blast
  show ?thesis using m add_mset_spec [OF d _ no] nk by (simp add: upd_spec_def)
qed

lemma value_update_spec:
  assumes wf: "wf_trie E s P (ValueNode o' h e)" and P: "P (js_hash E k)"
  shows "upd_spec E own s P (Some (ValueNode o' h e)) k value (value_update E own s k value o' h e)"
proof (cases "js_is E k (fst e)")
  case True
  then have x: "js_is E x (fst e) \<longleftrightarrow> js_is E k x" for x using is_sym is_trans by blast
  have h: "js_hash E k = h" using wf True is_hash by auto
  show ?thesis
    using wf P True h x is_hash [OF True]
    by (cases "value") (auto simp: upd_spec_def Let_def editable_def dest: same_eq is_sym is_trans)
next
  case False
  show ?thesis
  proof (cases "value")
    case None
    have "js_is E k x \<Longrightarrow> \<not> js_is E x (fst e)" for x using False is_trans by blast
    then show ?thesis using wf None False by (auto simp: upd_spec_def Let_def)
  next
    case (Some v)
    then show ?thesis using merge_upd_spec [OF wf _ P, of own v] False by (simp add: Let_def)
  qed
qed

lemma collision_update_spec:
  assumes wf: "wf_trie E s P (HashCollisionNode o' h es)" and P: "P (js_hash E k)"
    and kh: "kh = None \<or> kh = Some (js_hash E k)"
  shows "upd_spec E own s P (Some (HashCollisionNode o' h es)) k value (collision_update E own s kh k value o' h es)"
proof (cases "js_hash E k = h")
  case False
  have kh': "key_hash E kh k = js_hash E k" using kh by (auto simp: key_hash_def)
  have no: "entry_get E x None es = None" if "js_is E k x" for x
    using wf False is_hash that by (auto simp: entry_get_None_iff)
  show ?thesis
  proof (cases "value")
    case None
    then show ?thesis using wf no False kh' by (simp add: upd_spec_def Let_def)
  next
    case (Some v)
    then show ?thesis using merge_upd_spec [OF wf _ P, of own v] False kh' by (simp add: Let_def)
  qed
next
  case True
  have kh': "key_hash E kh k = h" using kh True by (auto simp: key_hash_def)
  let ?i = "index_where (\<lambda>e. js_is E k (fst e)) es"
  have d: "distinct_keys E es" and l: "2 \<le> length es" and hs: "\<forall>e \<in> set es. js_hash E (fst e) = h" and Ph: "P h"
    using wf by simp_all
  note ed = edit_entries_spec [OF d, where k = k] edit_entries_hash [OF hs True, of ?i "value"] edit_entries_length [of es ?i k "value"]
  show ?thesis
  proof (cases "entries_unchanged E es ?i value")
    case u: True
    then show ?thesis using wf entries_unchanged_spec [OF d u] kh' by (simp add: upd_spec_def Let_def)
  next
    case u: False
    note ch = entries_changed_spec [OF u]
    have ex: "?i < length es" if "value = None" using u that by (simp add: entries_unchanged_def split: if_splits)
    show ?thesis
    proof (cases "value = None \<and> length es = 2")
      case True
      with ex have i: "?i < 2" by simp
      have ee: "edit_entries es ?i k None = [es ! (?i XOR 1)]"
        using edit_pair [of es ?i k] True i by simp
      have "es ! (?i XOR 1) \<in> set es" using xor_one_less_two [OF i] True by (intro nth_mem) simp
      then have wf': "wf_trie E s P (ValueNode own h (es ! (?i XOR 1)))" using hs Ph by simp
      have g: "entry_get E x None [es ! (?i XOR 1)] = (if js_is E k x then None else entry_get E x None es)" for x
        using ed(2) [of x None] unfolding ee .
      show ?thesis using True u kh' wf' g ch
        by (simp add: upd_spec_def Let_def del: entry_get.simps wf_trie.simps)
    next
      case False
      have "2 \<le> length (edit_entries es ?i k value)"
        using ed(4) ex False l by (auto split: if_splits)
      then have wf': "wf_trie E s P (HashCollisionNode own' h (edit_entries es ?i k value))" for own'
        using ed Ph by simp
      show ?thesis using ed(2,4) wf' ex False u kh' ch
        by (auto simp: upd_spec_def Let_def editable_def)
    qed
  qed
qed

end

end
