(* ===== verification/Imm_TrieOps.thy ===== *)
theory Imm_TrieOps
  imports Imm_TrieSpec
begin

text \<open>
  The update contract for inner nodes and whole tries: the child of one hash fragment is
  replaced, then the node grows, shrinks or changes representation.
\<close>

section \<open>What the inner nodes make of an updated child\<close>

definition node_spec ::
  "('k, 'v) eqenv \<Rightarrow> nat \<Rightarrow> (int32 \<Rightarrow> bool) \<Rightarrow> (nat \<Rightarrow> ('k, 'v) trie option) \<Rightarrow> ('k, 'v) trie upd \<Rightarrow> ('k, 'v) trie upd \<Rightarrow> bool" where
  "node_spec E s P kids res r = (\<exists>t. upd_opt r = Some t \<and> wf_trie E s P t \<and> trie_entries t = kid_entries kids \<and>
     (is_this r \<longrightarrow> \<not> isLeafNode t))"

lemma node_specI:
  "upd_opt r = Some t \<Longrightarrow> wf_trie E s P t \<Longrightarrow> trie_entries t = kid_entries kids \<Longrightarrow> (is_this r \<Longrightarrow> \<not> isLeafNode t) \<Longrightarrow>
   node_spec E s P kids res r"
  by (auto simp: node_spec_def)

lemma bitmap_nodeI:
  assumes "packed_ok bm ns" "child bm ns = kids" "kids_wf E s P kids" "0 < kid_count kids" "kid_count kids \<le> 16"
    "kid_count kids = 1 \<Longrightarrow> \<forall>i<32. \<forall>c. kids i = Some c \<longrightarrow> \<not> isLeafNode c"
    "upd_opt r = Some (BitmapIndexedNode o' bm ns)"
  shows "node_spec E s P kids res r"
proof (rule node_specI [OF assms(7)])
  have len: "length ns = kid_count kids" using packed_count [OF assms(1)] assms(2) by simp
  have "\<not> isLeafNode (hd ns)" if "length ns = 1"
  proof -
    have "hd ns \<in> set ns" using that by (cases ns) auto
    with set_packed [OF assms(1)] assms(2,6) len that show ?thesis by auto
  qed
  then show "wf_trie E s P (BitmapIndexedNode o' bm ns)"
    using assms(1-5) len by (auto simp: wf_bitmap_iff simp del: wf_trie.simps)
  show "trie_entries (BitmapIndexedNode o' bm ns) = kid_entries kids"
    using bitmap_entries [OF assms(1)] assms(2) by simp
qed simp

lemma leaf_nodeI:
  assumes "kids_wf E s P kids" "kid_count kids = 1" "f < 32" "kids f = Some c" "isLeafNode c" "upd_opt r = Some c" "\<not> is_this r"
  shows "node_spec E s P kids res r"
proof (rule node_specI [OF assms(6)])
  have w: "wf_trie E (s + 5) (\<lambda>h. P h \<and> frag h s = f) c" using assms(1,3,4) by (simp add: kids_wf_def)
  show "wf_trie E s P c" by (rule wf_leaf [OF assms(5) w]) simp
  have "\<And>j. j < 32 \<Longrightarrow> j \<noteq> f \<Longrightarrow> kids j = None"
    using kid_count_one [OF assms(2,3)] assms(4) by simp
  then show "trie_entries c = kid_entries kids"
    using kid_entries_single [OF assms(3), of kids] assms(4) by simp
qed (use assms(7) in simp)

lemma hash_array_nodeI:
  assumes "length ns = 32" "\<And>i. i < 32 \<Longrightarrow> slot ns i = kids i" "kids_wf E s P kids" "cnt = kid_count kids" "8 \<le> cnt"
    "upd_opt r = Some (HashArrayMapNode o' cnt ns)"
  shows "node_spec E s P kids res r"
proof (rule node_specI [OF assms(6)])
  have "kid_count (slot ns) = kid_count kids" by (rule kid_count_cong [OF assms(2)])
  moreover have "kids_wf E s P (slot ns)" using assms(2,3) by (simp add: kids_wf_def)
  ultimately show "wf_trie E s P (HashArrayMapNode o' cnt ns)"
    using assms(1,4,5) by (simp add: wf_hash_array_iff slot_count del: wf_trie.simps not_None_eq)
  have "kid_entries (slot ns) = kid_entries kids"
    unfolding kid_entries_def using assms(2) by (intro arg_cong [where f = concat] map_cong) auto
  then show "trie_entries (HashArrayMapNode o' cnt ns) = kid_entries kids"
    using hash_array_entries [OF assms(1)] by simp
qed simp

lemma bitmap_result_spec:
  assumes kids_def: "kids = child bm nodes"
    and wf: "wf_trie E s P (BitmapIndexedNode o' bm nodes)" and f: "f < 32"
    and kids': "kids_wf E s P (kids(f := upd_opt res))"
    and thisc: "\<And>n. res = This n \<Longrightarrow> \<exists>t. kids f = Some t \<and> isLeafNode n = isLeafNode t"
    and gone: "res = Gone \<Longrightarrow> \<exists>t. kids f = Some t \<and> isLeafNode t"
  shows "node_spec E s P (kids(f := upd_opt res)) res (bitmap_result own o' bm nodes f res)"
proof -
  have ok: "packed_ok bm nodes" and ne: "nodes \<noteq> []" and le: "length nodes \<le> 16"
    and one: "length nodes = 1 \<longrightarrow> \<not> isLeafNode (hd nodes)" and kw: "kids_wf E s P kids"
    using wf by (simp_all add: wf_bitmap_iff kids_def del: wf_trie.simps)
  have len: "length nodes = kid_count kids" unfolding kids_def by (rule packed_count [OF ok])
  have pos: "0 < kid_count kids" using ne len by (cases nodes) auto
  have ex: "bm AND bitpos f \<noteq> 0 \<longleftrightarrow> bit bm f" "bit bm f \<longleftrightarrow> kids f \<noteq> None"
    using bitmap_test [OF f] child_Some [OF ok f] by (auto simp: kids_def child_def)
  have idx: "unat (popCount (bm AND (bitpos f - 1))) = rank bm f"
    using packed_index_rank [OF f] by (simp add: packed_index_def)
  have single: "\<not> isLeafNode c" if "kid_count kids = 1" "i < 32" "kids i = Some c" for i c
  proof -
    have "c \<in> set nodes" using set_packed [OF ok] that by (auto simp: kids_def)
    moreover have l1: "length nodes = 1" using that(1) len by simp
    then obtain a where "nodes = [a]" by (auto simp: length_Suc_conv)
    ultimately show ?thesis using one by simp
  qed
  note cnt = kid_count_update [OF f, of kids "upd_opt res"]
  show ?thesis
  proof (cases res)
    case (This n)
    with thisc obtain t where t: "kids f = Some t" "isLeafNode n = isLeafNode t" by blast
    have r: "bitmap_result own o' bm nodes f res = This (BitmapIndexedNode o' bm (nodes[rank bm f := n]))"
      using This idx by (simp add: bitmap_result_def Let_def)
    have c: "kid_count (kids(f := upd_opt res)) = kid_count kids"
      using cnt t This kid_count_pos [of f kids, OF f t(1)] by simp
    show ?thesis
    proof (rule bitmap_nodeI [OF _ _ kids'])
      show "packed_ok bm (nodes[rank bm f := n])" "child bm (nodes[rank bm f := n]) = kids(f := upd_opt res)"
        using child_update [OF ok f, of n] ex t This by (simp_all add: kids_def)
      assume "kid_count (kids(f := upd_opt res)) = 1"
      then show "\<forall>i<32. \<forall>c. (kids(f := upd_opt res)) i = Some c \<longrightarrow> \<not> isLeafNode c"
        using c single t f This by auto
    qed (use c len le pos r in auto)
  next
    case (New n)
    have u: "upd_opt res = Some n" by (simp add: New)
    show ?thesis
    proof (cases "bit bm f")
      case True
      then obtain t where t: "kids f = Some t" using ex by auto
      have c: "kid_count (kids(f := upd_opt res)) = kid_count kids"
        using cnt t New kid_count_pos [of f kids, OF f t] by simp
      show ?thesis
      proof (cases "length nodes = 1 \<and> isLeafNode n")
        case leaf: True
        then have "bitmap_result own o' bm nodes f res = New n"
          using New True ex by (simp add: bitmap_result_def Let_def)
        then show ?thesis using leaf len c u by (intro leaf_nodeI [OF kids' _ f, of n]) simp_all
      next
        case False
        have r: "upd_opt (bitmap_result own o' bm nodes f res) =
            Some (BitmapIndexedNode (if editable own o' then o' else own) bm (nodes[rank bm f := n]))"
          using New True ex idx False by (auto simp: bitmap_result_def Let_def setIn_def)
        show ?thesis
        proof (rule bitmap_nodeI [OF _ _ kids' _ _ _ r])
          show "packed_ok bm (nodes[rank bm f := n])" "child bm (nodes[rank bm f := n]) = kids(f := upd_opt res)"
            using child_update [OF ok f True, of n] u by (simp_all add: kids_def)
          assume one': "kid_count (kids(f := upd_opt res)) = 1"
          then have "\<not> isLeafNode n" using False c len by simp
          moreover have "i < 32 \<Longrightarrow> i \<noteq> f \<Longrightarrow> kids i = None" for i
            using kid_count_one [of kids f i] one' c f t by simp
          ultimately show "\<forall>i<32. \<forall>c. (kids(f := upd_opt res)) i = Some c \<longrightarrow> \<not> isLeafNode c"
            using u by auto
        qed (use c len le pos in auto)
      qed
    next
      case False
      then have t: "kids f = None" using ex by auto
      have c: "kid_count (kids(f := upd_opt res)) = Suc (length nodes)" using cnt t New len by simp
      show ?thesis
      proof (cases "length nodes \<ge> 16")
        case True
        obtain ns where ns: "expandNodes own nodes bm f n = HashArrayMapNode own (length nodes + 1) ns"
          "length ns = 32" "\<And>i. i < 32 \<Longrightarrow> slot ns i = ((child bm nodes)(f := Some n)) i"
          using expandNodes_spec [OF ok f] by metis
        have r: "upd_opt (bitmap_result own o' bm nodes f res) = Some (HashArrayMapNode own (length nodes + 1) ns)"
          using New False ex True ns(1) by (simp add: bitmap_result_def Let_def MAX_BITMAP_INDEXED_SIZE_def)
        show ?thesis
          by (rule hash_array_nodeI [OF ns(2) _ kids' _ _ r]) (use ns(3) u c True in \<open>auto simp: kids_def\<close>)
      next
        case small: False
        have sp: "spliceIn nodes (rank bm f) n e = insert_at nodes (rank bm f) n" for e
          using ok rank_mono [of f 32 bm] f by (intro spliceIn_eq) (simp add: packed_ok_def)
        have r: "upd_opt (bitmap_result own o' bm nodes f res) =
            Some (BitmapIndexedNode (if editable own o' then o' else own) (bm OR bitpos f) (insert_at nodes (rank bm f) n))"
          using New False ex idx small sp by (auto simp: bitmap_result_def Let_def MAX_BITMAP_INDEXED_SIZE_def)
        show ?thesis
          by (rule bitmap_nodeI [OF child_splice_in(1) [OF ok f False, of n] _ kids' _ _ _ r])
            (use child_splice_in(2) [OF ok f False, of n] u c ne small in \<open>auto simp: kids_def\<close>)
      qed
    qed
  next
    case Gone
    with gone obtain t where t: "kids f = Some t" "isLeafNode t" by blast
    then have b: "bit bm f" using ex by simp
    have c: "kid_count (kids(f := upd_opt res)) = length nodes - 1" using cnt t Gone len by simp
    have two: "2 \<le> length nodes"
      using single [OF _ f t(1)] t(2) len ne by (cases nodes; cases "tl nodes") auto
    let ?k = "rank bm f XOR 1"
    have other: "\<exists>i<32. i \<noteq> f \<and> kids i = Some (nodes ! ?k)" if "length nodes = 2"
    proof -
      have lt: "rank bm f < 2" using packed_in_range [OF ok f b] that by simp
      have "?k \<noteq> rank bm f" by (metis bit.xor_compl_right bit_0 bit_xor_iff even_xor_iff odd_one)
      moreover have "?k < rank bm 32" using xor_one_less_two [OF lt] ok that by (simp add: packed_ok_def)
      ultimately obtain i where "i < 32" "bit bm i" "rank bm i = ?k" "i \<noteq> f" using rank_onto by metis
      then show ?thesis using child_Some [OF ok, of i] by (auto simp: kids_def)
    qed
    show ?thesis
    proof (cases "length nodes = 2 \<and> isLeafNode (nodes ! ?k)")
      case True
      obtain i where i: "i < 32" "i \<noteq> f" "kids i = Some (nodes ! ?k)" using other True by blast
      have "bitmap_result own o' bm nodes f res = New (nodes ! ?k)"
        using Gone True b ex idx by (simp add: bitmap_result_def Let_def)
      then show ?thesis using True c i Gone by (intro leaf_nodeI [OF kids' _ i(1), of "nodes ! ?k"]) simp_all
    next
      case False
      have r: "upd_opt (bitmap_result own o' bm nodes f res) =
            Some (BitmapIndexedNode (if editable own o' then o' else own) (bm XOR bitpos f) (delete_at nodes (rank bm f)))"
        using Gone b ex idx False spliceOut_eq [OF packed_in_range [OF ok f b]]
        by (auto simp: bitmap_result_def Let_def)
      show ?thesis
      proof (rule bitmap_nodeI [OF child_splice_out(1) [OF ok f b] _ kids' _ _ _ r])
        show "child (bm XOR bitpos f) (delete_at nodes (rank bm f)) = kids(f := upd_opt res)"
          using child_splice_out(2) [OF ok f b] Gone by (simp add: kids_def)
        assume one': "kid_count (kids(f := upd_opt res)) = 1"
        then have l2: "length nodes = 2" using c two by simp
        then obtain i where i: "i < 32" "i \<noteq> f" "kids i = Some (nodes ! ?k)" using other by blast
        have "\<not> isLeafNode (nodes ! ?k)" using False l2 by simp
        moreover have "j < 32 \<Longrightarrow> j \<noteq> i \<Longrightarrow> (kids(f := upd_opt res)) j = None" for j
          using kid_count_one [OF one' i(1), of j] i by simp
        ultimately show "\<forall>i<32. \<forall>c. (kids(f := upd_opt res)) i = Some c \<longrightarrow> \<not> isLeafNode c"
          using i by (metis fun_upd_apply option.distinct(1) option.inject)
      qed (use c le two in auto)
    qed
  qed
qed

lemma hash_array_result_spec:
  assumes kids_def: "kids = slot nodes"
    and wf: "wf_trie E s P (HashArrayMapNode o' cnt nodes)" and f: "f < 32"
    and kids': "kids_wf E s P (kids(f := upd_opt res))"
    and thisc: "\<And>n. res = This n \<Longrightarrow> \<exists>t. kids f = Some t"
    and gone: "res = Gone \<Longrightarrow> \<exists>t. kids f = Some t"
  shows "node_spec E s P (kids(f := upd_opt res)) res (hash_array_result own o' cnt nodes f res)"
proof -
  have len: "length nodes = 32" and c0: "cnt = kid_count kids" and c8: "8 \<le> cnt"
    using wf slot_count [of nodes] by (simp_all add: wf_hash_array_iff kids_def del: wf_trie.simps)
  have node: "(case nth_opt nodes f of Some (Some n) \<Rightarrow> Some n | _ \<Rightarrow> None) = kids f"
    by (simp add: kids_def slot_def split: option.splits)
  have upd: "slot (nodes[f := x]) = kids(f := x)" for x
    using slot_update [of f nodes x] len f by (simp add: kids_def)
  let ?c = "if kids f = None then cnt + 1 else if upd_opt res = None then cnt - 1 else cnt"
  have c: "kid_count (kids(f := upd_opt res)) = ?c"
    using kid_count_update [OF f, of kids "upd_opt res"] c0 c8 gone by (cases res) auto
  show ?thesis
  proof (cases "kids f \<noteq> None \<and> upd_opt res = None \<and> ?c < 8")
    case True
    then have g: "res = Gone" by (cases res) auto
    obtain bm ns where p: "packNodes own nodes ?c f = BitmapIndexedNode own bm ns" "packed_ok bm ns" "child bm ns = kids(f := None)"
      using packNodes_spec [OF len] unfolding kids_def by metis
    have "hash_array_result own o' cnt nodes f res = New (packNodes own nodes ?c f)"
      unfolding hash_array_result_def Let_def node using True unfolding g by (simp add: MIN_HASH_ARRAY_MAP_SIZE_def)
    then have r: "upd_opt (hash_array_result own o' cnt nodes f res) = Some (BitmapIndexedNode own bm ns)" using p(1) by simp
    show ?thesis
      by (rule bitmap_nodeI [OF p(2) _ kids' _ _ _ r]) (use p(3) g c c8 True in auto)
  next
    case False
    have r: "upd_opt (hash_array_result own o' cnt nodes f res) =
      Some (HashArrayMapNode (if is_this res \<or> editable own o' then o' else own) ?c (nodes[f := upd_opt res]))"
      using False thisc by (cases res) (auto simp: hash_array_result_def Let_def node setIn_def MIN_HASH_ARRAY_MAP_SIZE_def)
    show ?thesis
      by (rule hash_array_nodeI [OF _ _ kids' _ _ r]) (use upd len c c8 False in auto)
  qed
qed

end
