(* ===== verification/Imm_RootSpec.thy ===== *)
theory Imm_RootSpec
  imports Imm_TrieOps
begin

text \<open>
  The update contract for whole tries and for the root of a map: \<open>trie_update\<close> by induction over
  the trie, \<open>createNodes\<close> and \<open>root_update\<close> on top of it.
\<close>

definition root_entries :: "('k, 'v) root \<Rightarrow> ('k \<times> 'v) list" where
  "root_entries r = (case r of ArrayMapNode _ es \<Rightarrow> es | Trie t \<Rightarrow> trie_entries t)"

lemma root_entries_simps [simp]:
  "root_entries (ArrayMapNode o' es) = es" "root_entries (Trie t) = trie_entries t"
  by (simp_all add: root_entries_def)

definition wf_root :: "('k, 'v) eqenv \<Rightarrow> ('k, 'v) root \<Rightarrow> bool" where
  "wf_root E r = (case r of
     ArrayMapNode _ es \<Rightarrow> es \<noteq> [] \<and> length es \<le> MAX_ARRAY_MAP_SIZE \<and> distinct_keys E es
   | Trie t \<Rightarrow> wf_trie E 0 (\<lambda>_. True) t)"

lemma wf_root_simps [simp]:
  "wf_root E (ArrayMapNode o' es) \<longleftrightarrow> es \<noteq> [] \<and> length es \<le> 8 \<and> distinct_keys E es"
  "wf_root E (Trie t) \<longleftrightarrow> wf_trie E 0 (\<lambda>_. True) t"
  by (simp_all add: wf_root_def MAX_ARRAY_MAP_SIZE_def)

text \<open>The lookup function that an optional root denotes.\<close>

definition opt_root_entries :: "('k, 'v) root option \<Rightarrow> ('k \<times> 'v) list" where
  "opt_root_entries r = (case r of None \<Rightarrow> [] | Some r \<Rightarrow> root_entries r)"

lemma opt_root_entries_simps [simp]:
  "opt_root_entries None = []" "opt_root_entries (Some r) = root_entries r"
  by (simp_all add: opt_root_entries_def)

lemma wf_trie_nonempty: "wf_trie E s P t \<Longrightarrow> trie_entries t \<noteq> []"
proof (induction rule: wf_trie_induct)
  case (inner s P t kids)
  then obtain i c where i: "i < 32" "kids i = Some c" by blast
  with inner.IH have "trie_entries c \<noteq> []" by blast
  moreover have "set (trie_entries c) \<subseteq> set (kid_entries kids)" using i by (auto simp: set_kid_entries)
  ultimately show ?case using inner.hyps by (metis set_empty subset_empty)
next
  case (leaf s P t)
  then show ?case by (cases t) auto
qed

context key_equality
begin

lemma kids_upd:
  assumes kw: "kids_wf E s P kids" and f: "f = frag (js_hash E k) s"
    and us: "upd_spec E own (s + 5) (\<lambda>h. P h \<and> frag h s = f) (kids f) k value (res, chg, alt)"
  shows "kids_wf E s P (kids(f := upd_opt res))"
    and "entry_get E x None (kid_entries (kids(f := upd_opt res))) =
         (if js_is E k x then value else entry_get E x None (kid_entries kids))"
    and "int (length (kid_entries (kids(f := upd_opt res)))) =
         int (length (kid_entries kids)) + (if \<not> chg then 0 else if value = None then -1 else 1)"
proof -
  show w: "kids_wf E s P (kids(f := upd_opt res))"
    using us by (intro kids_wf_update [OF kw]) (simp add: upd_spec_def)
  have g: "entry_get E x None (opt_entries (upd_opt res)) = (if js_is E k x then value else entry_get E x None (opt_entries (kids f)))"
    using us by (simp add: upd_spec_def)
  have oe: "entry_get E x None (opt_entries c) = (case c of None \<Rightarrow> None | Some t \<Rightarrow> entry_get E x None (trie_entries t))" for c
    by (cases c) auto
  show "entry_get E x None (kid_entries (kids(f := upd_opt res))) =
         (if js_is E k x then value else entry_get E x None (kid_entries kids))"
    unfolding kids_get [OF w] kids_get [OF kw] oe [symmetric]
    using g is_hash [of k x] f by auto
  have "f < 32" by (simp add: f)
  from kid_entries_update [OF this, of kids "upd_opt res"] us
  show "int (length (kid_entries (kids(f := upd_opt res)))) =
         int (length (kid_entries kids)) + (if \<not> chg then 0 else if value = None then -1 else 1)"
    by (simp add: upd_spec_def)
qed

lemma new_value_node_spec:
  "P (js_hash E k) \<Longrightarrow> upd_spec E own s P None k value (new_value_node own (js_hash E k) k value)"
  using is_sym by (cases "value") (auto simp: upd_spec_def new_value_node_def)

lemma unchanged_spec:
  "wf_trie E s P t \<Longrightarrow> entry_get E k None (trie_entries t) = None \<Longrightarrow>
   upd_spec E own s P (Some t) k None (This t, False, False)"
  using entry_get_cong by (auto simp: upd_spec_def)

lemma inner_upd_spec:
  assumes t: "\<not> isLeafNode t" "trie_entries t = kid_entries kids" "kids_wf E s P kids"
    and f: "f = frag (js_hash E k) s"
    and us: "upd_spec E own (s + 5) (\<lambda>h. P h \<and> frag h s = f) (kids f) k value (res, chg, alt)"
    and ns: "node_spec E s P (kids(f := upd_opt res)) res r"
    and same: "\<not> alt \<Longrightarrow> r = This t" and fresh: "own = None \<Longrightarrow> alt \<Longrightarrow> \<not> is_this r"
  shows "upd_spec E own s P (Some t) k value (r, chg, alt)"
proof -
  obtain t' where t': "upd_opt r = Some t'" "wf_trie E s P t'" "trie_entries t' = kid_entries (kids(f := upd_opt res))"
    "is_this r \<Longrightarrow> \<not> isLeafNode t'"
    using ns by (auto simp: node_spec_def)
  have get: "entry_get E k None (kid_entries kids) = entry_get E k None (opt_entries (kids f))"
    unfolding kids_get [OF t(3)] f [symmetric] by (cases "kids f") auto
  have noop: "entry_get E k None (opt_entries (kids f)) = value \<longrightarrow> (\<forall>x. value = Some x \<longrightarrow> js_same E x x) \<longrightarrow> \<not> alt"
    using us by (simp add: upd_spec_def)
  have c: "\<not> alt \<longrightarrow> \<not> chg" using us by (simp add: upd_spec_def)
  have r: "r \<noteq> Gone" "\<And>n. r = This n \<Longrightarrow> n = t'" using t'(1) by auto
  have eq: "\<not> alt \<Longrightarrow> t' = t" using same t'(1) by simp
  have leaf: "\<forall>n. r = This n \<longrightarrow> isLeafNode n = isLeafNode t" using r(2) t'(4) t(1) by auto
  show ?thesis
    unfolding upd_spec_def prod.case t'(1) opt_entries_simps t'(3) t(2)
    using t'(2) kids_upd(2,3) [OF t(3) f us] c r(1) leaf same eq fresh noop unfolding get by simp
qed

lemma trie_update_spec:
  assumes "wf_trie E s P t" "P (js_hash E k)" "kh = None \<or> kh = Some (js_hash E k)"
  shows "upd_spec E own s P (Some t) k value (trie_update E own s kh k value t)"
  using assms
proof (induction t arbitrary: s P kh rule: measure_induct_rule [of size])
  case (less t)
  have h: "key_hash E kh k = js_hash E k" using less.prems(3) by (auto simp: key_hash_def)
  let ?f = "frag (js_hash E k) s" and ?h = "js_hash E k"
  let ?P = "\<lambda>h. P h \<and> frag h s = ?f"
  show ?case
  proof (cases t)
    case (BitmapIndexedNode o' bm nodes)
    let ?kids = "child bm nodes"
    have wf: "packed_ok bm nodes" "kids_wf E s P ?kids"
      using less.prems(1) by (simp_all add: BitmapIndexedNode wf_bitmap_iff del: wf_trie.simps)
    have te: "trie_entries t = kid_entries ?kids"
      unfolding BitmapIndexedNode by (rule bitmap_entries [OF wf(1)])
    have ex: "bm AND bitpos ?f \<noteq> 0 \<longleftrightarrow> bit bm ?f" "bit bm ?f \<longleftrightarrow> ?kids ?f \<noteq> None"
      using bitmap_test [of ?f bm] child_Some [OF wf(1), of ?f] by (auto simp: child_def)
    have idx: "unat (popCount (bm AND (bitpos ?f - 1))) = rank bm ?f"
      using packed_index_rank [of ?f bm] by (simp add: packed_index_def)
    have kid: "(if bm AND bitpos ?f \<noteq> 0 then nth_opt nodes (unat (popCount (bm AND (bitpos ?f - 1)))) else None) = ?kids ?f"
      by (simp add: bitmap_test idx child_def)
    show ?thesis
    proof (cases "?kids ?f = None \<and> value = None")
      case True
      then have "trie_update E own s kh k value t = (This t, False, False)"
        using ex h by (simp add: BitmapIndexedNode Let_def)
      moreover have "entry_get E k None (trie_entries t) = None"
        unfolding te kids_get [OF wf(2)] using True by simp
      ultimately show ?thesis using True unchanged_spec [OF less.prems(1)] by simp
    next
      case False
      let ?r = "case ?kids ?f of None \<Rightarrow> new_value_node own ?h k value
                | Some node \<Rightarrow> trie_update E own (s + 5) (Some ?h) k value node"
      obtain res chg alt where r: "?r = (res, chg, alt)" by (metis prod_cases3)
      have upd: "trie_update E own s kh k value t = (bitmap_result own o' bm nodes ?f res, chg, alt)"
        using False ex r unfolding BitmapIndexedNode trie_update.simps Let_def h kid SHIFT_def
        by (auto split: option.splits)
      have us: "upd_spec E own (s + 5) ?P (?kids ?f) k value (res, chg, alt)"
      proof (cases "?kids ?f")
        case None
        then show ?thesis using r new_value_node_spec [of ?P k own "s + 5" "value"] less.prems(2) by simp
      next
        case (Some c)
        have "size c < size t" using child_size [OF Some] BitmapIndexedNode by simp
        moreover have "wf_trie E (s + 5) ?P c" using wf(2) Some by (simp add: kids_wf_def)
        ultimately show ?thesis using less.IH [of c "s + 5" ?P "Some ?h"] r Some less.prems(2) by simp
      qed
      show ?thesis unfolding upd
      proof (rule inner_upd_spec [OF _ te wf(2) refl us])
        show "node_spec E s P (?kids(?f := upd_opt res)) res (bitmap_result own o' bm nodes ?f res)"
        proof (rule bitmap_result_spec [OF refl less.prems(1) [unfolded BitmapIndexedNode] frag_less kids_upd(1) [OF wf(2) refl us]])
          fix n assume "res = This n"
          then show "\<exists>t. ?kids ?f = Some t \<and> isLeafNode n = isLeafNode t" using us by (simp add: upd_spec_def)
        next
          assume "res = Gone"
          then show "\<exists>t. ?kids ?f = Some t \<and> isLeafNode t" using us False by (auto simp: upd_spec_def)
        qed
        show "bitmap_result own o' bm nodes ?f res = This t" if "\<not> alt"
        proof -
          have "?kids ?f \<noteq> None" using that r False by (auto simp: new_value_node_def split: option.splits)
          moreover have "upd_opt res = ?kids ?f" "?kids ?f = None \<or> is_this res" using us that by (simp_all add: upd_spec_def)
          ultimately obtain c where c: "res = This c" "?kids ?f = Some c" by (cases res) auto
          then have "nodes[rank bm ?f := c] = nodes" by (auto simp: child_def nth_opt_eq_Some split: if_splits)
          then show ?thesis using c idx by (simp add: bitmap_result_def Let_def BitmapIndexedNode)
        qed
        show "\<not> is_this (bitmap_result own o' bm nodes ?f res)" if "own = None" "alt"
          using us that by (cases res) (auto simp: upd_spec_def bitmap_result_def Let_def editable_def)
      qed (simp add: BitmapIndexedNode)
    qed
  next
    case (HashArrayMapNode o' cnt nodes)
    let ?kids = "slot nodes"
    have wf: "length nodes = 32" "kids_wf E s P ?kids"
      using less.prems(1) by (simp_all add: HashArrayMapNode wf_hash_array_iff del: wf_trie.simps)
    have te: "trie_entries t = kid_entries ?kids"
      unfolding HashArrayMapNode by (rule hash_array_entries [OF wf(1)])
    have kid: "nth_opt nodes ?f = Some (?kids ?f)" using wf(1) by (simp add: slot_def)
    show ?thesis
    proof (cases "?kids ?f = None \<and> value = None")
      case True
      then have "trie_update E own s kh k value t = (This t, False, False)"
        using kid h by (simp add: HashArrayMapNode Let_def)
      moreover have "entry_get E k None (trie_entries t) = None"
        unfolding te kids_get [OF wf(2)] using True by simp
      ultimately show ?thesis using True unchanged_spec [OF less.prems(1)] by simp
    next
      case False
      let ?r = "case ?kids ?f of None \<Rightarrow> new_value_node own ?h k value
                | Some node \<Rightarrow> trie_update E own (s + 5) (Some ?h) k value node"
      obtain res chg alt where r: "?r = (res, chg, alt)" by (metis prod_cases3)
      have upd: "trie_update E own s kh k value t = (hash_array_result own o' cnt nodes ?f res, chg, alt)"
        using False r unfolding HashArrayMapNode trie_update.simps Let_def h kid SHIFT_def
        by (auto split: option.splits)
      have us: "upd_spec E own (s + 5) ?P (?kids ?f) k value (res, chg, alt)"
      proof (cases "?kids ?f")
        case None
        then show ?thesis using r new_value_node_spec [of ?P k own "s + 5" "value"] less.prems(2) by simp
      next
        case (Some c)
        have "size c < size t" using nth_opt_size_option [of nodes ?f c size] Some HashArrayMapNode by (simp add: slot_Some)
        moreover have "wf_trie E (s + 5) ?P c" using wf(2) Some by (simp add: kids_wf_def)
        ultimately show ?thesis using less.IH [of c "s + 5" ?P "Some ?h"] r Some less.prems(2) by simp
      qed
      show ?thesis unfolding upd
      proof (rule inner_upd_spec [OF _ te wf(2) refl us])
        show "node_spec E s P (?kids(?f := upd_opt res)) res (hash_array_result own o' cnt nodes ?f res)"
          by (rule hash_array_result_spec [OF refl less.prems(1) [unfolded HashArrayMapNode] frag_less kids_upd(1) [OF wf(2) refl us]])
            (use us False in \<open>auto simp: upd_spec_def\<close>)
        show "hash_array_result own o' cnt nodes ?f res = This t" if "\<not> alt"
        proof -
          have "?kids ?f \<noteq> None" using that r False by (auto simp: new_value_node_def split: option.splits)
          moreover have "upd_opt res = ?kids ?f" "?kids ?f = None \<or> is_this res" using us that by (simp_all add: upd_spec_def)
          ultimately obtain c where c: "res = This c" "?kids ?f = Some c" by (cases res) auto
          then have "nodes[?f := Some c] = nodes" by (metis kid list_update_id nth_opt_eq_Some)
          then show ?thesis using c by (simp add: hash_array_result_def Let_def HashArrayMapNode)
        qed
        show "\<not> is_this (hash_array_result own o' cnt nodes ?f res)" if "own = None" "alt"
          using us that by (cases res) (auto simp: upd_spec_def hash_array_result_def Let_def editable_def)
      qed (simp add: HashArrayMapNode)
    qed
  next
    case (HashCollisionNode o' ch es)
    show ?thesis unfolding HashCollisionNode trie_update.simps
      by (rule collision_update_spec) (use less.prems HashCollisionNode in simp_all)
  next
    case (ValueNode o' vh e)
    show ?thesis unfolding ValueNode trie_update.simps
      by (rule value_update_spec) (use less.prems ValueNode in simp_all)
  qed
qed

text \<open>Lists of different keys with the same lookups have the same length.\<close>

lemma lookup_length_le:
  "distinct_keys E es \<Longrightarrow> (\<And>x. entry_get E x None es \<noteq> None \<Longrightarrow> entry_get E x None es' \<noteq> None) \<Longrightarrow> length es \<le> length es'"
proof (induction es arbitrary: es')
  case (Cons e es)
  have "entry_get E (fst e) None es' \<noteq> None" using Cons.prems(2) [of "fst e"] by simp
  then obtain i where i: "i < length es'" "js_is E (fst e) (fst (es' ! i))"
    by (auto simp: entry_get_None_iff in_set_conv_nth)
  have "entry_get E x None (swap_out es' i) \<noteq> None" if x: "entry_get E x None es \<noteq> None" for x
  proof -
    obtain e1 where e1: "e1 \<in> set es" "js_is E x (fst e1)" using x by (auto simp: entry_get_None_iff)
    then have ne: "\<not> js_is E x (fst e)" using Cons.prems(1) is_sym is_trans by (metis distinct_keys.simps(2))
    then have "entry_get E x None es' \<noteq> None" using Cons.prems(2) [of x] x by simp
    then obtain e2 where e2: "e2 \<in> set es'" "js_is E x (fst e2)" by (auto simp: entry_get_None_iff)
    with ne i have "e2 \<noteq> es' ! i" using is_sym is_trans by blast
    with e2 have "e2 \<in> set (swap_out es' i)"
      using mset_swap_out [OF i(1)] by (metis insert_iff set_mset_add_mset_insert set_mset_mset)
    with e2 show ?thesis by (auto simp: entry_get_None_iff)
  qed
  from Cons.IH [OF _ this] Cons.prems(1) have "length es \<le> length (swap_out es' i)" by simp
  with i show ?case by simp
qed simp

lemma lookup_length:
  "distinct_keys E es \<Longrightarrow> distinct_keys E es' \<Longrightarrow> (\<And>x. entry_get E x None es = entry_get E x None es') \<Longrightarrow> length es = length es'"
  by (intro antisym lookup_length_le) auto

lemma insert_length:
  assumes "distinct_keys E es" "distinct_keys E es'"
    "\<And>x. entry_get E x None es' = (if js_is E k x then Some v else entry_get E x None es)"
  shows "length es' = length es + (if entry_get E k None es = None then 1 else 0)"
proof -
  let ?i = "index_where (\<lambda>e. js_is E k (fst e)) es"
  have "length es' = length (edit_entries es ?i k (Some v))"
    using edit_entries_spec [OF assms(1), where k = k] assms(2,3) by (intro lookup_length) auto
  then show ?thesis using entry_get_index [of k es] by (auto simp: edit_entries_def split: if_splits)
qed

lemma insert_all_spec:
  fixes own :: owner
  assumes "wf_trie E 0 (\<lambda>_. True) t" "distinct_keys E es"
    "\<forall>e \<in> set es. \<forall>e' \<in> set (trie_entries t). \<not> js_is E (fst e) (fst e')"
    and step_def: "step = (\<lambda>node e. upd_default node (fst (trie_update E own 0 None (fst e) (Some (snd e)) node)))"
  shows "wf_trie E 0 (\<lambda>_. True) (foldl step t es) \<and>
    (\<forall>x. entry_get E x None (trie_entries (foldl step t es)) = entry_get E x (entry_get E x None (trie_entries t)) es) \<and>
    length (trie_entries (foldl step t es)) = length (trie_entries t) + length es"
  using assms(1-3)
proof (induction es arbitrary: t)
  case (Cons e es)
  obtain res chg alt where r: "trie_update E own 0 None (fst e) (Some (snd e)) t = (res, chg, alt)" by (metis prod_cases3)
  have us: "upd_spec E own 0 (\<lambda>_. True) (Some t) (fst e) (Some (snd e)) (res, chg, alt)"
    using trie_update_spec [OF Cons.prems(1), where k = "fst e" and own = own and kh = None] by (metis r)
  then obtain t' where t': "upd_opt res = Some t'" "step t e = t'"
    by (cases res) (auto simp: upd_spec_def step_def r)
  have wf': "wf_trie E 0 (\<lambda>_. True) t'" using us t' by (simp add: upd_spec_def)
  have g: "entry_get E x None (trie_entries t') = (if js_is E (fst e) x then Some (snd e) else entry_get E x None (trie_entries t))" for x
    using us t' by (simp add: upd_spec_def)
  have old: "entry_get E (fst e) None (trie_entries t) = None" using Cons.prems(3) by (simp add: entry_get_None_iff)
  have len: "length (trie_entries t') = Suc (length (trie_entries t))"
    using insert_length [OF wf_distinct [OF Cons.prems(1)] wf_distinct [OF wf'] g] old by simp
  have miss: "\<forall>e1 \<in> set es. \<forall>e' \<in> set (trie_entries t'). \<not> js_is E (fst e1) (fst e')"
  proof (intro ballI notI)
    fix e1 e' assume e1: "e1 \<in> set es" "e' \<in> set (trie_entries t')" "js_is E (fst e1) (fst e')"
    then have "entry_get E (fst e1) None (trie_entries t') \<noteq> None" by (auto simp: entry_get_None_iff)
    moreover have "\<not> js_is E (fst e) (fst e1)" using Cons.prems(2) e1 by simp
    ultimately have "entry_get E (fst e1) None (trie_entries t) \<noteq> None" by (simp add: g)
    then show False using Cons.prems(3) e1 by (auto simp: entry_get_None_iff)
  qed
  have d: "distinct_keys E es" using Cons.prems(2) by simp
  from Cons.IH [OF wf' d miss]
  have "\<forall>x. entry_get E x None (trie_entries (foldl step t (e # es))) = entry_get E x (entry_get E x None (trie_entries t)) (e # es)"
  proof (intro allI)
    fix x
    show "entry_get E x None (trie_entries (foldl step t (e # es))) = entry_get E x (entry_get E x None (trie_entries t)) (e # es)"
    proof (cases "js_is E x (fst e)")
      case True
      then have "\<forall>e' \<in> set es. \<not> js_is E x (fst e')" using Cons.prems(2) is_iff by auto
      with Cons.IH [OF wf' d miss] True show ?thesis by (simp add: t' g entry_get_miss is_sym)
    next
      case False
      then have "\<not> js_is E (fst e) x" using is_sym by blast
      with Cons.IH [OF wf' d miss] False show ?thesis by (simp add: t' g)
    qed
  qed
  with Cons.IH [OF wf' d miss] len show ?case by (simp add: t')
qed simp

lemma createNodes_spec:
  assumes "distinct_keys E es" "\<forall>e \<in> set es. \<not> js_is E k (fst e)"
  shows "wf_trie E 0 (\<lambda>_. True) (createNodes E own fresh es k v)"
    and "entry_get E x None (trie_entries (createNodes E own fresh es k v)) =
         (if js_is E k x then Some v else entry_get E x None es)"
    and "length (trie_entries (createNodes E own fresh es k v)) = Suc (length es)"
proof -
  let ?own = "case own of None \<Rightarrow> Some fresh | Some _ \<Rightarrow> own"
  let ?t = "ValueNode ?own (js_hash E k) (k, v)"
  have "\<forall>e \<in> set es. \<forall>e' \<in> set (trie_entries ?t). \<not> js_is E (fst e) (fst e')" using assms(2) is_sym by auto
  note * = insert_all_spec [of ?t, OF _ assms(1) this refl, of ?own]
  from * show "wf_trie E 0 (\<lambda>_. True) (createNodes E own fresh es k v)"
    "length (trie_entries (createNodes E own fresh es k v)) = Suc (length es)"
    by (simp_all add: createNodes_def Let_def)
  have miss: "entry_get E x ns es = ns" if "js_is E k x" for ns
    using assms(2) that is_iff by (intro entry_get_miss) blast
  from * have "entry_get E x None (trie_entries (createNodes E own fresh es k v)) =
     entry_get E x (if js_is E x k then Some v else None) es"
    by (simp add: createNodes_def Let_def)
  then show "entry_get E x None (trie_entries (createNodes E own fresh es k v)) =
     (if js_is E k x then Some v else entry_get E x None es)"
    using miss is_sym by auto
qed

section \<open>The root\<close>

definition root_upd_spec ::
  "owner \<Rightarrow> ('k, 'v) root \<Rightarrow> 'k \<Rightarrow> 'v option \<Rightarrow> ('k, 'v) root upd \<times> bool \<times> bool \<Rightarrow> bool" where
  "root_upd_spec own r0 key value r = (case r of (res, chg, alt) \<Rightarrow>
     (\<forall>t. upd_opt res = Some t \<longrightarrow> wf_root E t) \<and>
     (\<forall>x. entry_get E x None (opt_root_entries (upd_opt res)) =
        (if js_is E key x then value else entry_get E x None (root_entries r0))) \<and>
     int (length (opt_root_entries (upd_opt res))) =
       int (length (root_entries r0)) + (if \<not> chg then 0 else if value = None then -1 else 1) \<and>
     (\<not> alt \<longrightarrow> \<not> chg \<and> res = This r0) \<and>
     (own = None \<longrightarrow> alt \<longrightarrow> \<not> is_this res) \<and>
     (entry_get E key None (root_entries r0) = value \<longrightarrow> (\<forall>x. value = Some x \<longrightarrow> js_same E x x) \<longrightarrow> \<not> alt))"

lemma root_update_spec:
  assumes wf: "wf_root E r0"
  shows "root_upd_spec own r0 k value (root_update E own fresh k value r0)"
proof (cases r0)
  case (ArrayMapNode o' es)
  let ?i = "index_where (\<lambda>e. js_is E k (fst e)) es"
  have d: "distinct_keys E es" and l: "es \<noteq> []" "length es \<le> 8" using wf by (simp_all add: ArrayMapNode)
  note ed = edit_entries_spec [OF d, where k = k] edit_entries_length [of es ?i k "value"]
  show ?thesis
  proof (cases "entries_unchanged E es ?i value")
    case u: True
    then show ?thesis using wf entries_unchanged_spec [OF d u] by (simp add: root_upd_spec_def Let_def ArrayMapNode)
  next
    case u: False
    note ch = entries_changed_spec [OF u]
    have ex: "?i < length es" if "value = None" using u that by (simp add: entries_unchanged_def split: if_splits)
    show ?thesis
    proof (cases "value = None \<and> length es = 1")
      case True
      then have "edit_entries es ?i k None = []"
        using ed(3) ex by (simp split: if_splits)
      with ed(2) [of _ None] have g: "\<not> js_is E k x \<Longrightarrow> entry_get E x None es = None" for x
        by (metis entry_get.simps(1))
      from True u g ch show ?thesis
        by (simp add: root_upd_spec_def Let_def ArrayMapNode split: if_splits)
    next
      case n1: False
      show ?thesis
      proof (cases "\<not> ?i < length es \<and> value \<noteq> None \<and> length es \<ge> 8")
        case True
        then obtain v where v: "value = Some v" by auto
        have no: "\<forall>e \<in> set es. \<not> js_is E k (fst e)"
          using True index_where_less_iff [of "\<lambda>e. js_is E k (fst e)" es] by auto
        show ?thesis using True u v ch createNodes_spec [OF d no, where own = own and fresh = fresh and v = v]
          by (simp add: root_upd_spec_def Let_def ArrayMapNode MAX_ARRAY_MAP_SIZE_def)
      next
        case False
        have "0 < length (edit_entries es ?i k value)" "length (edit_entries es ?i k value) \<le> 8"
          using ed(3) ex False n1 l by (cases "value"; cases es; auto split: if_splits)+
        then have len: "edit_entries es ?i k value \<noteq> []" "length (edit_entries es ?i k value) \<le> 8" by auto
        show ?thesis using ed ex False n1 u len ch
          by (auto simp: root_upd_spec_def Let_def ArrayMapNode MAX_ARRAY_MAP_SIZE_def editable_def)
      qed
    qed
  qed
next
  case (Trie t)
  obtain res chg alt where r: "trie_update E own 0 None k value t = (res, chg, alt)" by (metis prod_cases3)
  have us: "upd_spec E own 0 (\<lambda>_. True) (Some t) k value (res, chg, alt)"
    using trie_update_spec [of 0 "\<lambda>_. True" t k None own "value"] r wf Trie by simp
  have ru: "root_update E own fresh k value r0 =
      (case res of Gone \<Rightarrow> Gone | This n \<Rightarrow> This (Trie n) | New n \<Rightarrow> New (Trie n), chg, alt)"
    by (simp add: Trie r)
  show ?thesis
    unfolding ru using us by (cases res) (auto simp: root_upd_spec_def upd_spec_def Trie split: if_splits)
qed

end

end
