(* ===== verification/Imm_Map.thy ===== *)
theory Imm_Map
  imports Imm_RootSpec
begin

text \<open>
  The class \<open>Map\<close> of \<open>static/drf-yasg/immutable.js\<close>: construction, access, modification,
  transient mutability (\<open>withMutations\<close>, owners), iteration with a callback, and merging. A map
  object is a record with the fields of \<open>makeMap\<close>; a method that may return its receiver yields
  an \<open>upd\<close>. Calls of \<open>new OwnerID()\<close> take the new token as an argument, \<open>fresh\<close>.
\<close>

record ('k, 'v) imap =
  map_size :: int
  map_root :: "('k, 'v) root option"
  map_owner :: owner
  map_hash :: "int32 option"
  map_altered :: bool

definition makeMap :: "int \<Rightarrow> ('k, 'v) root option \<Rightarrow> owner \<Rightarrow> int32 option \<Rightarrow> ('k, 'v) imap" where
  "makeMap sz root own hash =
     \<lparr>map_size = sz, map_root = root, map_owner = own, map_hash = hash, map_altered = False\<rparr>"

definition emptyMap :: "('k, 'v) imap" where
  "emptyMap = makeMap 0 None None None"

section \<open>Access and modification\<close>

definition map_get :: "('k, 'v) eqenv \<Rightarrow> 'k \<Rightarrow> 'v option \<Rightarrow> ('k, 'v) imap \<Rightarrow> 'v option" where
  "map_get E k notSet m = (case map_root m of None \<Rightarrow> notSet | Some r \<Rightarrow> root_get E k notSet r)"

definition map_has :: "('k, 'v) eqenv \<Rightarrow> 'k \<Rightarrow> ('k, 'v) imap \<Rightarrow> bool" where
  "map_has E k m \<longleftrightarrow> map_get E k None m \<noteq> None"

definition store_root :: "('k, 'v) imap \<Rightarrow> int \<Rightarrow> ('k, 'v) root option \<Rightarrow> ('k, 'v) imap upd" where
  \<comment> \<open>the tail of \<open>updateMap\<close>\<close>
  "store_root m newSize newRoot =
     (if map_owner m \<noteq> None
      then This (m\<lparr>map_size := newSize, map_root := newRoot, map_hash := None, map_altered := True\<rparr>)
      else New (case newRoot of None \<Rightarrow> emptyMap | Some r \<Rightarrow> makeMap newSize (Some r) None None))"

definition updateMap :: "('k, 'v) eqenv \<Rightarrow> nat \<Rightarrow> 'k \<Rightarrow> 'v option \<Rightarrow> ('k, 'v) imap \<Rightarrow> ('k, 'v) imap upd" where
  "updateMap E fresh k v m =
     (case map_root m of
        None \<Rightarrow>
          (case v of
             None \<Rightarrow> This m
           | Some x \<Rightarrow> store_root m 1 (Some (ArrayMapNode (map_owner m) [(k, x)])))
      | Some r \<Rightarrow>
          (let (newRoot, didChangeSize, didAlter) = root_update E (map_owner m) fresh k v r
           in if \<not> didAlter then This m
              else store_root m (map_size m + (if didChangeSize then (if v = None then -1 else 1) else 0)) (upd_opt newRoot)))"

definition map_set :: "('k, 'v) eqenv \<Rightarrow> nat \<Rightarrow> 'k \<Rightarrow> 'v \<Rightarrow> ('k, 'v) imap \<Rightarrow> ('k, 'v) imap upd" where
  "map_set E fresh k v m = updateMap E fresh k (Some v) m"

definition map_remove :: "('k, 'v) eqenv \<Rightarrow> nat \<Rightarrow> 'k \<Rightarrow> ('k, 'v) imap \<Rightarrow> ('k, 'v) imap upd" where
  "map_remove E fresh k m = updateMap E fresh k None m"

definition map_clear :: "('k, 'v) imap \<Rightarrow> ('k, 'v) imap upd" where
  "map_clear m =
     (if map_size m = 0 then This m
      else if map_owner m \<noteq> None
      then This (m\<lparr>map_size := 0, map_root := None, map_hash := None, map_altered := True\<rparr>)
      else New emptyMap)"

section \<open>Transient mutability\<close>

definition map_ensureOwner :: "owner \<Rightarrow> ('k, 'v) imap \<Rightarrow> ('k, 'v) imap upd" where
  "map_ensureOwner own m =
     (if own = map_owner m then This m
      else if own = None then This (m\<lparr>map_owner := None, map_altered := False\<rparr>)
      else New (makeMap (map_size m) (map_root m) own (map_hash m)))"

definition map_asMutable :: "nat \<Rightarrow> ('k, 'v) imap \<Rightarrow> ('k, 'v) imap upd" where
  "map_asMutable fresh m = (if map_owner m \<noteq> None then This m else map_ensureOwner (Some fresh) m)"

definition map_asImmutable :: "('k, 'v) imap \<Rightarrow> ('k, 'v) imap upd" where
  "map_asImmutable m = map_ensureOwner None m"

definition map_withMutations ::
  "nat \<Rightarrow> (('k, 'v) imap \<Rightarrow> ('k, 'v) imap) \<Rightarrow> ('k, 'v) imap \<Rightarrow> ('k, 'v) imap upd" where
  \<comment> \<open>\<open>fn\<close> gives the state of the mutable map after the callback; when the receiver itself is
    mutable, the callback edits the receiver\<close>
  "map_withMutations fresh fn m =
     (if map_owner m \<noteq> None
      then This (fn m)
      else let mutable = fn (upd_default m (map_asMutable fresh m))
           in if map_altered mutable then New (upd_default mutable (map_ensureOwner (map_owner m) mutable))
              else This m)"

section \<open>Construction\<close>

definition set_all :: "('k, 'v) eqenv \<Rightarrow> nat \<Rightarrow> ('k \<times> 'v) list \<Rightarrow> ('k, 'v) imap \<Rightarrow> ('k, 'v) imap" where
  \<comment> \<open>\<open>iter.forEach(function(v, k) {return map.set(k, v)})\<close> on a mutable map\<close>
  "set_all E fresh es m = fold (\<lambda>(k, v) m. upd_default m (map_set E fresh k v m)) es m"

definition Map_of_entries :: "('k, 'v) eqenv \<Rightarrow> nat \<Rightarrow> ('k \<times> 'v) list \<Rightarrow> ('k, 'v) imap" where
  \<comment> \<open>\<open>Map(value)\<close> for a finite keyed iterable that is not itself a map\<close>
  "Map_of_entries E fresh es = upd_default emptyMap (map_withMutations fresh (set_all E fresh es) emptyMap)"

fun pair_up :: "'a list \<Rightarrow> ('a \<times> 'a) list + 'a" where
  \<comment> \<open>the loop of \<open>Map.of\<close>; \<open>Inr k\<close> is the error \<open>Missing value for key\<close>\<close>
  "pair_up [] = Inl []"
| "pair_up [k] = Inr k"
| "pair_up (k # v # rest) = (case pair_up rest of Inl ps \<Rightarrow> Inl ((k, v) # ps) | Inr e \<Rightarrow> Inr e)"

definition Map_of :: "('a, 'a) eqenv \<Rightarrow> nat \<Rightarrow> 'a list \<Rightarrow> ('a, 'a) imap + 'a" where
  "Map_of E fresh keyValues =
     (case pair_up keyValues of Inl ps \<Rightarrow> Inl (Map_of_entries E fresh ps) | Inr k \<Rightarrow> Inr k)"

section \<open>Iteration\<close>

definition map_iterate ::
  "('v \<Rightarrow> 'k \<Rightarrow> 's \<Rightarrow> 's \<times> bool) \<Rightarrow> bool \<Rightarrow> ('k, 'v) imap \<Rightarrow> 's \<Rightarrow> 's \<times> nat" where
  \<comment> \<open>the number is the count of calls that \<open>__iterate\<close> returns\<close>
  "map_iterate fn reverse m s =
     (case map_root m of
        None \<Rightarrow> (s, 0)
      | Some r \<Rightarrow>
          fst (root_iterate (\<lambda>entry (s, iterations). case fn (snd entry) (fst entry) s of
                                (s', stop) \<Rightarrow> ((s', iterations + 1), stop)) reverse r (s, 0)))"

section \<open>Merging\<close>

definition map_update_key ::
  "('k, 'v) eqenv \<Rightarrow> nat \<Rightarrow> 'k \<Rightarrow> ('v option \<Rightarrow> 'v) \<Rightarrow> ('k, 'v) imap \<Rightarrow> ('k, 'v) imap upd" where
  \<comment> \<open>\<open>collection.update(key, NOT_SET, updater)\<close>, that is \<open>updateInDeepMap\<close> on a path of one key;
    \<open>===\<close> on values is \<open>js_same\<close>\<close>
  "map_update_key E fresh key updater m =
     (let existing = map_get E key None m;
          nextUpdated = updater existing
      in if (case existing of None \<Rightarrow> False | Some v \<Rightarrow> js_same E nextUpdated v) then This m
         else map_set E fresh key nextUpdated m)"

definition merge_entry ::
  "('k, 'v) eqenv \<Rightarrow> nat \<Rightarrow> ('v \<Rightarrow> 'v \<Rightarrow> 'k \<Rightarrow> 'v) option \<Rightarrow> 'k \<times> 'v \<Rightarrow> ('k, 'v) imap \<Rightarrow> ('k, 'v) imap" where
  \<comment> \<open>\<open>mergeIntoMap\<close>\<close>
  "merge_entry E fresh merger e m =
     (case merger of
        None \<Rightarrow> upd_default m (map_set E fresh (fst e) (snd e) m)
      | Some mg \<Rightarrow> upd_default m (map_update_key E fresh (fst e)
           (\<lambda>existing. case existing of None \<Rightarrow> snd e | Some x \<Rightarrow> mg x (snd e) (fst e)) m))"

definition mergeIntoCollectionWith ::
  "('k, 'v) eqenv \<Rightarrow> nat \<Rightarrow> ('v \<Rightarrow> 'v \<Rightarrow> 'k \<Rightarrow> 'v) option \<Rightarrow> ('k \<times> 'v) list list \<Rightarrow> ('k, 'v) imap \<Rightarrow> ('k, 'v) imap upd" where
  \<comment> \<open>each iterable is given by its entries in iteration order\<close>
  "mergeIntoCollectionWith E fresh merger iters m =
     (let iters = filter (\<lambda>x. length x \<noteq> 0) iters
      in if iters = [] then This m
         else if map_size m = 0 \<and> map_owner m = None \<and> length iters = 1
         then New (Map_of_entries E fresh (hd iters))
         else map_withMutations fresh (\<lambda>m. fold (fold (merge_entry E fresh merger)) iters m) m)"

end
