(* ===== verification/Keyed_Store.thy ===== *)
theory Keyed_Store
  imports Prelude
begin

text \<open>
  The contract a keyed collection of the library offers its clients: a lookup, one update
  operation (under an owner token) that stores (\<open>Some v\<close>) or removes (\<open>None\<close>) a key, a size, and an invariant. The
  lemmas derived here serve every client that feeds a sequence of operations to such a
  collection: \<open>withMutations\<close>, \<open>merge\<close>, \<open>Set\<close>, \<open>OrderedMap\<close>.
\<close>

definition assign :: "('k \<Rightarrow> 'k \<Rightarrow> bool) \<Rightarrow> 'k \<Rightarrow> 'v option \<Rightarrow> ('k \<Rightarrow> 'v option) \<Rightarrow> 'k \<Rightarrow> 'v option" where
  "assign eqk k v f x = (if eqk k x then v else f x)"

definition assigns :: "('k \<Rightarrow> 'k \<Rightarrow> bool) \<Rightarrow> ('k \<times> 'v option) list \<Rightarrow> ('k \<Rightarrow> 'v option) \<Rightarrow> 'k \<Rightarrow> 'v option" where
  "assigns eqk ops f = fold (\<lambda>(k, v). assign eqk k v) ops f"

lemma assigns_simps [simp]:
  "assigns eqk [] f = f" "assigns eqk ((k, v) # ops) f = assigns eqk ops (assign eqk k v f)"
  "assigns eqk (ops @ ops') f = assigns eqk ops' (assigns eqk ops f)"
  by (simp_all add: assigns_def)

lemma find_append: "List.find P (xs @ ys) = (case List.find P xs of None \<Rightarrow> List.find P ys | Some y \<Rightarrow> Some y)"
  by (induction xs) auto

text \<open>The last operation on a key decides.\<close>

lemma assigns_last:
  "assigns eqk ops f x = (case List.find (\<lambda>op. eqk (fst op) x) (rev ops) of None \<Rightarrow> f x | Some op \<Rightarrow> snd op)"
proof (induction ops arbitrary: f)
  case (Cons op ops)
  then show ?case by (cases op) (auto simp: assign_def find_append split: option.splits)
qed simp

locale keyed_store =
  fixes eqk :: "'k \<Rightarrow> 'k \<Rightarrow> bool"
    and inv :: "'s \<Rightarrow> bool"
    and lookup :: "'s \<Rightarrow> 'k \<Rightarrow> 'v option"
    and put :: "'t \<Rightarrow> 'k \<Rightarrow> 'v option \<Rightarrow> 's \<Rightarrow> 's"
    and card_of :: "'s \<Rightarrow> int"
  assumes put_inv: "inv s \<Longrightarrow> inv (put t k v s)"
    and put_lookup: "inv s \<Longrightarrow> lookup (put t k v s) = assign eqk k v (lookup s)"
    and lookup_card: "inv s \<Longrightarrow> inv s' \<Longrightarrow> (\<And>x. lookup s x = lookup s' x) \<Longrightarrow> card_of s = card_of s'"
begin

definition puts :: "'t \<Rightarrow> ('k \<times> 'v option) list \<Rightarrow> 's \<Rightarrow> 's" where
  "puts t ops s = fold (\<lambda>(k, v). put t k v) ops s"

lemma puts_simps [simp]: "puts t [] s = s" "puts t ((k, v) # ops) s = puts t ops (put t k v s)"
  by (simp_all add: puts_def)

lemma puts_spec: "inv s \<Longrightarrow> inv (puts t ops s) \<and> lookup (puts t ops s) = assigns eqk ops (lookup s)"
  by (induction ops arbitrary: s) (auto simp: put_inv put_lookup)

lemmas puts_inv = puts_spec [THEN conjunct1] and puts_lookup = puts_spec [THEN conjunct2]

text \<open>Equal contents before and equal operations give equal contents and size.\<close>

lemma puts_cong:
  "inv s \<Longrightarrow> inv s' \<Longrightarrow> lookup s = lookup s' \<Longrightarrow>
   lookup (puts t ops s) = lookup (puts t' ops s') \<and> card_of (puts t ops s) = card_of (puts t' ops s')"
  by (auto simp: puts_lookup intro!: lookup_card puts_inv)

text \<open>Operations on different keys commute, repeated ones collapse.\<close>

lemma put_commute:
  assumes "inv s" "\<not> (\<exists>x. eqk k x \<and> eqk k' x)"
  shows "lookup (put t k v (put t k' v' s)) = lookup (put t k' v' (put t k v s))"
  using assms by (auto simp: put_lookup put_inv assign_def fun_eq_iff)

lemma put_put: "inv s \<Longrightarrow> lookup (put t k v (put t k w s)) = lookup (put t k v s)"
  by (auto simp: put_lookup put_inv assign_def fun_eq_iff)

end

end
