(* ===== verification/Imm_MapSpec.thy ===== *)
theory Imm_MapSpec
  imports Imm_Map Keyed_Store
begin

text \<open>
  Correctness of \<open>Map\<close>: the invariant \<open>wf_map\<close> (well-formed root, \<open>size\<close> equal to the number of
  entries), the effect of every operation on lookups, the identity of the receiver, owners, and
  iteration. The interface \<open>keyed_store\<close> is provided by \<open>map_get\<close> and \<open>updateMap\<close>.
\<close>

definition map_entries :: "('k, 'v) imap \<Rightarrow> ('k \<times> 'v) list" where
  "map_entries m = opt_root_entries (map_root m)"

definition wf_map :: "('k, 'v) eqenv \<Rightarrow> ('k, 'v) imap \<Rightarrow> bool" where
  "wf_map E m \<longleftrightarrow> (\<forall>r. map_root m = Some r \<longrightarrow> wf_root E r) \<and> map_size m = int (length (map_entries m))"

definition map_put :: "('k, 'v) eqenv \<Rightarrow> nat \<Rightarrow> 'k \<Rightarrow> 'v option \<Rightarrow> ('k, 'v) imap \<Rightarrow> ('k, 'v) imap" where
  "map_put E fresh k v m = upd_default m (updateMap E fresh k v m)"

lemma wf_emptyMap [simp]: "wf_map E emptyMap"
  by (simp add: wf_map_def emptyMap_def makeMap_def map_entries_def)

lemma emptyMap_simps [simp]:
  "map_root emptyMap = None" "map_size emptyMap = 0" "map_owner emptyMap = None" "map_altered emptyMap = False"
  by (simp_all add: emptyMap_def makeMap_def)

lemma makeMap_simps [simp]:
  "map_root (makeMap n r own h) = r" "map_size (makeMap n r own h) = n" "map_owner (makeMap n r own h) = own"
  "map_altered (makeMap n r own h) = False" "map_hash (makeMap n r own h) = h"
  by (simp_all add: makeMap_def)

lemma store_root_simps [simp]:
  "map_root (upd_default d (store_root m n r)) = r"
  "map_size (upd_default d (store_root m n r)) = (if map_owner m = None \<and> r = None then 0 else n)"
  "map_owner (upd_default d (store_root m n r)) = map_owner m"
  by (auto simp: store_root_def split: option.splits)

context key_equality
begin

lemma root_get_entries: "wf_root E r \<Longrightarrow> root_get E k ns r = entry_get E k ns (root_entries r)"
  using trie_get_entries [of 0 "\<lambda>_. True" _ None k ns] by (cases r) auto

lemma map_get_entries: "wf_map E m \<Longrightarrow> map_get E k ns m = entry_get E k ns (map_entries m)"
  by (simp add: map_get_def wf_map_def map_entries_def root_get_entries split: option.splits)

lemma wf_root_distinct: "wf_root E r \<Longrightarrow> distinct_keys E (root_entries r)"
  using wf_distinct by (cases r) auto

lemma map_distinct: "wf_map E m \<Longrightarrow> distinct_keys E (map_entries m)"
  by (cases "map_root m") (auto simp: map_entries_def wf_map_def wf_root_distinct)

lemma updateMap_spec:
  assumes wf: "wf_map E m"
  shows "wf_map E (map_put E fresh k v m)"
    and "entry_get E x None (map_entries (map_put E fresh k v m)) = assign (js_is E) k v (\<lambda>x. entry_get E x None (map_entries m)) x"
    and "map_owner (map_put E fresh k v m) = map_owner m"
proof -
  have *: "wf_map E (map_put E fresh k v m) \<and>
    (\<forall>x. entry_get E x None (map_entries (map_put E fresh k v m)) = assign (js_is E) k v (\<lambda>x. entry_get E x None (map_entries m)) x) \<and>
    map_owner (map_put E fresh k v m) = map_owner m"
  proof (cases "map_root m")
    case None
    then show ?thesis using wf is_sym
      by (cases v) (auto simp: map_put_def updateMap_def wf_map_def map_entries_def assign_def)
  next
    case (Some r)
    obtain res chg alt where u: "root_update E (map_owner m) fresh k v r = (res, chg, alt)" by (metis prod_cases3)
    have us: "root_upd_spec (map_owner m) r k v (res, chg, alt)"
      using root_update_spec [of r "map_owner m" k v fresh] wf Some u by (simp add: wf_map_def)
    show ?thesis
    proof (cases alt)
      case True
      have sz: "upd_opt res = None \<Longrightarrow> map_size m + (if chg then (if v = None then -1 else 1) else 0) = 0"
        using us wf Some by (auto simp: root_upd_spec_def wf_map_def map_entries_def)
      show ?thesis using True us wf Some u sz
        by (auto simp: map_put_def updateMap_def wf_map_def map_entries_def root_upd_spec_def assign_def)
    next
      case False
      then have r: "res = This r" using us by (simp add: root_upd_spec_def)
      have g: "js_is E k x \<Longrightarrow> entry_get E x None (root_entries r) = v" for x
        using us r by (auto simp: root_upd_spec_def split: if_splits)
      show ?thesis using False r g wf Some u
        by (auto simp: map_put_def updateMap_def map_entries_def assign_def)
    qed
  qed
  then show "wf_map E (map_put E fresh k v m)"
    "entry_get E x None (map_entries (map_put E fresh k v m)) = assign (js_is E) k v (\<lambda>x. entry_get E x None (map_entries m)) x"
    "map_owner (map_put E fresh k v m) = map_owner m" by auto
qed

lemma map_get_default: "wf_map E m \<Longrightarrow> map_get E k ns m = (case map_get E k None m of None \<Rightarrow> ns | Some v \<Rightarrow> Some v)"
  unfolding map_get_entries by (rule entry_get_default)

sublocale store: keyed_store "js_is E" "wf_map E" "\<lambda>m x. map_get E x None m" "map_put E" map_size
proof
  fix s t :: "('k, 'v) imap" and fresh k v
  assume s: "wf_map E s"
  show p: "wf_map E (map_put E fresh k v s)" by (rule updateMap_spec(1) [OF s])
  show "(\<lambda>x. map_get E x None (map_put E fresh k v s)) = assign (js_is E) k v (\<lambda>x. map_get E x None s)"
    using updateMap_spec(2) [OF s, where fresh = fresh and k = k and v = v] by (simp add: map_get_entries [OF p] map_get_entries [OF s])
  assume t: "wf_map E t" and "\<And>x. map_get E x None s = map_get E x None t"
  then have "\<And>x. entry_get E x None (map_entries s) = entry_get E x None (map_entries t)"
    by (simp add: map_get_entries s t)
  from lookup_length [OF map_distinct [OF s] map_distinct [OF t] this]
  show "map_size s = map_size t" using s t by (simp add: wf_map_def)
qed

lemmas map_put_inv = store.put_inv and map_put_lookup = store.put_lookup and map_card = store.lookup_card
  and map_puts_spec = store.puts_spec and map_puts_def = store.puts_def

lemma put_size:
  assumes wf: "wf_map E m"
  shows "map_size (map_put E fresh k v m) = map_size m +
    (case (map_get E k None m, v) of (None, Some _) \<Rightarrow> 1 | (Some _, None) \<Rightarrow> -1 | _ \<Rightarrow> 0)"
proof -
  let ?m = "map_put E fresh k v m"
  let ?es = "map_entries m" and ?es' = "map_entries ?m"
  have wf': "wf_map E ?m" by (rule updateMap_spec(1) [OF wf])
  note d = map_distinct [OF wf] and d' = map_distinct [OF wf']
  have g: "entry_get E x None ?es' = (if js_is E k x then v else entry_get E x None ?es)" for x
    using updateMap_spec(2) [OF wf, where fresh = fresh and k = k and v = v] by (simp add: assign_def)
  have sz: "map_size m = int (length ?es)" "map_size ?m = int (length ?es')" using wf wf' by (simp_all add: wf_map_def)
  have get: "map_get E k None m = entry_get E k None ?es" by (rule map_get_entries [OF wf])
  show ?thesis
  proof (cases v)
    case (Some y)
    with g have "\<And>x. entry_get E x None ?es' = (if js_is E k x then Some y else entry_get E x None ?es)" by simp
    from insert_length [OF d d' this] show ?thesis using sz get Some by (auto split: option.splits)
  next
    case None
    show ?thesis
    proof (cases "entry_get E k None ?es")
      case no: None
      have "entry_get E x None ?es = entry_get E x None ?es'" for x
        using g [of x] None no entry_get_cong [of k x] by (cases "js_is E k x") auto
      from lookup_length [OF d d' this] show ?thesis using sz get None no by simp
    next
      case (Some y)
      have "entry_get E x None ?es = (if js_is E k x then Some y else entry_get E x None ?es')" for x
        using g [of x] None Some entry_get_cong [of k x] by (cases "js_is E k x") auto
      from insert_length [OF d' d this] show ?thesis using sz get None Some g [of k] by simp
    qed
  qed
qed

lemma clear_spec:
  assumes wf: "wf_map E m"
  shows "wf_map E (upd_default m (map_clear m))" "map_get E x None (upd_default m (map_clear m)) = None"
    "map_owner (upd_default m (map_clear m)) = map_owner m"
proof -
  have "map_size m = 0 \<Longrightarrow> map_entries m = []" using wf by (simp add: wf_map_def)
  then have "map_entries (upd_default m (map_clear m)) = [] \<and> map_size (upd_default m (map_clear m)) = 0"
    by (auto simp: map_clear_def map_entries_def)
  moreover have roots: "map_root (upd_default m (map_clear m)) \<in> {None, map_root m}" by (auto simp: map_clear_def)
  ultimately show w: "wf_map E (upd_default m (map_clear m))" using wf by (auto simp: wf_map_def)
  show "map_get E x None (upd_default m (map_clear m)) = None"
    using \<open>map_entries _ = [] \<and> _\<close> by (simp add: map_get_entries [OF w])
  show "map_owner (upd_default m (map_clear m)) = map_owner m" by (auto simp: map_clear_def)
qed

text \<open>A map without owner is never edited in place; an update that returns its receiver did nothing.\<close>

lemma updateMap_persistent:
  "map_owner m = None \<Longrightarrow> updateMap E fresh k v m = This m' \<Longrightarrow> m' = m"
  by (auto simp: updateMap_def store_root_def Let_def split: option.splits prod.splits if_splits)

lemma updateMap_same_iff:
  assumes wf: "wf_map E m"
  shows "updateMap E fresh k v m = This m \<Longrightarrow> map_get E k None m = v"
    and "map_get E k None m = v \<Longrightarrow> (\<And>x. v = Some x \<Longrightarrow> js_same E x x) \<Longrightarrow> updateMap E fresh k v m = This m"
proof -
  assume "updateMap E fresh k v m = This m"
  then have "map_put E fresh k v m = m" by (simp add: map_put_def)
  with store.put_lookup [OF wf, of fresh k v] show "map_get E k None m = v"
    by (metis assign_def is_refl)
next
  assume v: "map_get E k None m = v" "\<And>x. v = Some x \<Longrightarrow> js_same E x x"
  show "updateMap E fresh k v m = This m"
  proof (cases "map_root m")
    case None
    then show ?thesis using v(1) by (simp add: updateMap_def map_get_def)
  next
    case (Some r)
    obtain res chg alt where u: "root_update E (map_owner m) fresh k v r = (res, chg, alt)" by (metis prod_cases3)
    have "root_upd_spec (map_owner m) r k v (res, chg, alt)"
      using root_update_spec [of r "map_owner m" k v fresh] wf Some u by (simp add: wf_map_def)
    then have "\<not> alt" using v map_get_entries [OF wf, of k None] Some
      by (simp add: root_upd_spec_def map_entries_def)
    then show ?thesis using u Some by (simp add: updateMap_def)
  qed
qed

lemma updateMap_changed:
  assumes wf: "wf_map E m" and v: "map_get E k None m \<noteq> v"
  shows "map_owner m = None \<Longrightarrow> \<not> is_this (updateMap E fresh k v m)"
    and "map_owner m \<noteq> None \<Longrightarrow> \<exists>m'. updateMap E fresh k v m = This m' \<and> map_altered m' \<and> map_hash m' = None"
proof -
  have ne: "updateMap E fresh k v m \<noteq> This m" using updateMap_same_iff(1) [OF wf] v by blast
  then obtain n r where "updateMap E fresh k v m = store_root m n r"
    by (auto simp: updateMap_def Let_def split: option.splits prod.splits if_splits)
  then show "map_owner m = None \<Longrightarrow> \<not> is_this (updateMap E fresh k v m)"
    and "map_owner m \<noteq> None \<Longrightarrow> \<exists>m'. updateMap E fresh k v m = This m' \<and> map_altered m' \<and> map_hash m' = None"
    by (simp_all add: store_root_def)
qed

section \<open>Mutable copies\<close>

lemma put_altered:
  "map_owner m \<noteq> None \<Longrightarrow> map_put E fresh k v m = m \<or> map_altered (map_put E fresh k v m)"
  by (auto simp: map_put_def updateMap_def store_root_def Let_def split: option.splits prod.splits)

text \<open>
  A callback of \<open>withMutations\<close> whose effect on lookups is \<open>F\<close>: it keeps the invariant and the
  owner and records whether it changed anything. Such callbacks compose.
\<close>

definition mutates :: "(('k, 'v) imap \<Rightarrow> ('k, 'v) imap) \<Rightarrow> (('k \<Rightarrow> 'v option) \<Rightarrow> 'k \<Rightarrow> 'v option) \<Rightarrow> bool" where
  "mutates fn F \<longleftrightarrow> (\<forall>m. wf_map E m \<longrightarrow> map_owner m \<noteq> None \<longrightarrow>
     wf_map E (fn m) \<and> map_owner (fn m) = map_owner m \<and> (fn m = m \<or> map_altered (fn m)) \<and>
     (\<lambda>x. map_get E x None (fn m)) = F (\<lambda>x. map_get E x None m))"

lemma mutatesD:
  assumes "mutates fn F" "wf_map E m" "map_owner m \<noteq> None"
  shows "wf_map E (fn m)" "map_owner (fn m) = map_owner m" "fn m = m \<or> map_altered (fn m)"
    "(\<lambda>x. map_get E x None (fn m)) = F (\<lambda>x. map_get E x None m)"
  using assms unfolding mutates_def by blast+

lemma mutates_id: "mutates (\<lambda>m. m) (\<lambda>f. f)"
  by (simp add: mutates_def)

lemma mutates_comp: "mutates fn F \<Longrightarrow> mutates gn G \<Longrightarrow> mutates (\<lambda>m. gn (fn m)) (\<lambda>f. G (F f))"
  unfolding mutates_def [of "\<lambda>m. gn (fn m)"]
proof (intro allI impI)
  fix m assume fn: "mutates fn F" and gn: "mutates gn G" and m: "wf_map E m" "map_owner m \<noteq> None"
  note f = mutatesD [OF fn m]
  have "map_owner (fn m) \<noteq> None" using f(2) m(2) by simp
  note g = mutatesD [OF gn f(1) this]
  show "wf_map E (gn (fn m)) \<and> map_owner (gn (fn m)) = map_owner m \<and> (gn (fn m) = m \<or> map_altered (gn (fn m))) \<and>
    (\<lambda>x. map_get E x None (gn (fn m))) = G (F (\<lambda>x. map_get E x None m))"
    using f g by (auto simp del: fun_eq_iff)
qed

lemma mutates_fold:
  "(\<And>x. x \<in> set xs \<Longrightarrow> mutates (fn x) (F x)) \<Longrightarrow> mutates (fold fn xs) (fold F xs)"
proof (induction xs)
  case (Cons x xs)
  then show ?case using mutates_comp [of "fn x" "F x" "fold fn xs" "fold F xs"] by simp
qed (simp add: mutates_id id_def)

lemma mutates_put: "mutates (map_put E fresh k v) (assign (js_is E) k v)"
  unfolding mutates_def
  using updateMap_spec(1,3) put_altered store.put_lookup by blast

lemma mutates_puts: "mutates (store.puts fresh ops) (assigns (js_is E) ops)"
proof -
  have "mutates (fold (\<lambda>op. map_put E fresh (fst op) (snd op)) ops) (fold (\<lambda>op. assign (js_is E) (fst op) (snd op)) ops)"
    by (rule mutates_fold) (rule mutates_put)
  moreover have "store.puts fresh ops = fold (\<lambda>op. map_put E fresh (fst op) (snd op)) ops"
    by (rule ext) (simp add: store.puts_def case_prod_unfold)
  moreover have "assigns (js_is E) ops = fold (\<lambda>op. assign (js_is E) (fst op) (snd op)) ops"
    by (rule ext) (simp add: assigns_def case_prod_unfold)
  ultimately show ?thesis by (simp only:)
qed

lemma withMutations_spec:
  fixes fresh :: nat
  assumes wf: "wf_map E m" and fn: "mutates fn F"
  defines "m' \<equiv> upd_default m (map_withMutations fresh fn m)"
  shows "wf_map E m'" "(\<lambda>x. map_get E x None m') = F (\<lambda>x. map_get E x None m)" "map_owner m' = map_owner m"
proof -
  have "wf_map E m' \<and> (\<lambda>x. map_get E x None m') = F (\<lambda>x. map_get E x None m) \<and> map_owner m' = map_owner m"
  proof (cases "map_owner m")
    case (Some o')
    then have "m' = fn m" by (simp add: m'_def map_withMutations_def)
    then show ?thesis using mutatesD [OF fn wf] Some by simp
  next
    case None
    define c where "c = makeMap (map_size m) (map_root m) (Some fresh) (map_hash m)"
    have c: "upd_default m (map_asMutable fresh m) = c"
      using None by (simp add: map_asMutable_def map_ensureOwner_def c_def)
    have wfc: "wf_map E c" and getc: "\<And>x. map_get E x None c = map_get E x None m"
      using wf by (simp_all add: c_def wf_map_def map_entries_def map_get_def)
    have own': "map_owner c = Some fresh" and own: "map_owner c \<noteq> None" by (simp_all add: c_def)
    note fnc = mutatesD [OF fn wfc own, unfolded getc]
    show ?thesis
    proof (cases "map_altered (fn c)")
      case True
      then have m': "m' = (fn c)\<lparr>map_owner := None, map_altered := False\<rparr>"
        using None fnc(2) own' by (simp add: m'_def map_withMutations_def Let_def c map_ensureOwner_def)
      have "wf_map E m' = wf_map E (fn c)" "\<And>x. map_get E x None m' = map_get E x None (fn c)"
        by (simp_all add: m' wf_map_def map_entries_def map_get_def)
      then show ?thesis using fnc None by (simp add: m')
    next
      case False
      then have "m' = m" using None by (simp add: m'_def map_withMutations_def Let_def c)
      moreover have "fn c = c" using fnc(3) False by simp
      ultimately show ?thesis using wf fnc(4) getc by simp
    qed
  qed
  then show "wf_map E m'" "(\<lambda>x. map_get E x None m') = F (\<lambda>x. map_get E x None m)" "map_owner m' = map_owner m"
    by auto
qed

section \<open>Construction and merging\<close>

definition sets :: "('k \<times> 'v) list \<Rightarrow> ('k \<times> 'v option) list" where
  "sets es = map (\<lambda>(k, v). (k, Some v)) es"

lemma set_all_puts: "set_all E fresh es = store.puts fresh (sets es)"
proof
  show "set_all E fresh es m = store.puts fresh (sets es) m" for m
    by (induction es arbitrary: m) (auto simp: set_all_def sets_def map_put_def map_set_def)
qed

lemma Map_of_entries_spec:
  "wf_map E (Map_of_entries E fresh es)"
  "(\<lambda>x. map_get E x None (Map_of_entries E fresh es)) = assigns (js_is E) (sets es) (\<lambda>_. None)"
  "map_owner (Map_of_entries E fresh es) = None"
  using withMutations_spec [OF wf_emptyMap mutates_puts, of fresh fresh "sets es"]
  by (auto simp: Map_of_entries_def map_get_def set_all_puts)

text \<open>What merging one entry does to the lookup function.\<close>

definition merge_lookup ::
  "('v \<Rightarrow> 'v \<Rightarrow> 'k \<Rightarrow> 'v) option \<Rightarrow> 'k \<times> 'v \<Rightarrow> ('k \<Rightarrow> 'v option) \<Rightarrow> 'k \<Rightarrow> 'v option" where
  "merge_lookup merger e f =
     assign (js_is E) (fst e)
       (Some (case (merger, f (fst e)) of (Some mg, Some x) \<Rightarrow> mg x (snd e) (fst e) | _ \<Rightarrow> snd e)) f"

lemma assign_same: "wf_map E m \<Longrightarrow> map_get E k None m = v \<Longrightarrow> assign (js_is E) k v (\<lambda>x. map_get E x None m) = (\<lambda>x. map_get E x None m)"
  using entry_get_cong by (auto simp: assign_def fun_eq_iff map_get_entries)

lemma mutates_merge: "mutates (merge_entry E fresh merger e) (merge_lookup merger e)"
proof (cases merger)
  case None
  then have "merge_entry E fresh merger e = map_put E fresh (fst e) (Some (snd e))"
    by (auto simp: merge_entry_def map_put_def map_set_def)
  then show ?thesis using mutates_put [of fresh "fst e" "Some (snd e)"] None
    by (simp add: merge_lookup_def [abs_def])
next
  case (Some mg)
  show ?thesis unfolding mutates_def
  proof (intro allI impI)
    fix m assume m: "wf_map E m" "map_owner m \<noteq> None"
    let ?x = "map_get E (fst e) None m"
    let ?n = "case ?x of None \<Rightarrow> snd e | Some x \<Rightarrow> mg x (snd e) (fst e)"
    have F: "merge_lookup merger e (\<lambda>x. map_get E x None m) = assign (js_is E) (fst e) (Some ?n) (\<lambda>x. map_get E x None m)"
      by (simp add: merge_lookup_def Some split: option.splits)
    show "wf_map E (merge_entry E fresh merger e m) \<and> map_owner (merge_entry E fresh merger e m) = map_owner m \<and>
      (merge_entry E fresh merger e m = m \<or> map_altered (merge_entry E fresh merger e m)) \<and>
      (\<lambda>x. map_get E x None (merge_entry E fresh merger e m)) = merge_lookup merger e (\<lambda>x. map_get E x None m)"
    proof (cases "case ?x of None \<Rightarrow> False | Some v \<Rightarrow> js_same E ?n v")
      case True
      then have "merge_entry E fresh merger e m = m" by (simp add: merge_entry_def Some map_update_key_def Let_def)
      moreover have "?x = Some ?n" using True by (auto split: option.splits dest: same_eq)
      ultimately show ?thesis unfolding F using m assign_same [OF m(1) \<open>?x = Some ?n\<close>] by simp
    next
      case False
      then have "merge_entry E fresh merger e m = map_put E fresh (fst e) (Some ?n) m"
        by (simp add: merge_entry_def Some map_update_key_def Let_def map_put_def map_set_def)
      then show ?thesis unfolding F using mutatesD [OF mutates_put m] by simp
    qed
  qed
qed

lemma merge_none: "fold (merge_lookup None) es f = assigns (js_is E) (sets es) f"
  by (induction es arbitrary: f) (auto simp: merge_lookup_def sets_def)

lemma merge_fresh:
  "distinct_keys E es \<Longrightarrow> \<forall>e \<in> set es. f (fst e) = None \<Longrightarrow> fold (merge_lookup merger) es f = assigns (js_is E) (sets es) f"
proof (induction es arbitrary: f)
  case (Cons e es)
  have s: "merge_lookup merger e f = assign (js_is E) (fst e) (Some (snd e)) f"
    using Cons.prems(2) by (simp add: merge_lookup_def split: option.splits)
  have "fold (merge_lookup merger) es (merge_lookup merger e f) = assigns (js_is E) (sets es) (merge_lookup merger e f)"
    using Cons.prems by (intro Cons.IH) (auto simp: s assign_def)
  moreover have "sets (e # es) = (fst e, Some (snd e)) # sets es" by (simp add: sets_def case_prod_unfold)
  ultimately show ?case by (simp add: s)
qed (simp add: sets_def)

lemma fold_skip_empty: "fold (fold g) (filter (\<lambda>x. length x \<noteq> 0) iters) = fold (fold g) iters"
  by (induction iters) auto

lemma empty_lookup: "wf_map E m \<Longrightarrow> map_size m = 0 \<Longrightarrow> map_get E x None m = None"
  by (simp add: map_get_entries) (simp add: wf_map_def)

lemma mergeInto_spec:
  fixes fresh :: nat
  assumes wf: "wf_map E m"
    and d: "map_size m = 0 \<and> merger \<noteq> None \<longrightarrow> (\<forall>es \<in> set iters. distinct_keys E es)"
  defines "m' \<equiv> upd_default m (mergeIntoCollectionWith E fresh merger iters m)"
  shows "wf_map E m'"
    and "(\<lambda>x. map_get E x None m') = fold (fold (merge_lookup merger)) iters (\<lambda>x. map_get E x None m)"
proof -
  let ?is = "filter (\<lambda>x. length x \<noteq> 0) iters"
  have "wf_map E m' \<and> (\<lambda>x. map_get E x None m') = fold (fold (merge_lookup merger)) ?is (\<lambda>x. map_get E x None m)"
  proof (cases "?is = []")
    case True
    then show ?thesis using wf by (simp add: m'_def mergeIntoCollectionWith_def Let_def)
  next
    case ne: False
    show ?thesis
    proof (cases "map_size m = 0 \<and> map_owner m = None \<and> length ?is = 1")
      case True
      then obtain es where es: "?is = [es]" by (auto simp: length_Suc_conv)
      then have "es \<in> set ?is" by simp
      then have mem: "es \<in> set iters" by simp
      have m': "m' = Map_of_entries E fresh es"
        using True ne es by (simp add: m'_def mergeIntoCollectionWith_def Let_def)
      have none: "(\<lambda>x. map_get E x None m) = (\<lambda>_. None)" using empty_lookup [OF wf] True by simp
      have "fold (merge_lookup merger) es (\<lambda>_. None) = assigns (js_is E) (sets es) (\<lambda>_. None)"
        using merge_none merge_fresh [of es "\<lambda>_. None" merger] d True mem by (cases merger) auto
      then show ?thesis unfolding m' es none using Map_of_entries_spec [of fresh es] by simp
    next
      case False
      then have m': "m' = upd_default m (map_withMutations fresh (fold (fold (merge_entry E fresh merger)) ?is) m)"
        using ne by (auto simp: m'_def mergeIntoCollectionWith_def Let_def)
      have "mutates (fold (fold (merge_entry E fresh merger)) ?is) (fold (fold (merge_lookup merger)) ?is)"
        by (intro mutates_fold mutates_merge)
      from withMutations_spec [OF wf this] show ?thesis by (simp add: m')
    qed
  qed
  then show "wf_map E m'"
    "(\<lambda>x. map_get E x None m') = fold (fold (merge_lookup merger)) iters (\<lambda>x. map_get E x None m)"
    unfolding fold_skip_empty by blast+
qed

end

section \<open>Iteration\<close>

lemma trie_iterate_entries:
  "trie_iterate fn reverse t s = run_until fn (directed reverse (trie_entries t)) s"
proof (induction fn reverse t s rule: trie_iterate.induct)
  case (1 fn reverse o' bm nodes s)
  have "run_until (trie_iterate fn reverse) (directed reverse nodes) s
    = run_until (\<lambda>x. run_until fn (directed reverse (trie_entries x))) (directed reverse nodes) s"
    by (rule run_until_cong) (use 1 in auto)
  then show ?case by (simp add: directed_concat_map run_until_concat run_until_map)
next
  case (2 fn reverse o' cnt nodes s)
  have "run_until (\<lambda>n u. case n of None \<Rightarrow> (u, False) | Some t \<Rightarrow> trie_iterate fn reverse t u) (directed reverse nodes) s
    = run_until (\<lambda>n. run_until fn (directed reverse (case n of None \<Rightarrow> [] | Some t \<Rightarrow> trie_entries t))) (directed reverse nodes) s"
    by (rule run_until_cong) (use 2 in \<open>auto split: option.splits\<close>)
  then show ?case
    by (simp add: directed_concat_map run_until_concat run_until_map)
qed (simp_all add: directed_def Let_def split: prod.splits)

lemma root_iterate_entries:
  "root_iterate fn reverse r s = run_until fn (directed reverse (root_entries r)) s"
  by (cases r) (simp_all add: trie_iterate_entries)

text \<open>The reference for \<open>__iterate\<close>: visit a list of entries and count the calls.\<close>

fun visit :: "('v \<Rightarrow> 'k \<Rightarrow> 's \<Rightarrow> 's \<times> bool) \<Rightarrow> ('k \<times> 'v) list \<Rightarrow> 's \<Rightarrow> 's \<times> nat" where
  "visit fn [] s = (s, 0)"
| "visit fn (e # es) s =
     (let (s', stop) = fn (snd e) (fst e) s
      in if stop then (s', 1) else let (s'', n) = visit fn es s' in (s'', n + 1))"

lemma run_until_visit:
  "fst (run_until (\<lambda>e (s, n). case fn (snd e) (fst e) s of (s', stop) \<Rightarrow> ((s', n + 1), stop)) es (s, n)) =
   (fst (visit fn es s), n + snd (visit fn es s))"
  by (induction es arbitrary: s n) (auto simp: Let_def split: prod.splits)

lemma map_iterate_visit: "map_iterate fn reverse m s = visit fn (directed reverse (map_entries m)) s"
  using run_until_visit [of fn _ s 0]
  by (auto simp: map_iterate_def map_entries_def root_iterate_entries split: option.splits)

lemma visit_all:
  "(\<And>e s. e \<in> set es \<Longrightarrow> \<not> snd (fn (snd e) (fst e) s)) \<Longrightarrow>
   visit fn es s = (fold (\<lambda>e s. fst (fn (snd e) (fst e) s)) es s, length es)"
proof (induction es arbitrary: s)
  case (Cons e es)
  then have "\<not> snd (fn (snd e) (fst e) s)" by simp
  with Cons show ?case by (cases "fn (snd e) (fst e) s") (simp add: Let_def)
qed simp

end
