(* ===== verification/Imm_MapIter.thy ===== *)
theory Imm_MapIter
  imports Imm_MapSpec
begin

text \<open>
  \<open>MapIterator\<close> of \<open>static/drf-yasg/immutable.js\<close>: the explicit stack of frames behind
  \<open>entries()\<close>, \<open>keys()\<close> and \<open>values()\<close>. A frame is a node with the index of the next child or
  entry. One call of \<open>next\<close> runs a loop over the stack; its termination measure is the weight of
  what the frames have still to visit. The iterator delivers exactly the entries that \<open>iterate\<close>
  passes to its callback, in the same order, in both directions.
\<close>

datatype ('k, 'v) iter_node = INode "('k, 'v) trie" | IArray "('k \<times> 'v) list"

type_synonym ('k, 'v) iter_stack = "(('k, 'v) iter_node \<times> nat) list"

fun root_node :: "('k, 'v) root \<Rightarrow> ('k, 'v) iter_node" where
  "root_node (ArrayMapNode _ es) = IArray es"
| "root_node (Trie t) = INode t"

definition new_iterator :: "('k, 'v) imap \<Rightarrow> ('k, 'v) iter_stack" where
  "new_iterator m = (case map_root m of None \<Rightarrow> [] | Some r \<Rightarrow> [(root_node r, 0)])"

text \<open>The children of an inner node as the loop sees them, and the entry array of a leaf.\<close>

fun node_kids :: "('k, 'v) trie \<Rightarrow> ('k, 'v) trie option list" where
  "node_kids (BitmapIndexedNode _ _ nodes) = map Some nodes"
| "node_kids (HashArrayMapNode _ _ nodes) = nodes"
| "node_kids _ = []"

fun trie_weight :: "('k, 'v) trie \<Rightarrow> nat" where
  "trie_weight (BitmapIndexedNode _ _ nodes) = 1 + sum_list (map (\<lambda>t. 1 + trie_weight t) nodes)"
| "trie_weight (HashArrayMapNode _ _ nodes) =
     1 + sum_list (map (\<lambda>n. 1 + (case n of None \<Rightarrow> 0 | Some t \<Rightarrow> trie_weight t)) nodes)"
| "trie_weight (HashCollisionNode _ _ _) = 1"
| "trie_weight (ValueNode _ _ _) = 1"

definition opt_weight :: "('k, 'v) trie option \<Rightarrow> nat" where
  "opt_weight n = (case n of None \<Rightarrow> 0 | Some t \<Rightarrow> trie_weight t)"

fun frame_weight :: "bool \<Rightarrow> ('k, 'v) iter_node \<times> nat \<Rightarrow> nat" where
  "frame_weight reverse (INode t, index) =
     1 + sum_list (map (\<lambda>n. 1 + opt_weight n) (drop index (directed reverse (node_kids t))))"
| "frame_weight reverse (IArray _, index) = 1"

definition stack_weight :: "bool \<Rightarrow> ('k, 'v) iter_stack \<Rightarrow> nat" where
  "stack_weight reverse st = sum_list (map (frame_weight reverse) st)"

lemma sum_list_directed: "sum_list (map f (directed r xs)) = (sum_list (map f xs) :: nat)"
  by (cases r) (simp_all add: rev_map [symmetric])

lemma new_frame_weight: "frame_weight reverse (INode t, 0) = trie_weight t"
proof -
  have "sum_list (map (\<lambda>n. 1 + opt_weight n) (directed reverse (node_kids t))) + 1 = trie_weight t"
    unfolding sum_list_directed by (cases t) (simp_all add: opt_weight_def o_def)
  then show ?thesis by simp
qed

text \<open>\<open>reverse ? maxIndex - index : index\<close>\<close>

definition at :: "bool \<Rightarrow> 'a list \<Rightarrow> nat \<Rightarrow> 'a" where
  "at reverse xs index = xs ! (if reverse then length xs - 1 - index else index)"

datatype ('k, 'v) iter_outcome = Yield "'k \<times> 'v" "('k, 'v) iter_stack" | Continue "('k, 'v) iter_stack"

definition entries_step ::
  "bool \<Rightarrow> ('k \<times> 'v) list \<Rightarrow> ('k, 'v) iter_node \<Rightarrow> nat \<Rightarrow> ('k, 'v) iter_stack \<Rightarrow> ('k, 'v) iter_outcome" where
  \<comment> \<open>the branch \<open>node.entries\<close>\<close>
  "entries_step reverse entries node index prev =
     (if index < length entries then Yield (at reverse entries index) ((node, index + 1) # prev) else Continue prev)"

definition nodes_step ::
  "bool \<Rightarrow> ('k, 'v) iter_node \<Rightarrow> ('k, 'v) trie option list \<Rightarrow> nat \<Rightarrow> ('k, 'v) iter_stack \<Rightarrow> ('k, 'v) iter_outcome" where
  \<comment> \<open>the branch \<open>node.nodes\<close>\<close>
  "nodes_step reverse node nodes index prev =
     (if index < length nodes
      then (let prev' = (node, index + 1) # prev
            in case at reverse nodes index of
                 None \<Rightarrow> Continue prev'
               | Some subNode \<Rightarrow>
                   (case subNode of
                      ValueNode _ _ entry \<Rightarrow> Yield entry prev'
                    | _ \<Rightarrow> Continue ((INode subNode, 0) # prev')))
      else Continue prev)"

fun iter_step :: "bool \<Rightarrow> ('k, 'v) iter_node \<Rightarrow> nat \<Rightarrow> ('k, 'v) iter_stack \<Rightarrow> ('k, 'v) iter_outcome" where
  \<comment> \<open>one turn of the \<open>while (stack)\<close> loop\<close>
  "iter_step reverse (IArray entries) index prev = entries_step reverse entries (IArray entries) index prev"
| "iter_step reverse (INode (HashCollisionNode o' h entries)) index prev =
     entries_step reverse entries (INode (HashCollisionNode o' h entries)) index prev"
| "iter_step reverse (INode (ValueNode o' h entry)) index prev =
     (if index = 0 then Yield entry ((INode (ValueNode o' h entry), index + 1) # prev) else Continue prev)"
| "iter_step reverse (INode t) index prev = nodes_step reverse (INode t) (node_kids t) index prev"

lemma directed_nth: "i < length xs \<Longrightarrow> directed r xs ! i = at r xs i"
  by (cases r) (simp_all add: at_def rev_nth)

lemma drop_directed:
  "i < length xs \<Longrightarrow> drop i (directed r xs) = at r xs i # drop (Suc i) (directed r xs)"
  using Cons_nth_drop_Suc [of i "directed r xs"] by (simp add: directed_nth)

lemma frame_weight_step:
  "index < length (node_kids t) \<Longrightarrow>
   frame_weight reverse (INode t, index) =
     1 + opt_weight (at reverse (node_kids t) index) + frame_weight reverse (INode t, index + 1)"
  using drop_directed [of index "node_kids t" reverse] by simp

lemma nodes_step_weight:
  assumes "nodes_step reverse (INode t) (node_kids t) index prev = Continue st"
  shows "stack_weight reverse st < stack_weight reverse ((INode t, index) # prev)"
proof (cases "index < length (node_kids t)")
  case True
  note w = frame_weight_step [OF True, of reverse]
  show ?thesis
  proof (cases "at reverse (node_kids t) index")
    case None
    then have "st = (INode t, index + 1) # prev" using assms True by (simp add: nodes_step_def Let_def)
    then show ?thesis using w by (simp add: stack_weight_def del: frame_weight.simps)
  next
    case (Some c)
    then have "st = (INode c, 0) # (INode t, index + 1) # prev"
      using assms True by (cases c) (simp_all add: nodes_step_def Let_def)
    then show ?thesis using w Some
      by (simp add: stack_weight_def new_frame_weight opt_weight_def del: frame_weight.simps)
  qed
next
  case False
  then have "st = prev" using assms by (simp add: nodes_step_def)
  then show ?thesis by (simp add: stack_weight_def)
qed

lemma iter_step_weight:
  "iter_step reverse node index prev = Continue st \<Longrightarrow>
   stack_weight reverse st < stack_weight reverse ((node, index) # prev)"
  by (induction reverse node index prev rule: iter_step.induct)
    (auto simp: entries_step_def stack_weight_def [of _ "_ # _"] simp del: node_kids.simps frame_weight.simps
      dest!: nodes_step_weight split: if_splits, auto simp: stack_weight_def)

function iterator_next :: "bool \<Rightarrow> ('k, 'v) iter_stack \<Rightarrow> ('k \<times> 'v) option \<times> ('k, 'v) iter_stack" where
  "iterator_next reverse [] = (None, [])"
| "iterator_next reverse ((node, index) # prev) =
     (case iter_step reverse node index prev of
        Yield e st \<Rightarrow> (Some e, st)
      | Continue st \<Rightarrow> iterator_next reverse st)"
  by pat_completeness auto
termination
  by (relation "measure (\<lambda>(reverse, st). stack_weight reverse st)") (auto dest: iter_step_weight)

section \<open>The iterator delivers the entries in order\<close>

fun frame_pending :: "bool \<Rightarrow> ('k, 'v) iter_node \<times> nat \<Rightarrow> ('k \<times> 'v) list" where
  "frame_pending reverse (IArray es, index) = drop index (directed reverse es)"
| "frame_pending reverse (INode t, index) =
     (if isLeafNode t then drop index (directed reverse (trie_entries t))
      else concat (map (\<lambda>n. directed reverse (opt_entries n)) (drop index (directed reverse (node_kids t)))))"

definition pending :: "bool \<Rightarrow> ('k, 'v) iter_stack \<Rightarrow> ('k \<times> 'v) list" where
  "pending reverse st = concat (map (frame_pending reverse) st)"

lemma pending_simps [simp]: "pending reverse [] = []" "pending reverse (f # st) = frame_pending reverse f @ pending reverse st"
  by (simp_all add: pending_def)

lemma new_frame_pending: "frame_pending reverse (INode t, 0) = directed reverse (trie_entries t)"
proof (cases t)
  case (HashArrayMapNode o' cnt nodes)
  have "trie_entries t = concat (map opt_entries nodes)"
    unfolding HashArrayMapNode by (simp add: opt_entries_def [abs_def])
  then show ?thesis unfolding HashArrayMapNode by (simp add: directed_concat_map)
qed (simp_all add: directed_concat_map directed_map o_def)

lemma nodes_step_pending:
  assumes t: "\<not> isLeafNode t"
  shows "case nodes_step reverse (INode t) (node_kids t) index prev of
     Yield e st \<Rightarrow> pending reverse ((INode t, index) # prev) = e # pending reverse st
   | Continue st \<Rightarrow> pending reverse ((INode t, index) # prev) = pending reverse st"
proof (cases "index < length (node_kids t)")
  case True
  have p: "frame_pending reverse (INode t, index) =
     directed reverse (opt_entries (at reverse (node_kids t) index)) @ frame_pending reverse (INode t, index + 1)"
    using t drop_directed [OF True, of reverse] by simp
  show ?thesis
  proof (cases "at reverse (node_kids t) index")
    case None
    then show ?thesis using True p by (simp add: nodes_step_def Let_def del: frame_pending.simps)
  next
    case (Some c)
    then show ?thesis using True p
      by (cases c) (simp_all add: nodes_step_def Let_def new_frame_pending directed_def del: frame_pending.simps)
  qed
next
  case False
  then show ?thesis using t by (simp add: nodes_step_def)
qed

lemma iter_step_pending:
  "case iter_step reverse node index prev of
     Yield e st \<Rightarrow> pending reverse ((node, index) # prev) = e # pending reverse st
   | Continue st \<Rightarrow> pending reverse ((node, index) # prev) = pending reverse st"
proof (cases node)
  case (INode t)
  show ?thesis
  proof (cases t)
    case (BitmapIndexedNode o' bm ns)
    then have "\<not> isLeafNode t" by simp
    from nodes_step_pending [OF this, of reverse index prev] show ?thesis
      unfolding INode BitmapIndexedNode iter_step.simps .
  next
    case (HashArrayMapNode o' cnt ns)
    then have "\<not> isLeafNode t" by simp
    from nodes_step_pending [OF this, of reverse index prev] show ?thesis
      unfolding INode HashArrayMapNode iter_step.simps .
  next
    case (HashCollisionNode o' h es)
    then show ?thesis using INode drop_directed [of index es reverse]
      by (simp add: entries_step_def)
  next
    case (ValueNode o' h e)
    then show ?thesis using INode by (cases reverse) (simp_all add: directed_def)
  qed
next
  case (IArray es)
  then show ?thesis using drop_directed [of index es reverse] by (simp add: entries_step_def)
qed

lemma iterator_next_pending:
  "case iterator_next reverse st of
     (Some e, st') \<Rightarrow> pending reverse st = e # pending reverse st'
   | (None, st') \<Rightarrow> pending reverse st = [] \<and> st' = []"
proof (induction reverse st rule: iterator_next.induct)
  case (2 reverse node index prev)
  show ?case
  proof (cases "iter_step reverse node index prev")
    case (Yield e st)
    then show ?thesis using iter_step_pending [of reverse node index prev] by simp
  next
    case (Continue st)
    then show ?thesis using iter_step_pending [of reverse node index prev] "2.IH" [OF Continue]
      by (simp split: prod.splits option.splits)
  qed
qed simp

text \<open>Calling \<open>next\<close> until it is done.\<close>

fun iterator_take :: "nat \<Rightarrow> bool \<Rightarrow> ('k, 'v) iter_stack \<Rightarrow> ('k \<times> 'v) list" where
  "iterator_take 0 reverse st = []"
| "iterator_take (Suc n) reverse st =
     (case iterator_next reverse st of (Some e, st') \<Rightarrow> e # iterator_take n reverse st' | (None, _) \<Rightarrow> [])"

lemma iterator_take_pending: "iterator_take n reverse st = take n (pending reverse st)"
proof (induction n arbitrary: st)
  case (Suc n)
  then show ?case using iterator_next_pending [of reverse st] by (auto split: prod.splits option.splits)
qed simp

lemma new_iterator_pending: "pending reverse (new_iterator m) = directed reverse (map_entries m)"
proof (cases "map_root m")
  case (Some r)
  then show ?thesis
    by (cases r) (simp_all add: new_iterator_def map_entries_def new_frame_pending del: frame_pending.simps(2))
qed (simp add: new_iterator_def map_entries_def)

end
