(* ===== verification/Imm_MapDepth.thy ===== *)
theory Imm_MapDepth
  imports Imm_MapIter
begin

text \<open>
  How deep a trie can be, and what an update may edit in place. Seven levels of five bits exhaust
  a 32-bit hash, so a well-formed trie has at most seven levels of inner nodes above its leaves.
  A node is only edited in place when it carries the owner of the update: with no owner, or with
  one that occurs nowhere in the trie, an update leaves every existing node as it was.
\<close>

fun trie_depth :: "('k, 'v) trie \<Rightarrow> nat" where
  "trie_depth (BitmapIndexedNode _ _ nodes) = Suc (Max (insert 0 (set (map trie_depth nodes))))"
| "trie_depth (HashArrayMapNode _ _ nodes) =
     Suc (Max (insert 0 (set (map (\<lambda>n. case n of None \<Rightarrow> 0 | Some t \<Rightarrow> trie_depth t) nodes))))"
| "trie_depth (HashCollisionNode _ _ _) = 0"
| "trie_depth (ValueNode _ _ _) = 0"

lemma frag_levels_eq:
  assumes "\<forall>j<7. frag h1 (5 * j) = frag h2 (5 * j)"
  shows "h1 = h2"
proof (rule bit_word_eqI)
  fix b assume b: "b < LENGTH(32)"
  define j where "j = b div 5"
  define i where "i = b mod 5"
  have j: "j < 7" "5 * j < 32" "i < 5" "b = 5 * j + i" using b by (auto simp: j_def i_def)
  have "bit (frag h1 (5 * j)) i = bit (frag h2 (5 * j)) i" using assms j(1) by simp
  then show "bit h1 b = bit h2 b" using j by (simp add: frag_bits)
qed

lemma single_hash_leaf:
  assumes "wf_trie E s P t" "\<And>h h'. P h \<Longrightarrow> P h' \<Longrightarrow> h = h'"
  shows "isLeafNode t"
  using assms
proof (induction t arbitrary: s P rule: measure_induct_rule [of size])
  case (less t)
  have other: "\<lbrakk>wf_trie E (s + 5) (\<lambda>h. P h \<and> frag h s = i) c; wf_trie E (s + 5) (\<lambda>h. P h \<and> frag h s = j) c'\<rbrakk> \<Longrightarrow> i = j"
    for i j c c'
    using wf_trie_nonempty wf_entries_hash less.prems(2) by (metis (mono_tags, lifting) hd_in_set)
  show ?case
  proof (cases t)
    case (BitmapIndexedNode o' bm nodes)
    with less.prems have wf: "packed_ok bm nodes" "nodes \<noteq> []" "length nodes = 1 \<longrightarrow> \<not> isLeafNode (hd nodes)" "kids_wf E s P (child bm nodes)"
      by (simp_all add: wf_bitmap_iff del: wf_trie.simps)
    have "hd nodes \<in> set nodes" using wf(2) by simp
    then obtain i where i: "i < 32" "child bm nodes i = Some (hd nodes)" using set_packed [OF wf(1)] by auto
    have wi: "wf_trie E (s + 5) (\<lambda>h. P h \<and> frag h s = i) (hd nodes)" using wf(4) i by (simp add: kids_wf_def)
    have "j = i" if "j < 32" "child bm nodes j = Some c" for j c
    proof -
      have "wf_trie E (s + 5) (\<lambda>h. P h \<and> frag h s = j) c" using wf(4) that by (simp add: kids_wf_def)
      then show ?thesis using other [OF _ wi] by simp
    qed
    then have "{j. j < 32 \<and> child bm nodes j \<noteq> None} \<subseteq> {i}" by blast
    moreover have "{i} \<subseteq> {j. j < 32 \<and> child bm nodes j \<noteq> None}" using i by simp
    ultimately have "{j. j < 32 \<and> child bm nodes j \<noteq> None} = {i}" by (rule antisym)
    then have "length nodes = 1" using packed_count [OF wf(1)] by (simp add: kid_count_def)
    with wf(3) have "\<not> isLeafNode (hd nodes)" by simp
    moreover have "isLeafNode (hd nodes)"
    proof (rule less.IH)
      show "size (hd nodes) < size t" using child_size [OF i(2)] BitmapIndexedNode by simp
      show "wf_trie E (s + 5) (\<lambda>h. P h \<and> frag h s = i) (hd nodes)" by (rule wi)
      show "h = h'" if "P h \<and> frag h s = i" "P h' \<and> frag h' s = i" for h h'
        using less.prems(2) that by simp
    qed
    ultimately show ?thesis by simp
  next
    case (HashArrayMapNode o' cnt nodes)
    with less.prems have wf: "length nodes = 32" "8 \<le> kid_count (slot nodes)" "kids_wf E s P (slot nodes)"
      using slot_count [of nodes] by (simp_all add: wf_hash_array_iff del: wf_trie.simps)
    have "j = i" if "i < 32" "slot nodes i = Some c" "j < 32" "slot nodes j = Some c'" for i j c c'
    proof -
      have "wf_trie E (s + 5) (\<lambda>h. P h \<and> frag h s = i) c" "wf_trie E (s + 5) (\<lambda>h. P h \<and> frag h s = j) c'"
        using wf(3) that by (simp_all add: kids_wf_def)
      then show ?thesis using other by blast
    qed
    then have "\<forall>a \<in> {j. j < 32 \<and> slot nodes j \<noteq> None}. \<forall>b \<in> {j. j < 32 \<and> slot nodes j \<noteq> None}. a = b" by blast
    moreover have "finite {j. j < 32 \<and> slot nodes j \<noteq> None}" by (rule finite_subset [of _ "{..<32}"]) auto
    ultimately have "card {j. j < 32 \<and> slot nodes j \<noteq> None} \<le> Suc 0" by (simp only: card_le_Suc0_iff_eq)
    with wf(2) show ?thesis by (simp add: kid_count_def)
  qed simp_all
qed

lemma trie_depth_bound:
  assumes "wf_trie E (5 * n) P t" "\<And>h h' j. P h \<Longrightarrow> P h' \<Longrightarrow> j < n \<Longrightarrow> frag h (5 * j) = frag h' (5 * j)"
  shows "trie_depth t \<le> 7 - n"
  using assms
proof (induction t arbitrary: n P rule: measure_induct_rule [of size])
  case (less t)
  show ?case
  proof (cases "isLeafNode t")
    case True
    then show ?thesis by (cases t) auto
  next
    case False
    have n: "n < 7"
    proof (rule ccontr)
      assume "\<not> n < 7"
      then have "h = h'" if "P h" "P h'" for h h'
        using less.prems(2) [OF that] by (intro frag_levels_eq) simp
      from single_hash_leaf [OF less.prems(1) this] False show False by simp
    qed
    have kid: "trie_depth c \<le> 7 - Suc n"
      if "size c < size t" "wf_trie E (5 * n + 5) (\<lambda>h. P h \<and> frag h (5 * n) = i) c" for c i
    proof (rule less.IH [OF that(1)])
      show "wf_trie E (5 * Suc n) (\<lambda>h. P h \<and> frag h (5 * n) = i) c" using that(2) by (simp add: add.commute)
      show "frag h (5 * j) = frag h' (5 * j)"
        if "P h \<and> frag h (5 * n) = i" "P h' \<and> frag h' (5 * n) = i" "j < Suc n" for h h' j
        using less.prems(2) [of h h' j] that by (cases "j = n") (simp_all add: less_Suc_eq)
    qed
    show ?thesis
    proof (cases t)
      case (BitmapIndexedNode o' bm nodes)
      with less.prems(1) have wf: "packed_ok bm nodes" "kids_wf E (5 * n) P (child bm nodes)"
        by (simp_all add: wf_bitmap_iff del: wf_trie.simps)
      have "trie_depth c \<le> 7 - Suc n" if "c \<in> set nodes" for c
      proof -
        from \<open>c \<in> set nodes\<close> obtain i where "i < 32" "child bm nodes i = Some c" using set_packed [OF wf(1)] by auto
        then show ?thesis using kid [of c i] child_size [of bm nodes i c] wf(2) BitmapIndexedNode by (simp add: kids_wf_def)
      qed
      then have "Max (insert 0 (set (map trie_depth nodes))) \<le> 7 - Suc n" by (intro Max.boundedI) auto
      then have "trie_depth t \<le> Suc (7 - Suc n)" unfolding BitmapIndexedNode trie_depth.simps by (rule Suc_le_mono [THEN iffD2])
      then show ?thesis using n by simp
    next
      case (HashArrayMapNode o' cnt nodes)
      with less.prems(1) have wf: "length nodes = 32" "kids_wf E (5 * n) P (slot nodes)"
        by (simp_all add: wf_hash_array_iff del: wf_trie.simps)
      have "trie_depth c \<le> 7 - Suc n" if "Some c \<in> set nodes" for c
      proof -
        from \<open>Some c \<in> set nodes\<close> obtain i where "i < 32" "nth_opt nodes i = Some (Some c)" using wf(1) by (auto simp: in_set_conv_nth nth_opt_eq_Some)
        then show ?thesis using kid [of c i] nth_opt_size_option [of nodes i c size] wf(2) HashArrayMapNode
          by (simp add: kids_wf_def slot_Some)
      qed
      then have "Max (insert 0 (set (map (\<lambda>n. case n of None \<Rightarrow> 0 | Some t \<Rightarrow> trie_depth t) nodes))) \<le> 7 - Suc n"
        by (intro Max.boundedI) (auto split: option.splits)
      then have "trie_depth t \<le> Suc (7 - Suc n)" unfolding HashArrayMapNode trie_depth.simps by (rule Suc_le_mono [THEN iffD2])
      then show ?thesis using n by simp
    qed (use False in simp_all)
  qed
qed

section \<open>In-place edits need the owner\<close>

fun trie_owners :: "('k, 'v) trie \<Rightarrow> owner set" where
  "trie_owners (BitmapIndexedNode o' _ nodes) = insert o' (\<Union>t \<in> set nodes. trie_owners t)"
| "trie_owners (HashArrayMapNode o' _ nodes) =
     insert o' (\<Union>n \<in> set nodes. case n of None \<Rightarrow> {} | Some t \<Rightarrow> trie_owners t)"
| "trie_owners (HashCollisionNode o' _ _) = {o'}"
| "trie_owners (ValueNode o' _ _) = {o'}"

lemma bitmap_result_This:
  "bitmap_result own o' bm nodes f res = This t' \<Longrightarrow> \<not> editable own o' \<Longrightarrow>
   \<exists>n. res = This n \<and> t' = BitmapIndexedNode o' bm (nodes[unat (popCount (bm AND (bitpos f - 1))) := n])"
  by (auto simp: bitmap_result_def Let_def split: upd.splits if_splits)

lemma hash_array_result_This:
  "hash_array_result own o' cnt nodes f res = This t' \<Longrightarrow> \<not> editable own o' \<Longrightarrow>
   \<exists>n. res = This n \<and> t' = HashArrayMapNode o' cnt (nodes[f := Some n])"
  by (auto simp: hash_array_result_def Let_def split: upd.splits if_splits)

lemma new_value_node_not_This: "fst (new_value_node own h k value) \<noteq> This t"
  by (auto simp: new_value_node_def split: option.splits)

lemma foreign_owner_keeps:
  "own \<notin> trie_owners t \<or> own = None \<Longrightarrow> fst (trie_update E own s kh k value t) = This t' \<Longrightarrow> t' = t"
proof (induction t arbitrary: s kh t' rule: measure_induct_rule [of size])
  case (less t)
  show ?case
  proof (cases t)
    case (BitmapIndexedNode o' bm nodes)
    let ?h = "key_hash E kh k"
    let ?f = "frag ?h s"
    let ?i = "unat (popCount (bm AND (bitpos ?f - 1)))"
    let ?kid = "if bm AND bitpos ?f \<noteq> 0 then nth_opt nodes ?i else None"
    let ?r = "case ?kid of None \<Rightarrow> new_value_node own ?h k value | Some node \<Rightarrow> trie_update E own (s + SHIFT) (Some ?h) k value node"
    have ne: "\<not> editable own o'" using less.prems(1) by (auto simp: BitmapIndexedNode editable_def)
    consider "t' = t" | "bitmap_result own o' bm nodes ?f (fst ?r) = This t'"
      using less.prems(2) by (auto simp: BitmapIndexedNode Let_def split: if_splits prod.splits)
    then show ?thesis
    proof cases
      case 2
      obtain n where n: "fst ?r = This n" "t' = BitmapIndexedNode o' bm (nodes[?i := n])"
        using bitmap_result_This [OF 2 ne] by blast
      then obtain c where c: "?kid = Some c"
        using new_value_node_not_This [of own ?h k "value" n] by (cases ?kid) (simp_all del: if_split)
      then have nth: "nth_opt nodes ?i = Some c" by (simp split: if_splits)
      have "n = c"
      proof (rule less.IH)
        show "size c < size t" using nth_opt_size [OF nth, of size] by (simp add: BitmapIndexedNode)
        show "own \<notin> trie_owners c \<or> own = None" using less.prems(1) nth_opt_mem [OF nth] by (auto simp: BitmapIndexedNode)
        show "fst (trie_update E own (s + SHIFT) (Some ?h) k value c) = This n" using n(1) unfolding c by simp
      qed
      then show ?thesis using n(2) nth BitmapIndexedNode by (auto simp: nth_opt_eq_Some)
    qed simp
  next
    case (HashArrayMapNode o' cnt nodes)
    let ?h = "key_hash E kh k"
    let ?f = "frag ?h s"
    let ?r = "case slot nodes ?f of None \<Rightarrow> new_value_node own ?h k value | Some node \<Rightarrow> trie_update E own (s + SHIFT) (Some ?h) k value node"
    have ne: "\<not> editable own o'" using less.prems(1) by (auto simp: HashArrayMapNode editable_def)
    consider "t' = t" | "hash_array_result own o' cnt nodes ?f (fst ?r) = This t'"
      using less.prems(2) by (auto simp: HashArrayMapNode Let_def slot_def split: if_splits prod.splits option.splits)
    then show ?thesis
    proof cases
      case 2
      obtain n where n: "fst ?r = This n" "t' = HashArrayMapNode o' cnt (nodes[?f := Some n])"
        using hash_array_result_This [OF 2 ne] by blast
      then obtain c where c: "slot nodes ?f = Some c"
        using new_value_node_not_This [of own ?h k "value" n] by (cases "slot nodes ?f") simp_all
      then have nth: "nth_opt nodes ?f = Some (Some c)" by (simp add: slot_Some)
      have "n = c"
      proof (rule less.IH)
        show "size c < size t" using nth_opt_size_option [OF nth, of size] by (simp add: HashArrayMapNode)
        show "own \<notin> trie_owners c \<or> own = None"
          using less.prems(1) nth_opt_mem [OF nth] by (auto simp: HashArrayMapNode dest: bspec split: option.splits)
        show "fst (trie_update E own (s + SHIFT) (Some ?h) k value c) = This n" using n(1) unfolding c by simp
      qed
      then show ?thesis using n(2) nth HashArrayMapNode by (auto simp: nth_opt_eq_Some)
    qed simp
  next
    case (HashCollisionNode o' h es)
    then show ?thesis using less.prems
      by (auto simp: Let_def editable_def split: if_splits option.splits)
  next
    case (ValueNode o' h e)
    then show ?thesis using less.prems
      by (auto simp: Let_def editable_def split: if_splits option.splits)
  qed
qed

end
