(* ===== verification/JS_Keys.thy ===== *)
theory JS_Keys
  imports JS_Value Imm_MapDepth
begin

text \<open>
  JavaScript values as keys of the trie: \<open>is\<close> and \<open>hash\<close> fulfil the contract \<open>key_equality\<close> for
  all objects that fulfil \<open>js_objects\<close>, and ordinary objects and dates do.
\<close>

sublocale js_objects \<subseteq> key: key_equality "js_env H"
proof
  fix k k' k''
  show "js_is (js_env H) k k" by (simp add: is_value_iff)
  show "js_is (js_env H) k k' \<Longrightarrow> js_is (js_env H) k' k"
    using equals_sym by (auto simp: is_value_iff)
  show "js_is (js_env H) k k' \<Longrightarrow> js_is (js_env H) k' k'' \<Longrightarrow> js_is (js_env H) k k''"
    using equals_trans by (auto simp: is_value_iff)
  show "js_is (js_env H) k k' \<Longrightarrow> js_hash (js_env H) k = js_hash (js_env H) k'"
    using equals_hash by (auto simp: is_value_iff hash_value_unwrap)
  show "js_same (js_env H) x y \<Longrightarrow> x = y" for x y :: jsval
    by (simp add: strict_eq_def)
qed

context js_objects
begin

lemmas is_key = key.key_equality_axioms

end

section \<open>Ordinary objects\<close>

text \<open>
  Plain objects answer themselves to \<open>valueOf\<close>, have neither \<open>equals\<close> nor \<open>hashCode\<close>, and have
  been numbered by \<open>hashJSObj\<close>. Wrapper objects such as dates answer a number.
\<close>

definition plain_objects :: objects where
  "plain_objects =
     \<lparr>obj_valueOf = (\<lambda>a. Some (Obj a)), obj_equals = (\<lambda>_. None), obj_hashCode = (\<lambda>_. None),
      obj_toString = (\<lambda>_. None), obj_uid = of_nat\<rparr>"

definition date_objects :: "(nat \<Rightarrow> int) \<Rightarrow> objects" where
  "date_objects time = plain_objects\<lparr>obj_valueOf := \<lambda>a. Some (Num (NumInt (time a)))\<rparr>"

lemma no_equals [simp]: "obj_equals H = (\<lambda>_. None) \<Longrightarrow> \<not> equals_call H x y"
  by (cases x) (simp_all add: equals_call_def)

interpretation plain: js_objects plain_objects
  by unfold_locales (simp_all add: plain_objects_def)

interpretation dates: js_objects "date_objects time" for time
  by unfold_locales (simp_all add: plain_objects_def date_objects_def)

end
