(* ===== verification/Imm_MapProps.thy ===== *)
theory Imm_MapProps
  imports JS_Keys
begin

text \<open>
  The properties of \<open>Map\<close> and of \<open>is\<close> and \<open>hash\<close>, over JavaScript values: \<open>js_env H\<close> is the
  environment in which the trie compares keys with the file's own \<open>is\<close> and \<open>hash\<close>, for objects
  that behave as \<open>H\<close> says. The witnesses use ordinary objects and a map of twenty keys, which is a
  hash trie.
\<close>

definition demo_map :: "nat \<Rightarrow> (jsval, jsval) imap" where
  "demo_map n = Map_of_entries (js_env plain_objects) 0
     (map (\<lambda>i. (Num (NumInt (int i)), Str (js_str ''v''))) [0..<n])"

lemma demo_wf: "wf_map (js_env plain_objects) (demo_map n)"
  unfolding demo_map_def by (rule plain.key.Map_of_entries_spec(1))

lemma demo_owner: "map_owner (demo_map n) = None"
  unfolding demo_map_def by (rule plain.key.Map_of_entries_spec(3))

lemmas plain_ok = plain.js_objects_axioms

text \<open>
  C1. After \<open>set\<close> or \<open>remove\<close> of a key \<open>k\<close>, \<open>get\<close> answers the new value (or the default after a
  removal) for every key that \<open>is\<close> equates with \<open>k\<close>, and what it answered before for every other
  key, whatever the representation of the nodes on the way.
\<close>

theorem map_update_lookup:
  assumes "js_objects H" "wf_map (js_env H) m"
  shows "map_get (js_env H) x notSet (upd_default m (updateMap (js_env H) fresh k v m)) =
    (if is_value H k x then (case v of None \<Rightarrow> notSet | Some y \<Rightarrow> Some y)
     else map_get (js_env H) x notSet m)"
proof -
  note key = js_objects.is_key [OF assms(1)]
  note wf' = key_equality.map_put_inv [OF key assms(2), of fresh k v]
  have "map_get (js_env H) x None (map_put (js_env H) fresh k v m) =
    assign (is_value H) k v (\<lambda>x. map_get (js_env H) x None m) x"
    using key_equality.map_put_lookup [OF key assms(2), of fresh k v] by (simp add: fun_eq_iff)
  then show ?thesis
    using key_equality.map_get_default [OF key wf', of x notSet]
      key_equality.map_get_default [OF key assms(2), of x notSet]
    by (simp add: map_put_def assign_def)
qed

theorem map_update_lookup_witness:
  "map_get (js_env plain_objects) (Num (NumInt 7)) None
     (upd_default (demo_map 20) (updateMap (js_env plain_objects) 1 (Num (NumInt 7)) None (demo_map 20))) = None"
  using map_update_lookup [OF plain_ok demo_wf, of "Num (NumInt 7)" None 20 1 "Num (NumInt 7)" None]
  by (simp add: is_value_def same_value_eq)

text \<open>
  C2. The invariant of \<open>Map\<close>: every update of a map, and \<open>clear\<close>, keep the trie well formed and
  the \<open>size\<close> field equal to the number of entries; \<open>size\<close> grows by one when an absent key is set,
  shrinks by one when a present key is removed, and the owner stays.
\<close>

theorem map_update_invariant:
  assumes "js_objects H" "wf_map (js_env H) m"
  shows "let m' = upd_default m (updateMap (js_env H) fresh k v m)
    in wf_map (js_env H) m' \<and> wf_map (js_env H) (upd_default m (map_clear m)) \<and>
    map_size m' = map_size m +
      (if map_has (js_env H) k m then (if v = None then -1 else 0) else (if v = None then 0 else 1)) \<and>
    map_owner m' = map_owner m"
proof -
  note key = js_objects.is_key [OF assms(1)]
  show ?thesis
    using key_equality.map_put_inv [OF key assms(2), of fresh k v]
      key_equality.put_size [OF key assms(2), of fresh k v]
      key_equality.updateMap_spec(3) [OF key assms(2), of fresh k v]
      key_equality.clear_spec(1) [OF key assms(2)]
    by (auto simp: Let_def map_put_def map_has_def split: option.splits)
qed

theorem map_update_invariant_witness:
  "wf_map (js_env plain_objects)
     (upd_default (demo_map 20) (updateMap (js_env plain_objects) 1 (Num NaN) (Some Null) (demo_map 20)))"
  using map_update_invariant [OF plain_ok demo_wf, of 20 1 "Num NaN" "Some Null"] by (simp add: Let_def)

text \<open>
  C3. Change detection: an update notices exactly whether the key already had the requested value, through every kind of
  node. Without an owner it then returns the receiver itself and otherwise another object, so
  that \<open>===\<close> between the two maps tells whether anything changed. With an owner it returns the receiver, as it was when
  nothing changed, and otherwise with \<open>__altered\<close> set and its cached hash dropped. (A \<open>NaN\<close> value is the exception of \<open>===\<close>:
  storing it again is a change.)
\<close>

theorem map_update_identity:
  assumes "js_objects H" "wf_map (js_env H) m" "v \<noteq> Some (Num NaN)"
  shows "if map_get (js_env H) k None m = v then updateMap (js_env H) fresh k v m = This m
    else if map_owner m = None then \<not> is_this (updateMap (js_env H) fresh k v m)
    else (\<exists>m'. updateMap (js_env H) fresh k v m = This m' \<and> map_altered m' \<and> map_hash m' = None)"
proof -
  note key = js_objects.is_key [OF assms(1)]
  have "updateMap (js_env H) fresh k v m = This m" if "map_get (js_env H) k None m = v"
    using key_equality.updateMap_same_iff(2) [OF key assms(2) that] assms(3) by (auto simp: strict_eq_def)
  then show ?thesis using key_equality.updateMap_changed [OF key assms(2), of k v fresh] by simp
qed

theorem map_update_identity_witness:
  "\<not> is_this (updateMap (js_env plain_objects) 5 (Num NaN) (Some Null) (demo_map 20)) \<longleftrightarrow>
     map_get (js_env plain_objects) (Num NaN) None (demo_map 20) \<noteq> Some Null"
  using map_update_identity [OF plain_ok demo_wf [of 20], where k = "Num NaN" and v = "Some Null" and fresh = 5] demo_owner
  by (simp split: if_splits)

text \<open>
  C4. Transient mutability is an optimisation only: performing a sequence of \<open>set\<close> and \<open>remove\<close>
  inside \<open>withMutations\<close>, on one mutable copy whose nodes are edited in place, gives the lookups
  and the size that performing it step by step on immutable maps gives, and the result has the
  owner of the receiver.
\<close>

definition run_updates ::
  "objects \<Rightarrow> nat \<Rightarrow> (jsval \<times> jsval option) list \<Rightarrow> (jsval, jsval) imap \<Rightarrow> (jsval, jsval) imap" where
  "run_updates H fresh ops m = fold (\<lambda>(k, v) m. upd_default m (updateMap (js_env H) fresh k v m)) ops m"

lemma run_updates_puts: "run_updates H n ops = keyed_store.puts (map_put (js_env H)) n ops" if "js_objects H"
  by (rule ext) (simp only: run_updates_def key_equality.map_puts_def [OF js_objects.is_key [OF that]], simp add: map_put_def [abs_def])

theorem map_with_mutations:
  assumes "js_objects H" "wf_map (js_env H) m"
  shows "let m' = upd_default m (map_withMutations fresh (run_updates H fresh ops) m)
    in map_get (js_env H) x notSet m' = map_get (js_env H) x notSet (run_updates H n ops m) \<and>
       map_size m' = map_size (run_updates H n ops m) \<and> map_owner m' = map_owner m"
proof -
  let ?E = "js_env H"
  let ?m' = "upd_default m (map_withMutations fresh (run_updates H fresh ops) m)"
  note key = js_objects.is_key [OF assms(1)]
  note run = run_updates_puts [OF assms(1)]
  note w = key_equality.withMutations_spec [OF key assms(2) key_equality.mutates_puts [OF key], of fresh fresh ops, folded run]
  note p = key_equality.map_puts_spec [OF key assms(2), of n ops, folded run]
  have get: "(\<lambda>x. map_get ?E x None ?m') = (\<lambda>x. map_get ?E x None (run_updates H n ops m))"
    using w(2) p by simp
  then have "map_size ?m' = map_size (run_updates H n ops m)"
    using key_equality.map_card [OF key w(1)] p by (metis (no_types))
  moreover have "map_get ?E x notSet ?m' = map_get ?E x notSet (run_updates H n ops m)"
    using key_equality.map_get_default [OF key] w(1) p get by (metis (no_types))
  ultimately show ?thesis using w(3) by (simp add: Let_def)
qed

theorem map_with_mutations_witness:
  "let m' = upd_default (demo_map 20) (map_withMutations 5 (run_updates plain_objects 5 [(Null, Some Null), (Num NaN, None)]) (demo_map 20))
   in map_owner m' = None"
  using map_with_mutations [OF plain_ok demo_wf, of 20 5 "[(Null, Some Null), (Num NaN, None)]"]
  by (simp add: Let_def demo_owner)

text \<open>
  C5. \<open>merge\<close> and \<open>mergeWith\<close>: merging iterables into a map has the effect of folding all their
  entries, in order, into the lookup function: an entry overwrites, or is combined with the
  existing value by the merger; the shortcuts (nothing to merge, a single iterable merged into the
  empty map) make no difference, provided that a merger used on the empty map sees no key twice in
  one iterable (the shortcut never calls it).
\<close>

theorem map_merge_lookup:
  assumes "js_objects H" "wf_map (js_env H) m"
    and "map_size m = 0 \<and> merger \<noteq> None \<longrightarrow> (\<forall>es \<in> set iters. distinct_keys (js_env H) es)"
  shows "let m' = upd_default m (mergeIntoCollectionWith (js_env H) fresh merger iters m)
    in wf_map (js_env H) m' \<and>
      (\<lambda>x. map_get (js_env H) x None m') =
        fold (\<lambda>(k, v) f. assign (is_value H) k
            (Some (case (merger, f k) of (Some mg, Some x) \<Rightarrow> mg x v k | _ \<Rightarrow> v)) f)
          (concat iters) (\<lambda>x. map_get (js_env H) x None m)"
proof -
  note key = js_objects.is_key [OF assms(1)]
  have step: "key_equality.merge_lookup (js_env H) merger =
     (\<lambda>(k, v) f. assign (is_value H) k (Some (case (merger, f k) of (Some mg, Some x) \<Rightarrow> mg x v k | _ \<Rightarrow> v)) f)"
    by (intro ext) (auto simp: key_equality.merge_lookup_def [OF key] split: option.splits)
  have "fold (fold g) xss f = fold g (concat xss) f" for g :: "jsval \<times> jsval \<Rightarrow> (jsval \<Rightarrow> jsval option) \<Rightarrow> _" and xss f
    by (induction xss arbitrary: f) auto
  then show ?thesis
    using key_equality.mergeInto_spec [OF key assms(2), of merger iters fresh] assms(3) unfolding step
    by (simp add: Let_def)
qed

theorem map_merge_lookup_witness:
  "map_get (js_env plain_objects) Null None
     (upd_default (demo_map 20) (mergeIntoCollectionWith (js_env plain_objects) 3 (Some (\<lambda>x v k. x))
        [[(Null, Bool True)], [(Null, Undefined)]] (demo_map 20))) \<noteq> None"
proof -
  let ?iters = "[[(Null, Bool True)], [(Null, Undefined)]]" and ?mg = "Some (\<lambda>x v k. x)"
  have c: "map_size (demo_map 20) = 0 \<and> ?mg \<noteq> None \<longrightarrow> (\<forall>es \<in> set ?iters. distinct_keys (js_env plain_objects) es)"
    by simp
  note r = map_merge_lookup [OF plain_ok demo_wf c, of 3, unfolded Let_def, THEN conjunct2, THEN fun_cong, of Null]
  show ?thesis unfolding r by (simp add: assign_def is_value_def same_value_eq)
qed

text \<open>
  C6. Iteration: \<open>__iterate\<close> passes exactly the entries of the map to the callback, forwards or
  backwards, until it answers \<open>false\<close>, and returns the number of calls; the entries are \<open>size\<close>
  many, have pairwise different keys, and are the pairs that \<open>get\<close> answers.
\<close>

theorem map_iterate_entries:
  assumes "js_objects H" "wf_map (js_env H) m"
  shows "map_iterate fn reverse m s = visit fn (directed reverse (map_entries m)) s \<and>
    int (length (map_entries m)) = map_size m \<and> distinct_keys (js_env H) (map_entries m) \<and>
    (map_get (js_env H) k None m = Some v \<longleftrightarrow> (\<exists>k'. (k', v) \<in> set (map_entries m) \<and> is_value H k k'))"
proof -
  note key = js_objects.is_key [OF assms(1)]
  have d: "distinct_keys (js_env H) (map_entries m)" by (rule key_equality.map_distinct [OF key assms(2)])
  have "map_get (js_env H) k None m = Some v \<longleftrightarrow> (\<exists>e \<in> set (map_entries m). is_value H k (fst e) \<and> snd e = v)"
    unfolding key_equality.map_get_entries [OF key assms(2)]
    using key_equality.entry_get_iff [OF key d, of k v] by simp
  moreover have "int (length (map_entries m)) = map_size m" using assms(2) by (simp add: wf_map_def)
  ultimately show ?thesis using d map_iterate_visit by force
qed

theorem map_iterate_entries_witness:
  "snd (map_iterate (\<lambda>v k s. (s + 1, False)) True (demo_map 20) (0::nat)) = length (map_entries (demo_map 20))"
  using map_iterate_entries [OF plain_ok demo_wf, of "\<lambda>v k s. (s + 1, False)" True 20 "0::nat"]
  by (simp add: visit_all)

text \<open>
  C7. The iterator protocol and the callback protocol agree: calling \<open>next\<close> of a \<open>MapIterator\<close> \<open>n\<close>
  times delivers the first \<open>n\<close> entries that \<open>__iterate\<close> visits, in both directions, and then
  \<open>done\<close>; in particular the loop over the stack of frames always ends.
\<close>

theorem map_iterator_agrees:
  "iterator_take n reverse (new_iterator m) = take n (directed reverse (map_entries m)) \<and>
   map_iterate fn reverse m s = visit fn (iterator_take (length (map_entries m)) reverse (new_iterator m)) s"
  by (simp add: iterator_take_pending new_iterator_pending map_iterate_visit)

text \<open>
  C8. A well-formed hash trie has at most seven levels of inner nodes above its leaves, since seven
  groups of five bits exhaust a hash: the cost of \<open>get\<close> and \<open>set\<close> is bounded, and no chain of
  nodes grows without end.
\<close>

theorem trie_depth_seven:
  assumes "wf_trie (js_env H) 0 (\<lambda>_. True) t"
  shows "trie_depth t \<le> 7"
  using trie_depth_bound [of "js_env H" 0 "\<lambda>_. True" t] assms by simp

theorem trie_depth_seven_witness:
  "trie_depth (mergeIntoNode None 0 (hash_value plain_objects (Num (NumInt 33))) (Num (NumInt 33), Null)
     (ValueNode None (hash_value plain_objects (Num (NumInt 1))) (Num (NumInt 1), Null))) \<le> 7"
proof -
  have h: "hash_value plain_objects (Num (NumInt n)) = smi (word_of_int n)" if "- (2 ^ 31) \<le> n" "n < 2 ^ 31" for n
    using hashNumber_int [OF that] by (simp add: hash_value_def hash_after_def)
  have ne: "hash_value plain_objects (Num (NumInt 1)) \<noteq> hash_value plain_objects (Num (NumInt 33))"
    by (simp add: h smi_def ushr32_def)
  have "wf_trie (js_env plain_objects) 0 (\<lambda>_. True) (mergeIntoNode None 0 (js_hash (js_env plain_objects) (Num (NumInt 33))) (Num (NumInt 33), Null)
     (ValueNode None (hash_value plain_objects (Num (NumInt 1))) (Num (NumInt 1), Null)))"
    by (rule plain.key.merge_spec [THEN conjunct1]) (simp_all add: ne)
  from trie_depth_seven [OF this] show ?thesis by simp
qed

text \<open>
  C9. Copy on write: an update whose owner marks no node of the trie (the owner of a fresh mutable
  copy, or no owner at all) never edits a node in place: if it returns the receiver, the receiver
  is unchanged.
\<close>

theorem foreign_owner_copies:
  assumes "own \<notin> trie_owners t \<or> own = None"
    and "fst (trie_update (js_env H) own shift kh k v t) = This t'"
  shows "t' = t"
  by (rule foreign_owner_keeps [OF assms])

theorem foreign_owner_copies_witness:
  "fst (trie_update (js_env plain_objects) (Some 3) 0 None Null (Some Null) (ValueNode (Some 2) 0 (Null, Null)))
     = This (ValueNode (Some 2) 0 (Null, Null))"
proof -
  let ?t = "ValueNode (Some 2) 0 (Null, Null)"
  have "fst (trie_update (js_env plain_objects) (Some 3) 0 None Null (Some Null) ?t) = This ?t"
    by (simp add: is_value_def same_value_eq strict_eq_def)
  with foreign_owner_copies [of "Some 3" ?t plain_objects 0 None Null "Some Null" ?t] show ?thesis by simp
qed

end
