(* ===== verification/JS_Props.thy ===== *)
theory JS_Props
  imports JS_Keys
begin

text \<open>
  The properties of \<open>is\<close>, \<open>hash\<close> and the bit-level helpers: the laws that make values usable as
  keys, the range and the closed form of the hashes, the cache of string hashes, the numbering of
  objects.
\<close>

text \<open>
  C10. For objects that keep the documented contract, \<open>is\<close> is an equivalence relation on values, it
  extends \<open>===\<close> by equating \<open>NaN\<close> with itself, and values equated by \<open>is\<close> have the same hash.
\<close>

theorem is_contract:
  assumes "js_objects H"
  shows "equivp (is_value H) \<and> (strict_eq x y \<longrightarrow> is_value H x y) \<and> is_value H (Num NaN) (Num NaN) \<and>
    (is_value H x y \<longrightarrow> hash_value H x = hash_value H y)"
proof -
  note key = js_objects.is_key [OF assms]
  have "equivp (is_value H)"
  proof (rule equivpI)
    show "reflp (is_value H)" using key_equality.is_refl [OF key] by (auto intro: reflpI)
    show "symp (is_value H)" using key_equality.is_sym [OF key] by (auto intro: sympI)
    show "transp (is_value H)" using key_equality.is_trans [OF key] by (auto intro: transpI)
  qed
  moreover have "is_value H x y \<longrightarrow> hash_value H x = hash_value H y" using key_equality.is_hash [OF key] by simp
  ultimately show ?thesis by (auto simp: is_value_def same_value_eq strict_eq_def)
qed

theorem is_contract_witness:
  "is_value (date_objects (\<lambda>_. 5)) (Obj 1) (Obj 2) \<and>
   hash_value (date_objects (\<lambda>_. 5)) (Obj 1) = hash_value (date_objects (\<lambda>_. 5)) (Obj 2)"
proof -
  have i: "is_value (date_objects (\<lambda>_. 5)) (Obj 1) (Obj 2)"
    by (simp add: is_value_def same_value_eq date_objects_def)
  with is_contract [OF dates.js_objects_axioms, of "\<lambda>_. 5" "Obj 1" "Obj 2"] show ?thesis by blast
qed

text \<open>
  The hash of a string is the polynomial of its code units in 31, modulo \<open>2 ^ 32\<close>, with its
  second highest bit replaced by the sign: the Horner loop with its wrap-around at every turn
  computes the closed form. It lies in the range of a signed 31-bit integer.
\<close>

theorem hashString_polynomial:
  "hashString s = smi (\<Sum>i<length s. 31 ^ (length s - 1 - i) * ucast (s ! i)) \<and>
   - (2 ^ 30) \<le> sint (hashString s) \<and> sint (hashString s) < 2 ^ 30"
proof -
  have "hash_loop s 0 = (\<Sum>i<length s. 31 ^ (length s - 1 - i) * ucast (s ! i))"
    using hash_loop_poly [of s 0] by simp
  then show ?thesis using smi_range by (simp only: hashString_def)
qed

text \<open>
  The polyfill of \<open>Math.imul\<close>, which multiplies 16-bit halves to stay below \<open>2 ^ 53\<close>, is
  multiplication modulo \<open>2 ^ 32\<close>.
\<close>

theorem imul_polyfill: "word_of_int (imul a b) = a * b"
  using imul_times [of a b] by (simp add: imul32_def)

lemma hash_string_value_cases:
  assumes "cache_ok st" "hash_string_value s st = (h, st')"
  shows "cache_ok st' \<and> h = (if s = js_str ''propertyIsEnumerable'' then InheritedFunction else CachedHash (hashString s))"
  using assms cachedHashString_ok [of st s h st']
  by (auto simp: hash_string_value_def STRING_HASH_CACHE_MIN_STRLEN_def js_str_def split: if_splits)

lemma hash_strings_ok:
  "cache_ok st \<Longrightarrow> hash_strings ss st = (hs, st') \<Longrightarrow>
   cache_ok st' \<and> length hs = length ss \<and>
   (\<forall>i<length ss. hs ! i = (if ss ! i = js_str ''propertyIsEnumerable'' then InheritedFunction else CachedHash (hashString (ss ! i))))"
proof (induction ss arbitrary: st hs)
  case (Cons s ss)
  obtain h st1 where h: "hash_string_value s st = (h, st1)" by force
  obtain hs1 where hs1: "hash_strings ss st1 = (hs1, st')" "hs = h # hs1"
    using Cons.prems(2) h by (auto split: prod.splits)
  note s = hash_string_value_cases [OF Cons.prems(1) h]
  from Cons.IH [OF _ hs1(1)] s show ?case by (auto simp: hs1(2) nth_Cons')
qed simp

text \<open>
  C20. The cache of string hashes cannot be observed: whatever strings were hashed before, in whatever order and however often the
  cache was emptied in between, every string gets the hash that \<open>hashString\<close> computes, except the one name that every object
  inherits and that is long enough to be looked up (\<open>propertyIsEnumerable\<close>), whose cached hash is always the
  inherited function; the counter of the cache is its number of strings, and it never holds more than 255.
\<close>

theorem string_cache_transparent:
  assumes "hash_strings ss empty_cache = (hs, st)" "i < length ss"
  shows "hs ! i = (if ss ! i = js_str ''propertyIsEnumerable'' then InheritedFunction else CachedHash (hashString (ss ! i))) \<and>
    STRING_HASH_CACHE_SIZE st = card (dom (stringHashCache st)) \<and> card (dom (stringHashCache st)) \<le> 255"
  using hash_strings_ok [OF cache_ok_empty assms(1)] assms(2)
  by (auto simp: cache_ok_def STRING_HASH_CACHE_MAX_SIZE_def)

theorem string_cache_transparent_witness:
  "\<exists>hs st. hash_strings [js_str ''abcdefghijklmnopq'', js_str ''propertyIsEnumerable''] empty_cache = (hs, st) \<and>
     hs ! 0 = CachedHash (hashString (js_str ''abcdefghijklmnopq'')) \<and> hs ! 1 = InheritedFunction"
proof -
  obtain hs st where r: "hash_strings [js_str ''abcdefghijklmnopq'', js_str ''propertyIsEnumerable''] empty_cache = (hs, st)" by force
  then show ?thesis using string_cache_transparent [OF r, of 0] string_cache_transparent [OF r, of 1] by (simp add: js_str_def)
qed

text \<open>
  \<open>hashJSObj\<close> hands out hashes by identity: as long as fewer than \<open>2 ^ 30\<close> different objects
  were hashed, two objects have the same hash exactly when they are the same object, no matter in
  which order and how often they are hashed.
\<close>

theorem hashJSObj_identity:
  assumes "hashJSObjs as empty_uids = (hs, st)" "card (set as) < 2 ^ 30" "i < length as" "j < length as"
  shows "hs ! i = hs ! j \<longleftrightarrow> as ! i = as ! j"
proof -
  have ok: "uids_ok empty_uids" by (simp add: uids_ok_def empty_uids_def)
  have "card (dom (weakMap empty_uids) \<union> set as) < 2 ^ 30" using assms(2) by (simp add: empty_uids_def)
  note r = hashJSObjs_ok [OF ok this assms(1)]
  have len: "length hs = length as" using r by (metis length_map)
  have w: "weakMap st (as ! n) = Some (hs ! n)" if "n < length as" for n
    using r that len by (metis nth_map)
  have "inj_on (weakMap st) (dom (weakMap st))" using r by (simp add: uids_ok_def)
  then show ?thesis using w [OF assms(3)] w [OF assms(4)] by (auto simp: inj_on_def dom_def)
qed

theorem hashJSObj_identity_witness:
  "fst (hashJSObjs [4, 9, 4] empty_uids) ! 0 \<noteq> fst (hashJSObjs [4, 9, 4] empty_uids) ! 1"
proof -
  obtain hs st where r: "hashJSObjs [4, 9, 4] empty_uids = (hs, st)" by force
  have "card (set [4, 9, 4 :: nat]) < 2 ^ 30" by (simp add: card_insert_if)
  from hashJSObj_identity [OF r this, of 0 1] show ?thesis by (simp add: r del: hashJSObjs.simps)
qed

text \<open>
  C11. The parallel bit count of \<open>popCount\<close>, on which every packed node's child index depends,
  counts the ones of its argument; the packed index of a bit is the number of set bits below it.
\<close>

theorem popCount_counts:
  assumes "i < 32"
  shows "unat (popCount w) = card {j. j < 32 \<and> bit w j} \<and>
    unat (popCount (w AND (bitpos i - 1))) = card {j. j < i \<and> bit w j}"
proof -
  have c: "length (filter (bit w) [0..<n]) = card {j. j < n \<and> bit w j}" for n
  proof -
    have "card (set (filter (bit w) [0..<n])) = length (filter (bit w) [0..<n])" by (rule distinct_card) simp
    moreover have "set (filter (bit w) [0..<n]) = {j. j < n \<and> bit w j}" by auto
    ultimately show ?thesis by simp
  qed
  have "unat (popCount w) = length (filter (bit w) [0..<32])"
    unfolding popCount_ones ones_filter by (simp add: bit_unsigned_iff [abs_def] cong: filter_cong)
  moreover have "unat (popCount (w AND (bitpos i - 1))) = length (filter (bit w) [0..<i])"
    using packed_index_eq [OF assms, of w] by (simp only: packed_index_def)
  ultimately show ?thesis by (simp only: c)
qed

theorem popCount_counts_witness: "unat (popCount (0x80000001 AND (bitpos 31 - 1))) = card {j. j < 31 \<and> bit (0x80000001 :: int32) j}"
  using popCount_counts [of 31 "0x80000001"] by simp

end
