(* ===== verification/Imm_List.thy ===== *)
theory Imm_List
  imports Imm_Map
begin

text \<open>
  The class \<open>List\<close> of \<open>static/drf-yasg/immutable.js\<close>: a vector trie of width 32 with a separate
  tail. A list addresses raw slots from \<open>_origin\<close> up to \<open>_capacity\<close>; slots from the tail offset on
  are in the tail node, the others in the trie under \<open>_root\<close>. Elements are options, \<open>None\<close> being
  \<open>undefined\<close>, which an array also answers for a hole or past its end. Indices are the integers
  that \<open>wrapIndex\<close> returns; every \<open>>>>\<close>, \<open><<\<close> and \<open>& MASK\<close> is the 32-bit operator. The loops that
  raise the trie are partial functions: with 32-bit shifts they need not end, and then the value
  is \<open>None\<close>. A node function tells by a Boolean whether it returned the node it was given.
\<close>

datatype 'v vnode = VLeaf owner "'v option list" | VInner owner "'v vnode option list"

record 'v ilist =
  l_size :: int
  l_origin :: int
  l_capacity :: int
  l_level :: nat
  l_root :: "'v vnode option"
  l_tail :: "'v vnode option"
  l_owner :: owner
  l_hash :: "int32 option"
  l_altered :: bool

section \<open>Array access\<close>

definition elem :: "'a option list \<Rightarrow> nat \<Rightarrow> 'a option" where
  \<comment> \<open>\<open>array[i]\<close>\<close>
  "elem a i = (if i < length a then a ! i else None)"

definition put_elem :: "'a option list \<Rightarrow> nat \<Rightarrow> 'a option \<Rightarrow> 'a option list" where
  \<comment> \<open>\<open>array[i] = x\<close>, which extends a shorter array with holes\<close>
  "put_elem a i x = (if i < length a then a[i := x] else a @ replicate (i - length a) None @ [x])"

definition slot_index :: "int \<Rightarrow> nat \<Rightarrow> nat" where
  \<comment> \<open>\<open>(index >>> level) & MASK\<close>\<close>
  "slot_index index level = unat (ushr32 (word_of_int index) level AND MASK)"

definition getTailOffset :: "int \<Rightarrow> int" where
  "getTailOffset sz = (if sz < int SIZE then 0 else jsl (jsr (sz - 1) SHIFT) SHIFT)"

definition makeList ::
  "int \<Rightarrow> int \<Rightarrow> nat \<Rightarrow> 'v vnode option \<Rightarrow> 'v vnode option \<Rightarrow> owner \<Rightarrow> int32 option \<Rightarrow> 'v ilist" where
  "makeList origin capacity level root tail own hash =
     \<lparr>l_size = capacity - origin, l_origin = origin, l_capacity = capacity, l_level = level, l_root = root,
      l_tail = tail, l_owner = own, l_hash = hash, l_altered = False\<rparr>"

definition emptyList :: "'v ilist" where
  "emptyList = makeList 0 0 SHIFT None None None None"

section \<open>Nodes\<close>

definition editableInner :: "'v vnode option \<Rightarrow> owner \<Rightarrow> owner \<times> 'v vnode option list \<times> bool" where
  \<comment> \<open>\<open>editableVNode\<close> on a node whose array holds nodes: its owner, its array and whether it is the same node\<close>
  "editableInner node own =
     (case node of
        Some (VInner o' a) \<Rightarrow> if editable own o' then (o', a, True) else (own, a, False)
      | _ \<Rightarrow> (own, [], False))"

definition editableLeaf :: "'v vnode option \<Rightarrow> owner \<Rightarrow> owner \<times> 'v option list \<times> bool" where
  \<comment> \<open>\<open>editableVNode\<close> on a node whose array holds elements\<close>
  "editableLeaf node own =
     (case node of
        Some (VLeaf o' a) \<Rightarrow> if editable own o' then (o', a, True) else (own, a, False)
      | _ \<Rightarrow> (own, [], False))"

fun inner_array :: "'v vnode option \<Rightarrow> 'v vnode option list" where
  "inner_array (Some (VInner _ a)) = a"
| "inner_array _ = []"

fun leaf_array :: "'v vnode option \<Rightarrow> 'v option list" where
  "leaf_array (Some (VLeaf _ a)) = a"
| "leaf_array _ = []"

fun array_length :: "'v vnode \<Rightarrow> nat" where
  "array_length (VLeaf _ a) = length a"
| "array_length (VInner _ a) = length a"

definition clear_below :: "'a option list \<Rightarrow> nat \<Rightarrow> 'a option list" where
  \<comment> \<open>\<open>for (ii = 0; ii < originIndex; ii++) array[ii] = undefined\<close>\<close>
  "clear_below a n = map (\<lambda>i. if i < n then None else a ! i) [0..<length a]"

lemma elem_size [termination_simp]: "elem a i = Some x \<Longrightarrow> f x < Suc (size_list (size_option f) a)"
  by (auto simp: elem_def split: if_splits intro!: nth_opt_size_option [of a i x f])

fun removeBefore :: "owner \<Rightarrow> nat \<Rightarrow> int \<Rightarrow> 'v vnode \<Rightarrow> 'v vnode \<times> bool" where
  \<comment> \<open>the first test parses as \<open>index === level ? 1 << level : (0 || this.array.length === 0)\<close>\<close>
  "removeBefore own level index (VLeaf o' a) =
     (if (if index = int level then jsl 1 level \<noteq> 0 else a = []) then (VLeaf o' a, True)
      else let originIndex = slot_index index level
           in if originIndex \<ge> length a then (VLeaf own [], False)
              else if originIndex = 0 then (VLeaf o' a, True)
              else let (o1, a1, same) = editableLeaf (Some (VLeaf o' a)) own
                   in (VLeaf o1 (clear_below a1 originIndex), same))"
| "removeBefore own level index (VInner o' a) =
     (if (if index = int level then jsl 1 level \<noteq> 0 else a = []) then (VInner o' a, True)
      else let originIndex = slot_index index level
           in if originIndex \<ge> length a then (VInner own [], False)
              else let removingFirst = (originIndex = 0)
                   in case elem a originIndex of
                        None \<Rightarrow>
                          if removingFirst then (VInner o' a, True)
                          else let (o1, a1, same) = editableInner (Some (VInner o' a)) own
                               in (VInner o1 (clear_below a1 originIndex), same)
                      | Some oldChild \<Rightarrow>
                          let (newChild, unchanged) = removeBefore own (level - SHIFT) index oldChild
                          in if unchanged \<and> removingFirst then (VInner o' (a[originIndex := Some newChild]), True)
                             else let (o1, a1, same) = editableInner (Some (VInner o' a)) own
                                  in (VInner o1 ((clear_below a1 originIndex)[originIndex := Some newChild]), same))"

fun removeAfter :: "owner \<Rightarrow> nat \<Rightarrow> int \<Rightarrow> 'v vnode \<Rightarrow> 'v vnode \<times> bool" where
  "removeAfter own level index (VLeaf o' a) =
     (if index = (if level \<noteq> 0 then jsl 1 level else 0) \<or> a = [] then (VLeaf o' a, True)
      else let sizeIndex = slot_index (index - 1) level
           in if sizeIndex \<ge> length a then (VLeaf o' a, True)
              else let (o1, a1, same) = editableLeaf (Some (VLeaf o' a)) own
                   in (VLeaf o1 (take (sizeIndex + 1) a1), same))"
| "removeAfter own level index (VInner o' a) =
     (if index = (if level \<noteq> 0 then jsl 1 level else 0) \<or> a = [] then (VInner o' a, True)
      else let sizeIndex = slot_index (index - 1) level
           in if sizeIndex \<ge> length a then (VInner o' a, True)
              else case elem a sizeIndex of
                     None \<Rightarrow>
                       if sizeIndex = length a - 1 then (VInner o' a, True)
                       else let (o1, a1, same) = editableInner (Some (VInner o' a)) own
                            in (VInner o1 (take (sizeIndex + 1) a1), same)
                   | Some oldChild \<Rightarrow>
                       let (newChild, unchanged) = removeAfter own (level - SHIFT) index oldChild
                       in if unchanged \<and> sizeIndex = length a - 1
                          then (VInner o' (a[sizeIndex := Some newChild]), True)
                          else let (o1, a1, same) = editableInner (Some (VInner o' a)) own
                               in (VInner o1 ((take (sizeIndex + 1) a1)[sizeIndex := Some newChild]), same))"

function updateVNode ::
  "('v \<Rightarrow> 'v \<Rightarrow> bool) \<Rightarrow> 'v vnode option \<Rightarrow> owner \<Rightarrow> nat \<Rightarrow> int \<Rightarrow> 'v option \<Rightarrow> 'v vnode option \<times> bool \<times> bool" where
  \<comment> \<open>the result, whether it is the given node, and \<open>didAlter\<close>; \<open>eqv\<close> is \<open>===\<close> on elements\<close>
  "updateVNode eqv node own level index v =
     (let idx = slot_index index level;
          nodeHas = (node \<noteq> None \<and> idx < (case node of None \<Rightarrow> 0 | Some n \<Rightarrow> array_length n))
      in if \<not> nodeHas \<and> v = None then (node, True, False)
         else if level > 0
         then let lowerNode = elem (inner_array node) idx;
                  (newLowerNode, unchanged, alt) = updateVNode eqv lowerNode own (level - SHIFT) index v
              in if unchanged
                 then (case node of
                         Some (VInner o' a) \<Rightarrow> (Some (VInner o' (if idx < length a then a[idx := newLowerNode] else a)), True, alt)
                       | _ \<Rightarrow> (node, True, alt))
                 else let (o1, a1, same) = editableInner node own
                      in (Some (VInner o1 (put_elem a1 idx newLowerNode)), same, alt)
         else if nodeHas \<and> rel_option eqv (elem (leaf_array node) idx) v then (node, True, False)
         else let (o1, a1, same) = editableLeaf node own;
                  a2 = (if v = None \<and> idx + 1 = length a1 then pop a1 else put_elem a1 idx v)
              in (Some (VLeaf o1 a2), same, True))"
  by pat_completeness auto
termination by (relation "measure (\<lambda>(eqv, node, own, level, index, v). level)") (auto simp: SHIFT_def)

declare updateVNode.simps [simp del]

section \<open>Reading\<close>

function descend :: "'v vnode option \<Rightarrow> nat \<Rightarrow> int \<Rightarrow> 'v vnode option" where
  \<comment> \<open>the loop of \<open>listNodeFor\<close>\<close>
  "descend node level rawIndex =
     (if node \<noteq> None \<and> level > 0
      then descend (elem (inner_array node) (slot_index rawIndex level)) (level - SHIFT) rawIndex
      else node)"
  by pat_completeness auto
termination by (relation "measure (\<lambda>(node, level, i). level)") (auto simp: SHIFT_def)

declare descend.simps [simp del]

definition listNodeFor :: "'v ilist \<Rightarrow> int \<Rightarrow> 'v vnode option" where
  "listNodeFor l rawIndex =
     (if rawIndex \<ge> getTailOffset (l_capacity l) then l_tail l
      else if rawIndex < jsl 1 (l_level l + SHIFT) then descend (l_root l) (l_level l) rawIndex
      else None)"

definition list_get :: "int \<Rightarrow> 'v option \<Rightarrow> 'v ilist \<Rightarrow> 'v option" where
  "list_get index notSet l =
     (let index = (if index < 0 then l_size l + index else index)
      in if 0 \<le> index \<and> index < l_size l
         then (let raw = index + l_origin l
               in elem (leaf_array (listNodeFor l raw)) (slot_index raw 0))
         else notSet)"

end
