(* ===== verification/JS_Index.thy ===== *)
theory JS_Index
  imports JS_Number
begin

text \<open>
  The index helpers that all collections of \<open>static/drf-yasg/immutable.js\<close> share: \<open>arrCopy\<close>,
  \<open>wrapIndex\<close> and the resolution of slice bounds. A size is a JavaScript number or \<open>undefined\<close>
  (\<open>None\<close>), since the size of a lazy sequence may be infinite or unknown.
\<close>

definition arrCopy :: "'a list \<Rightarrow> nat \<Rightarrow> 'a list" where
  "arrCopy arr offset = map (\<lambda>ii. arr ! (ii + offset)) [0..<length arr - offset]"

lemma arrCopy_drop: "arrCopy arr offset = drop offset arr"
  by (rule nth_equalityI) (auto simp: arrCopy_def add.commute)

section \<open>Array indices\<close>

datatype index_arg = NumArg jsnum | StrArg string
  \<comment> \<open>the argument of \<open>get\<close> and \<open>set\<close>: a number, or a string that may spell an array index\<close>

fun decimal_value :: "string \<Rightarrow> nat \<Rightarrow> nat option" where
  \<comment> \<open>the value of a string of digits\<close>
  "decimal_value [] acc = Some acc"
| "decimal_value (c # cs) acc =
     (if of_char c \<in> {48..57 :: nat} then decimal_value cs (10 * acc + (of_char c - 48)) else None)"

fun decimal :: "nat \<Rightarrow> string" where
  \<comment> \<open>\<open>'' + n\<close>\<close>
  "decimal n = (if n < 10 then [char_of (48 + n)] else decimal (n div 10) @ [char_of (48 + n mod 10)])"

declare decimal.simps [simp del]

definition array_index :: "string \<Rightarrow> nat option" where
  \<comment> \<open>a string other than digits has a \<open>ToUint32\<close> that does not print back to it\<close>
  "array_index s =
     (case (if s = [] then None else decimal_value s 0) of
        None \<Rightarrow> None
      | Some n \<Rightarrow>
          (let uint32Index = n mod 2 ^ 32
           in if decimal uint32Index \<noteq> s \<or> uint32Index = 4294967295 then None else Some uint32Index))"

definition wrapIndex :: "jsnum \<Rightarrow> index_arg \<Rightarrow> jsnum" where
  \<comment> \<open>on an iterable whose ensured size is the first argument\<close>
  "wrapIndex iter_size index =
     (case index of
        StrArg s \<Rightarrow> (case array_index s of None \<Rightarrow> NaN | Some n \<Rightarrow> NumInt (int n))
      | NumArg i \<Rightarrow> if num_less i (NumInt 0) then num_add iter_size i else i)"

lemma decimal_value_append:
  "decimal_value (s @ t) acc = (case decimal_value s acc of None \<Rightarrow> None | Some a \<Rightarrow> decimal_value t a)"
  by (induction s arbitrary: acc) auto

lemma decimal_value_decimal: "decimal_value (decimal n) 0 = Some n"
proof (induction n rule: decimal.induct)
  case (1 n)
  have d: "decimal_value [char_of (48 + m)] a = Some (10 * a + m)" if "m < 10" for m a :: nat
    using that by (simp add: of_char_of take_bit_nat_eq_self_iff)
  show ?case
    using 1 d [of n 0] d [of "n mod 10" "n div 10"]
    by (subst decimal.simps) (auto simp: decimal_value_append simp del: decimal_value.simps)
qed

lemma decimal_not_Nil [simp]: "decimal n \<noteq> []"
  by (subst decimal.simps) simp

lemma array_index_iff: "array_index s = Some n \<longleftrightarrow> n < 4294967295 \<and> s = decimal n"
proof
  assume "array_index s = Some n"
  then show "n < 4294967295 \<and> s = decimal n"
    using mod_less_divisor [of "2 ^ 32"]
    by (fastforce simp: array_index_def Let_def split: option.splits if_splits)
next
  assume "n < 4294967295 \<and> s = decimal n"
  then show "array_index s = Some n" by (simp add: array_index_def decimal_value_decimal)
qed

section \<open>Slice bounds\<close>

definition num_geq :: "jsnum \<Rightarrow> jsnum \<Rightarrow> bool" where
  "num_geq a b \<longleftrightarrow> num_leq b a"

definition wholeSlice :: "jsnum option \<Rightarrow> jsnum option \<Rightarrow> jsnum option \<Rightarrow> bool" where
  "wholeSlice begin end' size' \<longleftrightarrow>
     (begin = Some (NumInt 0) \<or>
        (case size' of None \<Rightarrow> False
         | Some n \<Rightarrow> (case begin of None \<Rightarrow> False | Some b \<Rightarrow> num_leq b (num_neg n)))) \<and>
     (end' = None \<or>
        (case size' of None \<Rightarrow> False
         | Some n \<Rightarrow> (case end' of None \<Rightarrow> True | Some e \<Rightarrow> num_geq e n)))"

definition resolveIndex :: "jsnum option \<Rightarrow> jsnum option \<Rightarrow> jsnum option \<Rightarrow> jsnum option" where
  \<comment> \<open>\<open>undefined + index\<close> is \<open>NaN\<close>\<close>
  "resolveIndex index size' defaultIndex =
     (case index of
        None \<Rightarrow> defaultIndex
      | Some i \<Rightarrow>
          if num_less i (NumInt 0)
          then Some (num_max (NumInt 0) (case size' of None \<Rightarrow> NaN | Some n \<Rightarrow> num_add n i))
          else (case size' of None \<Rightarrow> Some i | Some n \<Rightarrow> Some (num_min n i)))"

definition resolveBegin :: "jsnum option \<Rightarrow> jsnum option \<Rightarrow> jsnum option" where
  "resolveBegin begin size' = resolveIndex begin size' (Some (NumInt 0))"

definition resolveEnd :: "jsnum option \<Rightarrow> jsnum option \<Rightarrow> jsnum option" where
  "resolveEnd end' size' = resolveIndex end' size' size'"

text \<open>On integers: the bounds that \<open>slice\<close> of a collection of known finite size uses.\<close>

definition begin_of :: "int option \<Rightarrow> int \<Rightarrow> int" where
  "begin_of begin n = (case begin of None \<Rightarrow> 0 | Some b \<Rightarrow> if b < 0 then max 0 (n + b) else min n b)"

definition end_of :: "int option \<Rightarrow> int \<Rightarrow> int" where
  "end_of end' n = (case end' of None \<Rightarrow> n | Some e \<Rightarrow> if e < 0 then max 0 (n + e) else min n e)"

lemma NumInt_less [simp]: "num_less (NumInt a) (NumInt b) \<longleftrightarrow> a < b"
  by (simp add: NumInt_def)

lemma NumInt_leq [simp]: "num_leq (NumInt a) (NumInt b) \<longleftrightarrow> a \<le> b"
  by (auto simp: num_leq_def num_eq_def NumInt_def)

lemma NumInt_add [simp]: "num_add (NumInt a) (NumInt b) = NumInt (a + b)"
  by (simp add: NumInt_def)

lemma NumInt_neg [simp]: "num_neg (NumInt a) = NumInt (- a)"
  by (simp add: NumInt_def)

lemma NumInt_inject [simp]: "NumInt a = NumInt b \<longleftrightarrow> a = b"
  by (simp add: NumInt_def)

lemma NumInt_not_NaN [simp]: "NumInt a \<noteq> NaN"
  by (simp add: NumInt_def)

lemma NumInt_max [simp]: "num_max (NumInt a) (NumInt b) = NumInt (max a b)"
  by (simp add: num_max_def)

lemma NumInt_min [simp]: "num_min (NumInt a) (NumInt b) = NumInt (min a b)"
  by (simp add: num_min_def)

lemma resolveBegin_finite: "resolveBegin (map_option NumInt b) (Some (NumInt n)) = Some (NumInt (begin_of b n))"
  by (cases b) (simp_all add: resolveBegin_def resolveIndex_def begin_of_def)

lemma resolveEnd_finite: "resolveEnd (map_option NumInt e) (Some (NumInt n)) = Some (NumInt (end_of e n))"
  by (cases e) (simp_all add: resolveEnd_def resolveIndex_def end_of_def)

lemma wholeSlice_finite:
  "wholeSlice (map_option NumInt b) (map_option NumInt e) (Some (NumInt n)) \<longleftrightarrow>
     (case b of None \<Rightarrow> False | Some b \<Rightarrow> b = 0 \<or> b \<le> - n) \<and> (case e of None \<Rightarrow> True | Some e \<Rightarrow> n \<le> e)"
  by (cases b; cases e) (auto simp: wholeSlice_def num_geq_def)

end
