(* ===== verification/Imm_ListOps.thy ===== *)
theory Imm_ListOps
  imports Imm_List JS_Index
begin

text \<open>
  Resizing a \<open>List\<close> and the methods built on it. \<open>setListBounds\<close> is split where the code has its
  comments: raise the root for a negative origin, raise it for a larger tail offset, pick the
  tail, merge the old tail into the trie, trim. The two loops that raise the root are partial
  functions; \<open>None\<close> means that the loop does not end. \<open>fresh\<close> is the token of \<open>new OwnerID()\<close>.
\<close>

section \<open>setListBounds\<close>

definition has_content :: "'v vnode option \<Rightarrow> bool" where
  \<comment> \<open>\<open>node && node.array.length\<close>\<close>
  "has_content node = (case node of None \<Rightarrow> False | Some n \<Rightarrow> array_length n \<noteq> 0)"

partial_function (option) raise_origin ::
  "owner \<Rightarrow> int \<Rightarrow> 'v vnode option \<Rightarrow> nat \<Rightarrow> int \<Rightarrow> ('v vnode option \<times> nat \<times> int) option" where
  "raise_origin own newOrigin rnode level offsetShift =
     (if newOrigin + offsetShift < 0
      then raise_origin own newOrigin
             (Some (VInner own (if has_content rnode then [None, rnode] else [])))
             (level + SHIFT) (offsetShift + jsl 1 (level + SHIFT))
      else Some (rnode, level, offsetShift))"

partial_function (option) raise_capacity ::
  "owner \<Rightarrow> int \<Rightarrow> 'v vnode option \<Rightarrow> nat \<Rightarrow> ('v vnode option \<times> nat) option" where
  "raise_capacity own newTailOffset rnode level =
     (if newTailOffset \<ge> jsl 1 (level + SHIFT)
      then raise_capacity own newTailOffset
             (Some (VInner own (if has_content rnode then [rnode] else []))) (level + SHIFT)
      else Some (rnode, level))"

declare raise_origin.simps [code] raise_capacity.simps [code]

definition locate_tail :: "owner \<Rightarrow> 'v ilist \<Rightarrow> int \<Rightarrow> int \<Rightarrow> int \<Rightarrow> 'v vnode option" where
  \<comment> \<open>\<open>listNodeFor\<close> reads the fields of the list as it was before the call\<close>
  "locate_tail own l newCapacity oldTailOffset newTailOffset =
     (if newTailOffset < oldTailOffset then listNodeFor l (newCapacity - 1)
      else if newTailOffset > oldTailOffset then Some (VLeaf own [])
      else l_tail l)"

function merge_tail :: "owner \<Rightarrow> nat \<Rightarrow> int \<Rightarrow> 'v vnode option \<Rightarrow> 'v vnode option \<Rightarrow> 'v vnode" where
  \<comment> \<open>the loop from \<open>newLevel\<close> down to \<open>SHIFT\<close> that makes the path editable and hangs the old tail\<close>
  "merge_tail own level oldTailOffset oldTail node =
     (let (o1, a1, same) = editableInner node own;
          idx = slot_index oldTailOffset level
      in if level > SHIFT
         then VInner o1 (put_elem a1 idx (Some (merge_tail own (level - SHIFT) oldTailOffset oldTail (elem a1 idx))))
         else VInner o1 (put_elem a1 (slot_index oldTailOffset SHIFT) oldTail))"
  by pat_completeness auto
termination by (relation "measure (\<lambda>(own, level, off, tail, node). level)") (auto simp: SHIFT_def)

declare merge_tail.simps [simp del]

function collect_root ::
  "int \<Rightarrow> int \<Rightarrow> 'v vnode option \<Rightarrow> nat \<Rightarrow> int \<Rightarrow> 'v vnode option \<times> nat \<times> int" where
  \<comment> \<open>identify the new top root node of the subtree of the old root. The test
    \<open>beginIndex !== (newTailOffset >>> newLevel) & MASK\<close> parses as \<open>(beginIndex !== (newTailOffset >>> newLevel)) & MASK\<close>, and
    \<open>true & MASK\<close> is 1: the index of the tail is not masked. \<open>newOrigin < newTailOffset\<close>, a multiple of 32, differ above
    level 0, so the test of the level is never needed\<close>
  "collect_root newOrigin newTailOffset rnode level offsetShift =
     (case rnode of
        None \<Rightarrow> (None, level, offsetShift)
      | Some node \<Rightarrow>
          (let beginIndex = slot_index newOrigin level
           in if int beginIndex \<noteq> jsr newTailOffset level \<or> level = 0 then (rnode, level, offsetShift)
              else collect_root newOrigin newTailOffset (elem (inner_array rnode) beginIndex) (level - SHIFT)
                     (if beginIndex \<noteq> 0 then offsetShift + jsl 1 level * int beginIndex else offsetShift)))"
  by pat_completeness auto
termination by (relation "measure (\<lambda>(a, b, rnode, level, s). level)") (auto simp: SHIFT_def)

declare collect_root.simps [simp del]

definition list_clear :: "'v ilist \<Rightarrow> 'v ilist upd" where
  "list_clear l =
     (if l_size l = 0 then This l
      else if l_owner l \<noteq> None
      then This (l\<lparr>l_size := 0, l_origin := 0, l_capacity := 0, l_level := SHIFT, l_root := None, l_tail := None,
                   l_hash := None, l_altered := True\<rparr>)
      else New emptyList)"

definition store_list ::
  "'v ilist \<Rightarrow> int \<Rightarrow> int \<Rightarrow> nat \<Rightarrow> 'v vnode option \<Rightarrow> 'v vnode option \<Rightarrow> 'v ilist upd" where
  \<comment> \<open>the end of \<open>setListBounds\<close>\<close>
  "store_list l newOrigin newCapacity newLevel newRoot newTail =
     (if l_owner l \<noteq> None
      then This (l\<lparr>l_size := newCapacity - newOrigin, l_origin := newOrigin, l_capacity := newCapacity,
                   l_level := newLevel, l_root := newRoot, l_tail := newTail, l_hash := None, l_altered := True\<rparr>)
      else New (makeList newOrigin newCapacity newLevel newRoot newTail None None))"

definition trim_bounds ::
  "owner \<Rightarrow> 'v ilist \<Rightarrow> int \<Rightarrow> int \<Rightarrow> int \<Rightarrow> int \<Rightarrow> nat \<Rightarrow> 'v vnode option \<Rightarrow> 'v vnode option \<Rightarrow> 'v ilist upd" where
  \<comment> \<open>from the trimming of the tail to the end\<close>
  "trim_bounds own l oldOrigin oldCapacity newOrigin newCapacity newLevel newRoot newTail =
     (let oldTailOffset = getTailOffset oldCapacity;
          newTailOffset = getTailOffset newCapacity;
          newTail = (if newCapacity < oldCapacity then map_option (\<lambda>t. fst (removeAfter own 0 newCapacity t)) newTail
                     else newTail)
      in if newOrigin \<ge> newTailOffset
         then (let newOrigin = newOrigin - newTailOffset
               in store_list l newOrigin (newCapacity - newTailOffset) SHIFT None
                    (map_option (\<lambda>t. fst (removeBefore own 0 newOrigin t)) newTail))
         else if newOrigin > oldOrigin \<or> newTailOffset < oldTailOffset
         then (let (root1, level1, shift) = collect_root newOrigin newTailOffset newRoot newLevel 0;
                   root2 = (if newOrigin > oldOrigin
                            then map_option (\<lambda>r. fst (removeBefore own level1 (newOrigin - shift) r)) root1 else root1);
                   root3 = (if newTailOffset < oldTailOffset
                            then map_option (\<lambda>r. fst (removeAfter own level1 (newTailOffset - shift) r)) root2 else root2)
               in store_list l (newOrigin - shift) (newCapacity - shift) level1 root3 newTail)
         else store_list l newOrigin newCapacity newLevel newRoot newTail)"

definition setListBounds :: "nat \<Rightarrow> int option \<Rightarrow> int option \<Rightarrow> 'v ilist \<Rightarrow> 'v ilist upd option" where
  "setListBounds fresh begin end' l =
     (let own = (if l_owner l \<noteq> None then l_owner l else Some fresh);
          oldOrigin = l_origin l;
          oldCapacity = l_capacity l;
          newOrigin = oldOrigin + (case begin of None \<Rightarrow> 0 | Some b \<Rightarrow> to_int32 b);
          newCapacity =
            (case end' of
               None \<Rightarrow> oldCapacity
             | Some e \<Rightarrow> (let e = to_int32 e in if e < 0 then oldCapacity + e else oldOrigin + e))
      in if newOrigin = oldOrigin \<and> newCapacity = oldCapacity then Some (This l)
         else if newOrigin \<ge> newCapacity then Some (list_clear l)
         else Option.bind (raise_origin own newOrigin (l_root l) (l_level l) 0) (\<lambda>(root0, level0, offsetShift).
           let newOrigin = newOrigin + offsetShift;
               oldOrigin = oldOrigin + offsetShift;
               newCapacity = newCapacity + offsetShift;
               oldCapacity = oldCapacity + offsetShift;
               oldTailOffset = getTailOffset oldCapacity;
               newTailOffset = getTailOffset newCapacity
           in Option.bind (raise_capacity own newTailOffset root0 level0) (\<lambda>(root1, level1).
             let newTail = locate_tail own l newCapacity oldTailOffset newTailOffset;
                 root2 = (if has_content (l_tail l) \<and> newTailOffset > oldTailOffset \<and> newOrigin < oldCapacity
                          then Some (merge_tail own level1 oldTailOffset (l_tail l) root1) else root1)
             in Some (trim_bounds own l oldOrigin oldCapacity newOrigin newCapacity level1 root2 newTail))))"

section \<open>Transient mutability\<close>

definition list_ensureOwner :: "owner \<Rightarrow> 'v ilist \<Rightarrow> 'v ilist upd" where
  "list_ensureOwner own l =
     (if own = l_owner l then This l
      else if own = None then This (l\<lparr>l_owner := None\<rparr>)
      else New (makeList (l_origin l) (l_capacity l) (l_level l) (l_root l) (l_tail l) own (l_hash l)))"

definition list_asMutable :: "nat \<Rightarrow> 'v ilist \<Rightarrow> 'v ilist upd" where
  "list_asMutable fresh l = (if l_owner l \<noteq> None then This l else list_ensureOwner (Some fresh) l)"

definition list_asImmutable :: "'v ilist \<Rightarrow> 'v ilist upd" where
  "list_asImmutable l = list_ensureOwner None l"

definition list_commit :: "'v ilist \<Rightarrow> 'v ilist \<Rightarrow> 'v ilist upd" where
  \<comment> \<open>the result of \<open>withMutations\<close> on \<open>l\<close> when the callback left the mutable list as given; the
    mutable list is \<open>l\<close> itself when \<open>l\<close> has an owner\<close>
  "list_commit l mutable =
     (if l_owner l \<noteq> None then This mutable
      else if l_altered mutable then New (upd_default mutable (list_ensureOwner (l_owner l) mutable))
      else This l)"

definition list_withMutations :: "nat \<Rightarrow> ('v ilist \<Rightarrow> 'v ilist option) \<Rightarrow> 'v ilist \<Rightarrow> 'v ilist upd option" where
  "list_withMutations fresh fn l = map_option (list_commit l) (fn (upd_default l (list_asMutable fresh l)))"

section \<open>Modification\<close>

definition update_inside :: "('v \<Rightarrow> 'v \<Rightarrow> bool) \<Rightarrow> int \<Rightarrow> 'v option \<Rightarrow> 'v ilist \<Rightarrow> 'v ilist upd" where
  \<comment> \<open>\<open>updateList\<close> after the range test\<close>
  "update_inside eqv index v l =
     (let raw = index + l_origin l;
          inTail = (raw \<ge> getTailOffset (l_capacity l));
          (newTail, _, alterT) = (if inTail then updateVNode eqv (l_tail l) (l_owner l) 0 raw v else (l_tail l, True, False));
          (newRoot, _, alterR) = (if inTail then (l_root l, True, False) else updateVNode eqv (l_root l) (l_owner l) (l_level l) raw v)
      in if \<not> (alterT \<or> alterR) then This l
         else if l_owner l \<noteq> None
         then This (l\<lparr>l_root := newRoot, l_tail := newTail, l_hash := None, l_altered := True\<rparr>)
         else New (makeList (l_origin l) (l_capacity l) (l_level l) newRoot newTail None None))"

partial_function (option) updateList ::
  "('v \<Rightarrow> 'v \<Rightarrow> bool) \<Rightarrow> nat \<Rightarrow> int \<Rightarrow> 'v option \<Rightarrow> 'v ilist \<Rightarrow> 'v ilist upd option" where
  \<comment> \<open>on an integer index; \<open>set\<close> is called again inside \<open>withMutations\<close>, which the code of a
    32-bit overflow can make recur for ever\<close>
  "updateList eqv fresh index v l =
     (let index = (if index < 0 then l_size l + index else index)
      in if index \<ge> l_size l \<or> index < 0
         then (let m = upd_default l (list_asMutable fresh l)
               in Option.bind
                    (if index < 0 then setListBounds fresh (Some index) None m
                     else setListBounds fresh (Some 0) (Some (index + 1)) m)
                    (\<lambda>m1. Option.bind (updateList eqv fresh (if index < 0 then 0 else index) v (upd_default m m1))
                      (\<lambda>m2. Some (list_commit l (upd_default (upd_default m m1) m2)))))
         else Some (update_inside eqv index v l))"

declare updateList.simps [code]

definition list_set :: "('v \<Rightarrow> 'v \<Rightarrow> bool) \<Rightarrow> nat \<Rightarrow> int \<Rightarrow> 'v option \<Rightarrow> 'v ilist \<Rightarrow> 'v ilist upd option" where
  "list_set eqv fresh index v l = updateList eqv fresh index v l"

fun set_from :: "('v \<Rightarrow> 'v \<Rightarrow> bool) \<Rightarrow> nat \<Rightarrow> int \<Rightarrow> 'v option list \<Rightarrow> 'v ilist \<Rightarrow> 'v ilist option" where
  \<comment> \<open>\<open>for (ii = 0; ii < values.length; ii++) list.set(start + ii, values[ii])\<close> on a mutable list\<close>
  "set_from eqv fresh start [] l = Some l"
| "set_from eqv fresh start (v # vs) l =
     Option.bind (list_set eqv fresh start v l) (\<lambda>u. set_from eqv fresh (start + 1) vs (upd_default l u))"

definition list_push :: "('v \<Rightarrow> 'v \<Rightarrow> bool) \<Rightarrow> nat \<Rightarrow> 'v option list \<Rightarrow> 'v ilist \<Rightarrow> 'v ilist upd option" where
  "list_push eqv fresh values l =
     (let oldSize = l_size l
      in list_withMutations fresh (\<lambda>m.
           Option.bind (setListBounds fresh (Some 0) (Some (oldSize + int (length values))) m)
             (\<lambda>u. set_from eqv fresh oldSize values (upd_default m u))) l)"

definition list_pop :: "nat \<Rightarrow> 'v ilist \<Rightarrow> 'v ilist upd option" where
  "list_pop fresh l = setListBounds fresh (Some 0) (Some (- 1)) l"

definition list_unshift :: "('v \<Rightarrow> 'v \<Rightarrow> bool) \<Rightarrow> nat \<Rightarrow> 'v option list \<Rightarrow> 'v ilist \<Rightarrow> 'v ilist upd option" where
  "list_unshift eqv fresh values l =
     list_withMutations fresh (\<lambda>m.
       Option.bind (setListBounds fresh (Some (- int (length values))) None m)
         (\<lambda>u. set_from eqv fresh 0 values (upd_default m u))) l"

definition list_shift :: "nat \<Rightarrow> 'v ilist \<Rightarrow> 'v ilist upd option" where
  "list_shift fresh l = setListBounds fresh (Some 1) None l"

definition list_setSize :: "nat \<Rightarrow> int \<Rightarrow> 'v ilist \<Rightarrow> 'v ilist upd option" where
  "list_setSize fresh size' l = setListBounds fresh (Some 0) (Some size') l"

definition list_slice :: "nat \<Rightarrow> int option \<Rightarrow> int option \<Rightarrow> 'v ilist \<Rightarrow> 'v ilist upd option" where
  "list_slice fresh begin end' l =
     (let size' = l_size l
      in if wholeSlice (map_option NumInt begin) (map_option NumInt end') (Some (NumInt size')) then Some (This l)
         else setListBounds fresh (Some (begin_of begin size')) (Some (end_of end' size')) l)"

section \<open>Construction\<close>

definition List_of_values :: "('v \<Rightarrow> 'v \<Rightarrow> bool) \<Rightarrow> nat \<Rightarrow> 'v option list \<Rightarrow> 'v ilist option" where
  \<comment> \<open>\<open>List(value)\<close> for a finite iterable of known size that is not itself a list\<close>
  "List_of_values eqv fresh values =
     (if values = [] then Some emptyList
      else if length values < SIZE
      then Some (makeList 0 (int (length values)) SHIFT None (Some (VLeaf None values)) None None)
      else map_option (upd_default emptyList)
             (list_withMutations fresh (\<lambda>m.
                Option.bind (list_setSize fresh (int (length values)) m)
                  (\<lambda>u. set_from eqv fresh 0 values (upd_default m u))) emptyList))"

section \<open>Iteration\<close>

definition leaf_values :: "bool \<Rightarrow> 'v ilist \<Rightarrow> 'v vnode option \<Rightarrow> int \<Rightarrow> 'v option list" where
  \<comment> \<open>the values that the closure of \<open>iterateLeaf\<close> delivers\<close>
  "leaf_values reverse l node offset =
     (let left = l_origin l; right = l_capacity l;
          array = leaf_array (if offset = getTailOffset right then l_tail l else node);
          from' = (if offset > left then 0 else left - offset);
          to = min (right - offset) (int SIZE)
      in map (elem array) (directed reverse [nat from'..<nat to]))"

function node_values :: "bool \<Rightarrow> 'v ilist \<Rightarrow> 'v vnode option \<Rightarrow> nat \<Rightarrow> int \<Rightarrow> 'v option list" where
  \<comment> \<open>the values that the closure of \<open>iterateNodeOrLeaf\<close> delivers, in order\<close>
  "node_values reverse l node level offset =
     (if level = 0 then leaf_values reverse l node offset
      else let left = l_origin l; right = l_capacity l;
               from' = (if offset > left then 0 else jasr (left - offset) level);
               to = min (jasr (right - offset) level + 1) (int SIZE)
           in concat (map (\<lambda>idx. node_values reverse l (elem (inner_array node) idx) (level - SHIFT)
                                   (offset + jsl (int idx) level))
                (directed reverse [nat from'..<nat to])))"
  by pat_completeness auto
termination by (relation "measure (\<lambda>(r, l, node, level, off). level)") (auto simp: SHIFT_def)

declare node_values.simps [simp del]

definition iterateList :: "bool \<Rightarrow> 'v ilist \<Rightarrow> 'v option list" where
  "iterateList reverse l = node_values reverse l (l_root l) (l_level l) 0"

definition list_iterate ::
  "('v option \<Rightarrow> nat \<Rightarrow> 's \<Rightarrow> 's \<times> bool) \<Rightarrow> bool \<Rightarrow> 'v ilist \<Rightarrow> 's \<Rightarrow> 's \<times> nat" where
  "list_iterate fn reverse l s =
     fst (run_until (\<lambda>v (s, index). case fn v index s of (s', stop) \<Rightarrow> ((s', index + 1), stop))
            (iterateList reverse l) (s, 0))"

end
