(* ===== verification/Imm_ListInv.thy ===== *)
theory Imm_ListInv
  imports Imm_ListOps
begin

text \<open>
  The vector trie of \<open>List\<close> as a finite map from slots: digits of an index in base 32, the lookup
  \<open>vlook\<close> in a node of a given height, well-formed nodes, and what every node operation
  (\<open>updateVNode\<close>, \<open>removeBefore\<close>, \<open>removeAfter\<close>, \<open>merge_tail\<close>, \<open>collect_root\<close> and the raising loops)
  does to the lookup. Heights replace levels: the level of height \<open>h\<close> is \<open>5 * h\<close>.
\<close>

named_theorems vlook_simps \<open>lookup in the vector trie\<close>

section \<open>Digits\<close>

definition digit :: "nat \<Rightarrow> nat \<Rightarrow> nat" where
  "digit h i = i div 32 ^ h mod 32"

lemma digit_less [simp]: "digit h i < 32"
  by (simp add: digit_def)

lemma digit_split: "i mod 32 ^ Suc h = digit h i * 32 ^ h + i mod 32 ^ h"
  using mod_mult2_eq [of i "32 ^ h" 32] by (simp add: digit_def mult.commute)

lemma digit_mono: "i mod 32 ^ Suc h \<le> j mod 32 ^ Suc h \<Longrightarrow> digit h i \<le> digit h j"
proof (rule ccontr)
  assume le: "i mod 32 ^ Suc h \<le> j mod 32 ^ Suc h" and "\<not> digit h i \<le> digit h j"
  then have "(digit h j + 1) * 32 ^ h \<le> digit h i * 32 ^ h" by (intro mult_right_mono) auto
  moreover have "j mod 32 ^ h < 32 ^ h" by simp
  moreover have "digit h i * 32 ^ h + i mod 32 ^ h \<le> digit h j * 32 ^ h + j mod 32 ^ h"
    using le by (simp only: digit_split)
  ultimately show False by (simp add: add_mult_distrib)
qed

lemma digit_eq_mod: "digit h i = digit h j \<Longrightarrow>
    (i mod 32 ^ Suc h \<le> j mod 32 ^ Suc h) = (i mod 32 ^ h \<le> j mod 32 ^ h)"
  by (simp add: digit_split del: power_Suc)

lemma digit_eq_iff: "i mod 32 ^ Suc h = j mod 32 ^ Suc h \<longleftrightarrow> digit h i = digit h j \<and> i mod 32 ^ h = j mod 32 ^ h"
  (is "?l = ?r")
proof
  assume l: ?l
  then have "digit h i = digit h j" by (intro antisym digit_mono) simp_all
  then show ?r using l by (simp add: digit_split del: power_Suc)
qed (simp add: digit_split del: power_Suc)

lemma slot_index_digit:
  assumes "i < 2 ^ 32" "h \<le> 6"
  shows "slot_index (int i) (5 * h) = digit h i"
proof -
  have "slot_index (int i) (5 * h) = frag (word_of_int (int i)) (5 * h)"
    by (cases "5 * h = 0") (simp_all add: slot_index_def frag_def ushr32_def)
  also have "\<dots> = digit h i"
    using assms by (simp add: frag_eq unat_of_nat digit_def power_mult [symmetric])
      (simp add: power_mult)
  finally show ?thesis .
qed

lemma jsl_power:
  assumes "h \<le> 6" shows "jsl 1 (5 * h) = 32 ^ h"
proof -
  have "h = 0 \<or> h = 1 \<or> h = 2 \<or> h = 3 \<or> h = 4 \<or> h = 5 \<or> h = 6" using assms by arith
  then show ?thesis by (elim disjE) (simp_all add: jsl_def shl32_def)
qed

section \<open>Lookup in a node\<close>

fun vlook :: "nat \<Rightarrow> 'v vnode option \<Rightarrow> nat \<Rightarrow> 'v option" where
  "vlook 0 (Some (VLeaf _ a)) i = elem a (i mod 32)"
| "vlook (Suc h) (Some (VInner _ a)) i = vlook h (elem a (digit (Suc h) i)) i"
| "vlook _ _ _ = None"

fun wf_vnode :: "nat \<Rightarrow> 'v vnode option \<Rightarrow> bool" where
  "wf_vnode _ None = True"
| "wf_vnode 0 (Some (VLeaf _ a)) = (length a \<le> 32)"
| "wf_vnode (Suc h) (Some (VInner _ a)) = (length a \<le> 32 \<and> (\<forall>c \<in> set a. wf_vnode h c))"
| "wf_vnode _ _ = False"

lemma vlook_None [simp]: "vlook h None i = None"
  by (cases h) simp_all

lemma elem_None [simp]: "\<not> i < length a \<Longrightarrow> elem a i = None" and elem_Nil [simp]: "elem [] i = None"
  and elem_nth: "i < length a \<Longrightarrow> elem a i = a ! i"
  by (simp_all add: elem_def)

lemma elem_update: "elem (a[k := x]) i = (if i = k \<and> k < length a then x else elem a i)"
  by (auto simp: elem_def nth_list_update)

lemma elem_put: "elem (put_elem a k x) i = (if i = k then x else elem a i)"
  by (auto simp: elem_def put_elem_def nth_list_update nth_append nth_Cons')

lemma length_put [simp]: "length (put_elem a k x) = max (length a) (Suc k)"
  by (simp add: put_elem_def)

lemma elem_take: "elem (take n a) i = (if i < n then elem a i else None)"
  by (auto simp: elem_def)

lemma elem_clear: "elem (clear_below a n) i = (if i < n then None else elem a i)"
  by (auto simp: elem_def clear_below_def)

lemma length_clear [simp]: "length (clear_below a n) = length a"
  by (simp add: clear_below_def)

lemma elem_pop: "Suc k = length a \<Longrightarrow> elem (pop a) i = (if i = k then None else elem a i)"
  by (auto simp: elem_def pop_def nth_butlast)

lemma length_pop [simp]: "length (pop a) = length a - 1"
  by (simp add: pop_def)

lemma wf_elem: "wf_vnode (Suc h) (Some (VInner o' a)) \<Longrightarrow> wf_vnode h (elem a i)"
  by (auto simp: elem_def)

lemma wf_inner_iff: "wf_vnode (Suc h) (Some (VInner o' a)) \<longleftrightarrow> length a \<le> 32 \<and> (\<forall>i. wf_vnode h (elem a i))"
  by (auto simp: elem_def in_set_conv_nth split: if_splits) (blast intro: nth_mem)

lemma wf_vnode_0: "wf_vnode 0 n \<Longrightarrow> n = None \<or> (\<exists>o' a. n = Some (VLeaf o' a) \<and> length a \<le> 32)"
  by (cases "(0::nat, n)" rule: wf_vnode.cases) auto

lemma wf_vnode_Suc: "wf_vnode (Suc h) n \<Longrightarrow> n = None \<or> (\<exists>o' a. n = Some (VInner o' a))"
  by (cases "(Suc h, n)" rule: wf_vnode.cases) auto

lemma vlook_0: "wf_vnode 0 n \<Longrightarrow> vlook 0 n i = elem (leaf_array n) (i mod 32)"
  using wf_vnode_0 [of n] by auto

lemma vlook_Suc: "wf_vnode (Suc h) n \<Longrightarrow> vlook (Suc h) n i = vlook h (elem (inner_array n) (digit (Suc h) i)) i"
  using wf_vnode_Suc [of h n] by auto

lemma wf_elem_inner: "wf_vnode (Suc h) n \<Longrightarrow> wf_vnode h (elem (inner_array n) i)"
  using wf_vnode_Suc [of h n] wf_elem by fastforce

lemma vlook_mod: "i mod 32 ^ Suc h = j mod 32 ^ Suc h \<Longrightarrow> vlook h n i = vlook h n j"
proof (induction h arbitrary: n)
  case 0
  then show ?case by (cases "(0::nat, n, i)" rule: vlook.cases) auto
next
  case (Suc h)
  then have "digit (Suc h) i = digit (Suc h) j" "i mod 32 ^ Suc h = j mod 32 ^ Suc h"
    using digit_eq_iff by blast+
  then show ?case using Suc.IH by (cases "(Suc h, n, i)" rule: vlook.cases) auto
qed

lemma digit_block: "i div 32 = k div 32 \<Longrightarrow> digit (Suc h) i = digit (Suc h) k"
  by (simp add: digit_def div_mult2_eq)

lemma vlook_descend:
  "h \<le> 6 \<Longrightarrow> k < 2 ^ 32 \<Longrightarrow> i div 32 = k div 32 \<Longrightarrow> wf_vnode h n \<Longrightarrow>
     wf_vnode 0 (descend n (5 * h) (int k)) \<and> elem (leaf_array (descend n (5 * h) (int k))) (i mod 32) = vlook h n i"
proof (induction h arbitrary: n)
  case 0
  then show ?case by (simp add: descend.simps [of n 0] vlook_0)
next
  case (Suc h)
  show ?case
  proof (cases n)
    case None
    then show ?thesis by (subst (1 2) descend.simps) simp
  next
    case (Some m)
    have "descend n (5 * Suc h) (int k) = descend (elem (inner_array n) (digit (Suc h) k)) (5 * h) (int k)"
      using Some Suc.prems slot_index_digit [of k "Suc h"] by (subst descend.simps) (simp add: SHIFT_def)
    then show ?thesis
      using Suc.IH [OF _ _ _ wf_elem_inner [OF Suc.prems(4)], of "digit (Suc h) k"] Suc.prems digit_block [of i k h]
      by (simp add: vlook_Suc)
  qed
qed

section \<open>Updating a slot\<close>

lemma editableLeaf_array: "fst (snd (editableLeaf n own)) = leaf_array n"
  by (auto simp: editableLeaf_def split: option.splits vnode.splits)

lemma editableInner_array: "fst (snd (editableInner n own)) = inner_array n"
  by (auto simp: editableInner_def split: option.splits vnode.splits)

lemma editable_same: "snd (snd (editableInner n own)) \<Longrightarrow> n \<noteq> None" "snd (snd (editableLeaf n own)) \<Longrightarrow> n \<noteq> None"
  by (auto simp: editableInner_def editableLeaf_def split: option.splits vnode.splits)

definition updated :: "nat \<Rightarrow> nat \<Rightarrow> 'v option \<Rightarrow> 'v vnode option \<Rightarrow> 'v vnode option \<Rightarrow> bool" where
  "updated h i v n n' \<longleftrightarrow> wf_vnode h n' \<and>
     (\<forall>j. vlook h n' j = (if j mod 32 ^ Suc h = i mod 32 ^ Suc h then v else vlook h n j))"

lemma updated_refl: "wf_vnode h n \<Longrightarrow> vlook h n i = v \<Longrightarrow> updated h i v n n"
  using vlook_mod by (fastforce simp: updated_def)

lemma updated_slot: "updated h i v n n' \<Longrightarrow> vlook h n' i = v"
  by (simp add: updated_def)

lemma updated_Suc:
  assumes wf: "wf_vnode (Suc h) n" and upd: "updated h i v (elem (inner_array n) (digit (Suc h) i)) c"
    and a: "length a \<le> 32" "\<And>k. elem a k = (if k = digit (Suc h) i then c else elem (inner_array n) k)"
  shows "updated (Suc h) i v n (Some (VInner o' a))"
proof -
  have "wf_vnode (Suc h) (Some (VInner o' a))"
    using wf_elem_inner [OF wf] upd a by (simp add: wf_inner_iff updated_def del: wf_vnode.simps)
  moreover have "vlook (Suc h) (Some (VInner o' a)) j =
      (if j mod 32 ^ Suc (Suc h) = i mod 32 ^ Suc (Suc h) then v else vlook (Suc h) n j)" for j
    using upd a(2) wf by (simp add: vlook_Suc updated_def digit_eq_iff [of _ "Suc h"] del: power_Suc)
  ultimately show ?thesis by (simp add: updated_def)
qed

lemma updated_0:
  assumes "wf_vnode 0 n" "length a \<le> 32" "\<And>k. elem a k = (if k = i mod 32 then v else elem (leaf_array n) k)"
  shows "updated 0 i v n (Some (VLeaf o' a))"
  using assms by (auto simp: updated_def vlook_0)

definition sound_eq :: "('v \<Rightarrow> 'v \<Rightarrow> bool) \<Rightarrow> bool" where
  \<comment> \<open>\<open>===\<close> holds on equal elements only\<close>
  "sound_eq eqv \<longleftrightarrow> (\<forall>x y. eqv x y \<longrightarrow> x = y)"

lemma updateVNode_spec:
  assumes "sound_eq eqv" "h \<le> 6" "i < 2 ^ 32" "wf_vnode h n"
    "updateVNode eqv n own (5 * h) (int i) v = (n', same, alt)"
  shows "updated h i v n n' \<and> (same \<and> n = None \<longrightarrow> n' = None) \<and> (\<not> alt \<longrightarrow> same \<and> n' = n)"
  using assms(2-)
proof (induction h arbitrary: n n' same alt)
  case 0
  let ?idx = "i mod 32" and ?a = "leaf_array n"
  have idx: "slot_index (int i) 0 = ?idx" using slot_index_digit [of i 0] 0 by (simp add: digit_def)
  have has: "n \<noteq> None \<and> ?idx < (case n of None \<Rightarrow> 0 | Some m \<Rightarrow> array_length m) \<longleftrightarrow> ?idx < length ?a"
    using wf_vnode_0 [OF "0.prems"(3)] by auto
  have len: "length ?a \<le> 32" using wf_vnode_0 [OF "0.prems"(3)] by auto
  obtain o1 same1 where ed: "editableLeaf n own = (o1, ?a, same1)"
    using editableLeaf_array [of n own] by (cases "editableLeaf n own") auto
  have eq: "updateVNode eqv n own 0 (int i) v =
      (if \<not> ?idx < length ?a \<and> v = None then (n, True, False)
       else if ?idx < length ?a \<and> rel_option eqv (elem ?a ?idx) v then (n, True, False)
       else (Some (VLeaf o1 (if v = None \<and> ?idx + 1 = length ?a then pop ?a else put_elem ?a ?idx v)), same1, True))"
    by (subst updateVNode.simps) (simp only: idx Let_def has ed prod.case simp_thms if_False less_irrefl)
  have same: "vlook 0 n i = v" if "rel_option eqv (elem ?a ?idx) v"
  proof -
    have "elem ?a ?idx = v" using that assms(1) by (cases "elem ?a ?idx"; cases v) (auto simp: sound_eq_def)
    then show ?thesis using "0.prems"(3) by (simp add: vlook_0)
  qed
  have none: "vlook 0 n i = v" if "\<not> ?idx < length ?a" "v = None"
    using that "0.prems"(3) by (simp add: vlook_0)
  have "updated 0 i v n (Some (VLeaf o1 (if v = None \<and> ?idx + 1 = length ?a then pop ?a else put_elem ?a ?idx v)))"
    using len by (intro updated_0 [OF "0.prems"(3)]) (auto simp: elem_pop elem_put)
  then show ?case
    using "0.prems"(3,4) eq updated_refl [OF "0.prems"(3) same] updated_refl [OF "0.prems"(3) none]
      editable_same(2) [of n own] ed by (auto split: if_splits)
next
  case (Suc h)
  let ?idx = "digit (Suc h) i" and ?a = "inner_array n"
  have idx: "slot_index (int i) (5 * Suc h) = ?idx" using slot_index_digit [of i "Suc h"] Suc.prems by simp
  have has: "n \<noteq> None \<and> ?idx < (case n of None \<Rightarrow> 0 | Some m \<Rightarrow> array_length m) \<longleftrightarrow> ?idx < length ?a"
    using wf_vnode_Suc [OF Suc.prems(3)] by auto
  have len: "length ?a \<le> 32" using wf_vnode_Suc [OF Suc.prems(3)] Suc.prems(3) by auto
  obtain o1 same1 where ed: "editableInner n own = (o1, ?a, same1)"
    using editableInner_array [of n own] by (cases "editableInner n own") auto
  obtain c unch alt1 where rec: "updateVNode eqv (elem ?a ?idx) own (5 * h) (int i) v = (c, unch, alt1)"
    by (metis prod_cases3)
  have IH: "updated h i v (elem ?a ?idx) c" "unch \<and> elem ?a ?idx = None \<Longrightarrow> c = None"
      "\<not> alt1 \<Longrightarrow> unch \<and> c = elem ?a ?idx"
    using Suc.IH [OF _ _ wf_elem_inner [OF Suc.prems(3)] rec] Suc.prems by auto
  have lv: "5 * Suc h - SHIFT = 5 * h" "0 < 5 * Suc h" by (simp_all add: SHIFT_def)
  have eq: "updateVNode eqv n own (5 * Suc h) (int i) v =
      (if \<not> ?idx < length ?a \<and> v = None then (n, True, False)
       else if unch
         then (case n of Some (VInner o' a) \<Rightarrow> (Some (VInner o' (if ?idx < length a then a[?idx := c] else a)), True, alt1)
               | _ \<Rightarrow> (n, True, alt1))
         else (Some (VInner o1 (put_elem ?a ?idx c)), same1, alt1))"
    by (subst updateVNode.simps) (simp only: idx Let_def has ed lv rec prod.case simp_thms if_True)
  have none: "vlook (Suc h) n i = v" if "\<not> ?idx < length ?a" "v = None"
    using that Suc.prems(3) by (simp add: vlook_Suc)
  have new: "updated (Suc h) i v n (Some (VInner o1 (put_elem ?a ?idx c)))"
    using len Suc_le_eq digit_less [of "Suc h" i] by (intro updated_Suc [OF Suc.prems(3) IH(1)]) (auto simp: elem_put simp del: digit_less)
  have some: "\<exists>o'. n = Some (VInner o' ?a)" "?idx < length ?a"
    if "unch" "\<not> (\<not> ?idx < length ?a \<and> v = None)"
  proof -
    show "?idx < length ?a"
    proof (rule ccontr)
      assume "\<not> ?idx < length ?a"
      then have "c = None" "v \<noteq> None" using that IH(2) by auto
      then show False using updated_slot [OF IH(1)] by simp
    qed
    then show "\<exists>o'. n = Some (VInner o' ?a)" using wf_vnode_Suc [OF Suc.prems(3)] by auto
  qed
  have upd: "updated (Suc h) i v n (Some (VInner o' (?a[?idx := c])))" if "?idx < length ?a" for o'
    using len that by (intro updated_Suc [OF Suc.prems(3) IH(1)]) (auto simp: elem_update)
  have keep: "?a[?idx := c] = ?a" if "\<not> alt1"
    using IH(3) [OF that] by (cases "?idx < length ?a") (simp_all add: elem_nth list_update_beyond)
  consider "\<not> ?idx < length ?a" "v = None" | o' a where "?idx < length a" "unch" "n = Some (VInner o' a)"
    | "\<not> (\<not> ?idx < length ?a \<and> v = None)" "\<not> unch"
  proof (cases "\<not> ?idx < length ?a \<and> v = None")
    case False
    show ?thesis
    proof (cases unch)
      case True
      then obtain o' where "n = Some (VInner o' ?a)" and lt: "?idx < length ?a" using some False by blast
      then obtain a where "n = Some (VInner o' a)" by blast
      then show ?thesis using that(2) lt True by simp
    qed (use False that(3) in blast)
  qed (use that(1) in blast)
  then show ?case
  proof cases
    case 1
    then have "n' = n" "same" using eq Suc.prems(4) by auto
    then show ?thesis using updated_refl [OF Suc.prems(3) none] 1 by simp
  next
    case 2
    then have n': "n' = Some (VInner o' (a[?idx := c]))" "same" "alt = alt1"
      using eq Suc.prems(4) by simp_all
    have "updated (Suc h) i v n n'" using upd [of o'] 2 n'(1) by simp
    then show ?thesis using keep 2 n' by simp
  next
    case 3
    then have "n' = Some (VInner o1 (put_elem ?a ?idx c))" "same = same1" "alt = alt1"
      using eq Suc.prems(4) by auto
    then show ?thesis using new IH(3) editable_same(1) [of n own] ed 3 by auto
  qed
qed

section \<open>Trimming\<close>

definition keeps :: "nat \<Rightarrow> (nat \<Rightarrow> bool) \<Rightarrow> 'v vnode option \<Rightarrow> 'v vnode option \<Rightarrow> bool" where
  "keeps h P n n' \<longleftrightarrow> wf_vnode h n' \<and> (\<forall>j. P j \<longrightarrow> vlook h n' j = vlook h n j)"

lemma keeps_refl [simp]: "wf_vnode h n \<Longrightarrow> keeps h P n n"
  by (simp add: keeps_def)

lemma keeps_None [simp]: "keeps h P None None"
  by (simp add: keeps_def)

lemma keeps_Suc:
  assumes "wf_vnode (Suc h) (Some (VInner o1 a))" "length b \<le> 32"
    and "\<And>k. wf_vnode h (elem b k)"
    and "\<And>j. P j \<Longrightarrow> vlook h (elem b (digit (Suc h) j)) j = vlook h (elem a (digit (Suc h) j)) j"
  shows "keeps (Suc h) P (Some (VInner o1 a)) (Some (VInner o2 b))"
  using assms unfolding keeps_def wf_inner_iff by simp

lemma editableLeaf_Some: "\<exists>o1 s. editableLeaf (Some (VLeaf o' a)) own = (o1, a, s)"
  by (auto simp: editableLeaf_def)

lemma editableInner_Some: "\<exists>o1 s. editableInner (Some (VInner o' a)) own = (o1, a, s)"
  by (auto simp: editableInner_def)

lemma removeBefore_keeps:
  assumes "h \<le> 6" "i < 2 ^ 32" "wf_vnode h (Some n)"
  shows "keeps h (\<lambda>j. i mod 32 ^ Suc h \<le> j mod 32 ^ Suc h) (Some n) (Some (fst (removeBefore own (5 * h) (int i) n)))"
  using assms
proof (induction h arbitrary: n)
  case 0
  then obtain o' a where n: "n = VLeaf o' a" "length a \<le> 32" using wf_vnode_0 by blast
  obtain o1 s where ed: "editableLeaf (Some (VLeaf o' a)) own = (o1, a, s)" using editableLeaf_Some by blast
  have idx: "slot_index (int i) 0 = i mod 32" using slot_index_digit [of i 0] 0 by (simp add: digit_def)
  show ?case using n ed by (auto simp: keeps_def idx elem_clear Let_def)
next
  case (Suc h)
  then obtain o' a where n: "n = VInner o' a" using wf_vnode_Suc by blast
  obtain o1 s where ed: "editableInner (Some (VInner o' a)) own = (o1, a, s)" using editableInner_Some by blast
  let ?idx = "digit (Suc h) i"
  have idx: "slot_index (int i) (5 * Suc h) = ?idx" using slot_index_digit [of i "Suc h"] Suc.prems by simp
  have wf: "wf_vnode (Suc h) (Some (VInner o' a))" and len: "length a \<le> 32" and wfe: "wf_vnode h (elem a k)" for k
    using Suc.prems n wf_elem by (auto simp del: wf_vnode.simps) (simp add: wf_inner_iff)
  have ge: "?idx \<le> digit (Suc h) j" if "i mod 32 ^ Suc (Suc h) \<le> j mod 32 ^ Suc (Suc h)" for j
    using that by (rule digit_mono)
  have eq: "i mod 32 ^ Suc h \<le> j mod 32 ^ Suc h"
    if "i mod 32 ^ Suc (Suc h) \<le> j mod 32 ^ Suc (Suc h)" "digit (Suc h) j = ?idx" for j
    using that digit_eq_mod [of "Suc h" i j] by simp
  have lv: "5 * Suc h - SHIFT = 5 * h" by (simp add: SHIFT_def)
  define early where "early \<longleftrightarrow> (if int i = int (5 * Suc h) then jsl 1 (5 * Suc h) \<noteq> 0 else a = [])"
  show ?case
  proof (cases early)
    case True
    then have "removeBefore own (5 * Suc h) (int i) n = (VInner o' a, True)"
      unfolding n removeBefore.simps early_def by (rule if_P)
    then show ?thesis using n wf by (simp del: wf_vnode.simps)
  next
    case notearly: False
    show ?thesis
    proof (cases "?idx < length a")
      case False
      then have "removeBefore own (5 * Suc h) (int i) n = (VInner own [], False)"
        using notearly n by (simp only: removeBefore.simps early_def idx Let_def) simp
      moreover have "keeps (Suc h) (\<lambda>j. i mod 32 ^ Suc (Suc h) \<le> j mod 32 ^ Suc (Suc h)) (Some (VInner o' a)) (Some (VInner own []))"
      proof (rule keeps_Suc [OF wf])
        fix j assume "i mod 32 ^ Suc (Suc h) \<le> j mod 32 ^ Suc (Suc h)"
        then have "\<not> digit (Suc h) j < length a" using False ge [of j] by linarith
        then show "vlook h (elem [] (digit (Suc h) j)) j = vlook h (elem a (digit (Suc h) j)) j" by simp
      qed simp_all
      ultimately show ?thesis using n by simp
    next
      case lt: True
      show ?thesis
      proof (cases "elem a ?idx")
        case None
        have "removeBefore own (5 * Suc h) (int i) n =
          (if ?idx = 0 then (VInner o' a, True) else (VInner o1 (clear_below a ?idx), s))"
          using notearly lt n None ed by (simp only: removeBefore.simps early_def idx Let_def option.case prod.case) simp
        moreover have "keeps (Suc h) (\<lambda>j. i mod 32 ^ Suc (Suc h) \<le> j mod 32 ^ Suc (Suc h)) (Some (VInner o' a)) (Some (VInner o1 (clear_below a ?idx)))"
          using len wfe ge by (intro keeps_Suc [OF wf]) (auto simp: elem_clear leD)
        ultimately show ?thesis using n wf by (simp del: wf_vnode.simps)
      next
        case (Some c)
        obtain c' u where rec: "removeBefore own (5 * h) (int i) c = (c', u)" by fastforce
        have wfc: "wf_vnode h (Some c)" using wfe [of ?idx] Some by simp
        have IH: "keeps h (\<lambda>j. i mod 32 ^ Suc h \<le> j mod 32 ^ Suc h) (Some c) (Some c')"
          using Suc.IH [OF _ _ wfc] Suc.prems rec by simp
        have R: "removeBefore own (5 * Suc h) (int i) n =
          (if u \<and> ?idx = 0 then (VInner o' (a[?idx := Some c']), True)
           else (VInner o1 ((clear_below a ?idx)[?idx := Some c']), s))"
          using notearly lt n Some ed rec
          by (simp only: removeBefore.simps early_def idx lv Let_def option.case prod.case) simp
        have "keeps (Suc h) (\<lambda>j. i mod 32 ^ Suc (Suc h) \<le> j mod 32 ^ Suc (Suc h)) (Some (VInner o' a)) (Some (VInner o2 b))"
          if b: "length b = length a" "\<And>k. elem b k = (if k = ?idx then Some c' else if k < ?idx then b' k else elem a k)"
            and wb: "\<And>k. wf_vnode h (b' k)" for b b' o2
        proof (rule keeps_Suc [OF wf])
          fix j assume j: "i mod 32 ^ Suc (Suc h) \<le> j mod 32 ^ Suc (Suc h)"
          show "vlook h (elem b (digit (Suc h) j)) j = vlook h (elem a (digit (Suc h) j)) j"
            using ge [OF j] eq [OF j] IH Some b by (auto simp: keeps_def)
        qed (use len wfe b wb IH in \<open>auto simp: keeps_def\<close>)
        from this [of "a[?idx := Some c']" "elem a"] this [of "(clear_below a ?idx)[?idx := Some c']" "\<lambda>_. None"]
        have K: "keeps (Suc h) (\<lambda>j. i mod 32 ^ Suc (Suc h) \<le> j mod 32 ^ Suc (Suc h)) (Some (VInner o' a)) (Some (VInner o2 (a[?idx := Some c'])))"
          "keeps (Suc h) (\<lambda>j. i mod 32 ^ Suc (Suc h) \<le> j mod 32 ^ Suc (Suc h)) (Some (VInner o' a)) (Some (VInner o2 ((clear_below a ?idx)[?idx := Some c'])))" for o2
          using lt wfe by (auto simp: elem_update elem_clear)
        show ?thesis
        proof (cases "u \<and> ?idx = 0")
          case True
          show ?thesis unfolding R if_P [OF True] fst_conv unfolding n by (rule K(1))
        next
          case False
          show ?thesis unfolding R if_not_P [OF False] fst_conv unfolding n by (rule K(2))
        qed
      qed
    qed
  qed
qed

lemma removeAfter_keeps:
  assumes "h \<le> 6" "i < 2 ^ 32" "wf_vnode h (Some n)"
  shows "keeps h (\<lambda>j. j mod 32 ^ Suc h \<le> i mod 32 ^ Suc h) (Some n) (Some (fst (removeAfter own (5 * h) (int i + 1) n)))"
  using assms
proof (induction h arbitrary: n)
  case 0
  then obtain o' a where n: "n = VLeaf o' a" "length a \<le> 32" using wf_vnode_0 by blast
  obtain o1 s where ed: "editableLeaf (Some (VLeaf o' a)) own = (o1, a, s)" using editableLeaf_Some by blast
  have idx: "slot_index (int i) 0 = i mod 32" using slot_index_digit [of i 0] 0 by (simp add: digit_def)
  show ?case using n ed by (auto simp: keeps_def idx elem_take Let_def)
next
  case (Suc h)
  then obtain o' a where n: "n = VInner o' a" using wf_vnode_Suc by blast
  obtain o1 s where ed: "editableInner (Some (VInner o' a)) own = (o1, a, s)" using editableInner_Some by blast
  let ?idx = "digit (Suc h) i" and ?P = "\<lambda>j. j mod 32 ^ Suc (Suc h) \<le> i mod 32 ^ Suc (Suc h)"
  have idx: "slot_index (int i + 1 - 1) (5 * Suc h) = ?idx" using slot_index_digit [of i "Suc h"] Suc.prems by simp
  have wf: "wf_vnode (Suc h) (Some (VInner o' a))" and len: "length a \<le> 32" and wfe: "wf_vnode h (elem a k)" for k
    using Suc.prems n wf_elem by (auto simp del: wf_vnode.simps) (simp add: wf_inner_iff)
  have ge: "digit (Suc h) j \<le> ?idx" if "?P j" for j using that by (rule digit_mono)
  have eq: "j mod 32 ^ Suc h \<le> i mod 32 ^ Suc h" if "?P j" "digit (Suc h) j = ?idx" for j
    using that digit_eq_mod [of "Suc h" j i] by simp
  have lv: "5 * Suc h - SHIFT = 5 * h" by (simp add: SHIFT_def)
  define early where "early \<longleftrightarrow> int i + 1 = (if 5 * Suc h \<noteq> 0 then jsl 1 (5 * Suc h) else 0) \<or> a = []"
  show ?case
  proof (cases "early \<or> length a \<le> ?idx")
    case True
    have "removeAfter own (5 * Suc h) (int i + 1) n = (VInner o' a, True)"
    proof (cases early)
      case True
      then show ?thesis unfolding n removeAfter.simps early_def by (rule if_P)
    next
      case False
      then show ?thesis using \<open>early \<or> length a \<le> ?idx\<close>
        by (simp only: n removeAfter.simps early_def idx Let_def) simp
    qed
    then show ?thesis using n wf by (simp del: wf_vnode.simps)
  next
    case False
    then have notearly: "\<not> early" and lt: "?idx < length a" by auto
    show ?thesis
    proof (cases "elem a ?idx")
      case None
      have R: "removeAfter own (5 * Suc h) (int i + 1) n =
        (if ?idx = length a - 1 then (VInner o' a, True) else (VInner o1 (take (?idx + 1) a), s))"
        using notearly lt n None ed by (simp only: removeAfter.simps early_def idx Let_def option.case prod.case) simp
      have "keeps (Suc h) ?P (Some (VInner o' a)) (Some (VInner o1 (take (?idx + 1) a)))"
        using len wfe ge by (intro keeps_Suc [OF wf]) (auto simp: elem_take le_imp_less_Suc)
      then show ?thesis using wf unfolding R unfolding n by (simp del: wf_vnode.simps)
    next
      case (Some c)
      obtain c' u where rec: "removeAfter own (5 * h) (int i + 1) c = (c', u)" by fastforce
      have wfc: "wf_vnode h (Some c)" using wfe [of ?idx] Some by simp
      have IH: "keeps h (\<lambda>j. j mod 32 ^ Suc h \<le> i mod 32 ^ Suc h) (Some c) (Some c')"
        using Suc.IH [OF _ _ wfc] Suc.prems rec by simp
      have R: "removeAfter own (5 * Suc h) (int i + 1) n =
        (if u \<and> ?idx = length a - 1 then (VInner o' (a[?idx := Some c']), True)
         else (VInner o1 ((take (?idx + 1) a)[?idx := Some c']), s))"
        using notearly lt n Some ed rec
        by (simp only: removeAfter.simps early_def idx lv Let_def option.case prod.case) simp
      have "keeps (Suc h) ?P (Some (VInner o' a)) (Some (VInner o2 b))"
        if b: "length b \<le> length a" "\<And>k. elem b k = (if k = ?idx then Some c' else if ?idx < k then b' k else elem a k)"
          and wb: "\<And>k. wf_vnode h (b' k)" for b b' o2
      proof (rule keeps_Suc [OF wf])
        fix j assume j: "?P j"
        show "vlook h (elem b (digit (Suc h) j)) j = vlook h (elem a (digit (Suc h) j)) j"
          using ge [OF j] eq [OF j] IH Some b by (auto simp: keeps_def)
      qed (use len wfe b wb IH in \<open>auto simp: keeps_def\<close>)
      from this [of "a[?idx := Some c']" "elem a"] this [of "(take (?idx + 1) a)[?idx := Some c']" "\<lambda>_. None"]
      have K: "keeps (Suc h) ?P (Some (VInner o' a)) (Some (VInner o2 (a[?idx := Some c'])))"
        "keeps (Suc h) ?P (Some (VInner o' a)) (Some (VInner o2 ((take (?idx + 1) a)[?idx := Some c'])))" for o2
        using lt wfe by (auto simp: elem_update elem_take)
      show ?thesis
      proof (cases "u \<and> ?idx = length a - 1")
        case True
        show ?thesis unfolding R if_P [OF True] fst_conv unfolding n by (rule K(1))
      next
        case False
        show ?thesis unfolding R if_not_P [OF False] fst_conv unfolding n by (rule K(2))
      qed
    qed
  qed
qed

section \<open>Merging the tail, raising and collecting the root\<close>

lemma merge_tail_spec:
  assumes "1 \<le> h" "h \<le> 6" "t < 2 ^ 32" "wf_vnode h n" "wf_vnode 0 T"
  shows "wf_vnode h (Some (merge_tail own (5 * h) (int t) T n)) \<and>
    (\<forall>j. vlook h (Some (merge_tail own (5 * h) (int t) T n)) j =
       (if j mod 32 ^ Suc h div 32 = t mod 32 ^ Suc h div 32 then elem (leaf_array T) (j mod 32) else vlook h n j))"
  using assms
proof (induction h arbitrary: n)
  case (Suc h)
  let ?a = "inner_array n" and ?idx = "digit (Suc h) t"
  have idx: "slot_index (int t) (5 * Suc h) = ?idx" using slot_index_digit [of t "Suc h"] Suc.prems by simp
  obtain o1 s where ed: "editableInner n own = (o1, ?a, s)"
    using editableInner_array [of n own] by (cases "editableInner n own") auto
  have len: "length ?a \<le> 32" using wf_vnode_Suc [OF Suc.prems(4)] Suc.prems(4) by auto
  define c where "c = (if h = 0 then T else Some (merge_tail own (5 * h) (int t) T (elem ?a ?idx)))"
  have eq: "merge_tail own (5 * Suc h) (int t) T n = VInner o1 (put_elem ?a ?idx c)"
    using ed idx slot_index_digit [of t "Suc 0"] Suc.prems
    by (subst merge_tail.simps) (simp add: c_def SHIFT_def Let_def)
  have c: "wf_vnode h c \<and> (\<forall>j. vlook h c j =
      (if j mod 32 ^ Suc h div 32 = t mod 32 ^ Suc h div 32 then elem (leaf_array T) (j mod 32)
       else vlook h (elem ?a ?idx) j))"
  proof (cases "h = 0")
    case True
    then show ?thesis using Suc.prems by (simp add: c_def vlook_0)
  next
    case False
    then show ?thesis using Suc.IH [OF _ _ _ wf_elem_inner [OF Suc.prems(4)]] Suc.prems by (simp add: c_def)
  qed
  have split: "j mod 32 ^ Suc (Suc h) div 32 = t mod 32 ^ Suc (Suc h) div 32 \<longleftrightarrow>
      digit (Suc h) j = ?idx \<and> j mod 32 ^ Suc h div 32 = t mod 32 ^ Suc h div 32" for j
  proof -
    have d: "x mod 32 ^ Suc (Suc h) div 32 = digit (Suc h) x * 32 ^ h + x mod 32 ^ Suc h div 32" for x
      by (subst digit_split) (simp add: div_mult_self1)
    have b: "x mod 32 ^ Suc h div 32 < 32 ^ h" for x :: nat
      by (simp add: less_mult_imp_div_less mult.commute)
    show ?thesis
    proof
      assume e: "j mod 32 ^ Suc (Suc h) div 32 = t mod 32 ^ Suc (Suc h) div 32"
      then have "digit (Suc h) j * 32 ^ h + j mod 32 ^ Suc h div 32 = ?idx * 32 ^ h + t mod 32 ^ Suc h div 32"
        by (simp only: d)
      then have "(digit (Suc h) j * 32 ^ h + j mod 32 ^ Suc h div 32) div 32 ^ h = (?idx * 32 ^ h + t mod 32 ^ Suc h div 32) div 32 ^ h"
        by simp
      then have "digit (Suc h) j = ?idx" using b [of j] b [of t] by simp
      with e show "digit (Suc h) j = ?idx \<and> j mod 32 ^ Suc h div 32 = t mod 32 ^ Suc h div 32" by (simp only: d) simp
    qed (simp only: d)
  qed
  have "wf_vnode (Suc h) (Some (VInner o1 (put_elem ?a ?idx c)))"
    using len c wf_elem_inner [OF Suc.prems(4)] digit_less [of "Suc h" t]
    by (auto simp: wf_inner_iff elem_put Suc_le_eq simp del: wf_vnode.simps digit_less)
  then show ?case unfolding eq split using c Suc.prems(4) by (simp add: elem_put vlook_Suc del: power_Suc wf_vnode.simps)
qed simp

lemma no_content: "\<not> has_content n \<Longrightarrow> vlook h n i = None"
  by (cases "(h, n, i)" rule: vlook.cases) (auto simp: has_content_def)

lemma digit_small: "j < 32 ^ h \<Longrightarrow> digit h j = 0"
  by (simp add: digit_def)

lemma digit_next: "j < 32 ^ h \<Longrightarrow> digit h (j + 32 ^ h) = 1"
  by (simp add: digit_def)

lemma raise_right:
  assumes "wf_vnode h n" and m: "m = Some (VInner own (if has_content n then [n] else []))"
  shows "wf_vnode (Suc h) m" "j < 32 ^ Suc h \<Longrightarrow> vlook (Suc h) m j = vlook h n j"
  using assms by (auto simp: digit_small no_content elem_def)

lemma raise_left:
  assumes "wf_vnode h n" and m: "m = Some (VInner own (if has_content n then [None, n] else []))"
  shows "wf_vnode (Suc h) m" "j < 32 ^ Suc h \<Longrightarrow> vlook (Suc h) m (j + 32 ^ Suc h) = vlook h n j"
proof -
  show "wf_vnode (Suc h) m" using assms by auto
  assume "j < 32 ^ Suc h"
  then have "digit (Suc h) (j + 32 ^ Suc h) = 1" by (rule digit_next)
  moreover have "vlook h n (j + 32 ^ Suc h) = vlook h n j" by (rule vlook_mod) simp
  ultimately show "vlook (Suc h) m (j + 32 ^ Suc h) = vlook h n j"
    unfolding m by (auto simp: elem_def no_content simp del: power_Suc)
qed

lemma raise_capacity_spec:
  assumes "wf_vnode h n" "h \<le> 5" "t < 2 ^ 30"
  shows "\<exists>n' h'. raise_capacity own (int t) n (5 * h) = Some (n', 5 * h') \<and> h \<le> h' \<and> h' \<le> 5 \<and> wf_vnode h' n' \<and>
    t < 32 ^ Suc h' \<and> (\<forall>j < 32 ^ Suc h. vlook h' n' j = vlook h n j) \<and> (t < 32 ^ Suc h \<longrightarrow> h' = h \<and> n' = n)"
  using assms
proof (induction "5 - h" arbitrary: h n)
  case 0
  then have h: "h = 5" by simp
  have "raise_capacity own (int t) n (5 * h) = Some (n, 5 * h)"
    using 0 jsl_power [of 6] by (subst raise_capacity.simps) (simp add: SHIFT_def h)
  then show ?case using 0 h by (intro exI [of _ n] exI [of _ h]) auto
next
  case (Suc d)
  define m where "m = Some (VInner own (if has_content n then [n] else []))"
  note m = raise_right [OF Suc.prems(1) m_def]
  have d: "d = 5 - Suc h" "Suc h \<le> 5" using Suc.hyps(2) by auto
  have lv: "5 * h + SHIFT = 5 * Suc h" by (simp add: SHIFT_def)
  have pw: "jsl 1 (5 * Suc h) = int (32 ^ Suc h)" using jsl_power [of "Suc h"] Suc by simp
  show ?case
  proof (cases "t < 32 ^ Suc h")
    case True
    then have "\<not> int (32 ^ Suc h) \<le> int t" by linarith
    then have "raise_capacity own (int t) n (5 * h) = Some (n, 5 * h)"
      by (subst raise_capacity.simps) (simp only: lv pw if_False)
    then show ?thesis using True Suc.prems by blast
  next
    case False
    then have "int (32 ^ Suc h) \<le> int t" by linarith
    then have "raise_capacity own (int t) n (5 * h) = raise_capacity own (int t) m (5 * Suc h)"
      by (subst raise_capacity.simps) (simp only: lv pw if_True m_def)
    moreover obtain n' h' where IH: "raise_capacity own (int t) m (5 * Suc h) = Some (n', 5 * h')" "Suc h \<le> h'" "h' \<le> 5"
        "wf_vnode h' n'" "t < 32 ^ Suc h'" "\<forall>j < 32 ^ Suc (Suc h). vlook h' n' j = vlook (Suc h) m j"
      using Suc.hyps(1) [OF d(1) m(1) d(2) Suc.prems(3)] by (elim exE conjE) (rule that; assumption)
    moreover have "vlook h' n' j = vlook h n j" if "j < 32 ^ Suc h" for j
      using IH(6) that m(2) [OF that] by simp
    ultimately show ?thesis using False by (metis Suc_leD)
  qed
qed

lemma raise_origin_spec:
  assumes "wf_vnode h n" "h \<le> 5" "0 \<le> O' + int s \<or> h \<le> 4 \<and> - (2 ^ 25) \<le> O' + int s"
  shows "\<exists>n' h' d. raise_origin own O' n (5 * h) (int s) = Some (n', 5 * h', int (s + d)) \<and> h \<le> h' \<and> h' \<le> 5 \<and>
    wf_vnode h' n' \<and> 0 \<le> O' + int (s + d) \<and> 32 dvd d \<and> d + 32 ^ Suc h \<le> 32 ^ Suc h' \<and>
    (\<forall>j < 32 ^ Suc h. vlook h' n' (j + d) = vlook h n j) \<and>
    (0 \<le> O' + int s \<longrightarrow> d = 0 \<and> h' = h \<and> n' = n) \<and> (\<not> 0 \<le> O' + int s \<longrightarrow> 32 ^ Suc h \<le> d \<and> O' + int (s + d) < int d)"
  using assms
proof (induction "5 - h" arbitrary: h n s)
  case 0
  then have "0 \<le> O' + int s" by simp
  then have "raise_origin own O' n (5 * h) (int s) = Some (n, 5 * h, int (s + 0))"
    by (subst raise_origin.simps) simp
  then show ?case using 0 by (intro exI [of _ n] exI [of _ h] exI [of _ 0]) auto
next
  case (Suc k)
  define m where "m = Some (VInner own (if has_content n then [None, n] else []))"
  note m = raise_left [OF Suc.prems(1) m_def]
  have d: "k = 5 - Suc h" "Suc h \<le> 5" using Suc.hyps(2) by auto
  show ?case
  proof (cases "0 \<le> O' + int s")
    case True
    then have "raise_origin own O' n (5 * h) (int s) = Some (n, 5 * h, int (s + 0))"
      by (subst raise_origin.simps) simp
    then show ?thesis using True Suc.prems by (intro exI [of _ n] exI [of _ h] exI [of _ 0]) auto
  next
    case False
    then have h: "h \<le> 4" "- (2 ^ 25) \<le> O' + int s" using Suc.prems by auto
    have lv: "5 * h + SHIFT = 5 * Suc h" by (simp add: SHIFT_def)
    have pw: "jsl 1 (5 * Suc h) = int (32 ^ Suc h)" using jsl_power [of "Suc h"] h by simp
    have lt: "O' + int s < 0" using False by simp
    have step: "raise_origin own O' n (5 * h) (int s) = raise_origin own O' m (5 * Suc h) (int (s + 32 ^ Suc h))"
      unfolding of_nat_add
      by (subst raise_origin.simps) (simp only: lv pw lt if_True m_def)
    have room: "0 \<le> O' + int (s + 32 ^ Suc h) \<or> Suc h \<le> 4 \<and> - (2 ^ 25) \<le> O' + int (s + 32 ^ Suc h)"
    proof (cases "h = 4")
      case True
      then show ?thesis using h by simp
    next
      case False
      have "int s \<le> int (s + 32 ^ Suc h)" by simp
      then show ?thesis using h False by linarith
    qed
    obtain n' h' d where IH: "raise_origin own O' m (5 * Suc h) (int (s + 32 ^ Suc h)) = Some (n', 5 * h', int (s + 32 ^ Suc h + d))"
        "Suc h \<le> h'" "h' \<le> 5" "wf_vnode h' n'" "0 \<le> O' + int (s + 32 ^ Suc h + d)" "32 dvd d"
        "d + 32 ^ Suc (Suc h) \<le> 32 ^ Suc h'" "\<forall>j < 32 ^ Suc (Suc h). vlook h' n' (j + d) = vlook (Suc h) m j"
        "0 \<le> O' + int (s + 32 ^ Suc h) \<longrightarrow> d = 0"
        "\<not> 0 \<le> O' + int (s + 32 ^ Suc h) \<longrightarrow> O' + int (s + 32 ^ Suc h + d) < int d"
      using Suc.hyps(1) [OF d(1) m(1) d(2) room] by (elim exE conjE) (rule that; (assumption | blast))
    have "vlook h' n' (j + (32 ^ Suc h + d)) = vlook h n j" if "j < 32 ^ Suc h" for j
    proof -
      have "j + 32 ^ Suc h < 32 ^ Suc (Suc h)" using that by simp
      then have "vlook h' n' (j + 32 ^ Suc h + d) = vlook (Suc h) m (j + 32 ^ Suc h)" using IH(8) by blast
      then show ?thesis using m(2) [OF that] by (simp add: add.assoc)
    qed
    moreover have "32 dvd 32 ^ Suc h + d" using IH(6) by simp
    moreover have "32 ^ Suc h + d + 32 ^ Suc h \<le> 32 ^ Suc h'" using IH(7) by simp
    moreover have "O' + int (s + (32 ^ Suc h + d)) < int (32 ^ Suc h + d)" using lt by simp
    ultimately show ?thesis using step IH(1-5) lt
      by (intro exI [of _ n'] exI [of _ h'] exI [of _ "32 ^ Suc h + d"]) (simp add: add.assoc del: power_Suc)
  qed
qed

lemma digit_offset: "32 ^ Suc h dvd s \<Longrightarrow> digit h (s + x) = digit h x"
proof (elim dvdE)
  fix q assume "s = 32 ^ Suc h * q"
  then have "s + x = x + (32 * q) * 32 ^ h" by (simp add: ac_simps)
  then have "(s + x) div 32 ^ h = 32 * q + x div 32 ^ h" by (simp only: div_mult_self1) simp
  then show "digit h (s + x) = digit h x" by (simp add: digit_def)
qed

lemma digit_top: "x < 32 ^ Suc h \<Longrightarrow> digit h x = x div 32 ^ h"
  by (simp add: digit_def less_mult_imp_div_less)

lemma jsr_power:
  assumes "i < 2 ^ 32" "h \<le> 6" shows "jsr (int i) (5 * h) = int (i div 32 ^ h)"
proof -
  have m: "5 * h mod 32 = 5 * h" by (rule mod_less) (use assms(2) in linarith)
  have "jsr (int i) (5 * h) = int (unat (drop_bit (5 * h) (of_nat i :: int32)))"
    by (simp only: jsr_def ushr32_def uint_nat m of_int_of_nat_eq)
  also have "\<dots> = int (unat (of_nat i :: int32) div 2 ^ (5 * h))" by (simp only: unat_drop)
  also have "unat (of_nat i :: int32) = i" using assms(1) by (simp add: unat_of_nat)
  finally show ?thesis by (simp add: power_mult)
qed

lemma collect_root_spec:
  assumes "1 \<le> h" "h \<le> 5" "wf_vnode h n" "a < t" "32 dvd t" "32 ^ Suc h dvd s" "t < 32 ^ Suc h" "s + t < 2 ^ 32"
  shows "\<exists>n' h' d. collect_root (int (s + a)) (int (s + t)) n (5 * h) (int s) = (n', 5 * h', int (s + d)) \<and> 1 \<le> h' \<and> h' \<le> h \<and>
    wf_vnode h' n' \<and> d \<le> a \<and> 32 dvd d \<and> t - d < 32 ^ Suc h' \<and> (\<forall>i. a \<le> i \<and> i < t \<longrightarrow> vlook h' n' (i - d) = vlook h n i)"
  using assms
proof (induction h arbitrary: n a t s)
  case (Suc h)
  let ?T = "(s + t) div 32 ^ Suc h"
  have idx: "slot_index (int (s + a)) (5 * Suc h) = digit (Suc h) a" "jsr (int (s + t)) (5 * Suc h) = int ?T"
    using slot_index_digit [of "s + a" "Suc h"] jsr_power [of "s + t" "Suc h"] Suc.prems by (simp_all add: digit_offset)
  let ?g = "digit (Suc h) a"
  consider "n = None" | "n \<noteq> None" "?g \<noteq> ?T" | "n \<noteq> None" "?g = ?T" by blast
  then show ?case
  proof cases
    case 1
    then have "collect_root (int (s + a)) (int (s + t)) n (5 * Suc h) (int s) = (n, 5 * Suc h, int (s + 0))"
      by (subst collect_root.simps) simp
    then show ?thesis using Suc.prems by (intro exI [of _ n] exI [of _ "Suc h"] exI [of _ 0]) simp
  next
    case 2
    then have "collect_root (int (s + a)) (int (s + t)) n (5 * Suc h) (int s) = (n, 5 * Suc h, int (s + 0))"
      by (cases n) (simp_all add: collect_root.simps [of _ _ "Some _"] idx del: mult_Suc_right of_nat_add)
    then show ?thesis using Suc.prems by (intro exI [of _ n] exI [of _ "Suc h"] exI [of _ 0]) simp
  next
    case 3
    let ?d = "?g * 32 ^ Suc h" and ?m = "elem (inner_array n) ?g"
    have "?T < 32" using 3(2) digit_less [of "Suc h" a] by simp
    then have gt: "?g = digit (Suc h) t" using 3(2) digit_offset [OF Suc.prems(6), of t] by (simp add: digit_def del: power_Suc)
    have top: "a div 32 ^ Suc h = ?g" "t div 32 ^ Suc h = ?g"
      using gt Suc.prems digit_top [of a "Suc h"] digit_top [of t "Suc h"] by auto
    have a: "?d \<le> a" "a - ?d < 32 ^ Suc h" and t: "?d \<le> t" "t - ?d < 32 ^ Suc h"
      using div_mult_mod_eq [of a "32 ^ Suc h"] div_mult_mod_eq [of t "32 ^ Suc h"] top
        mod_less_divisor [of "32 ^ Suc h" a] mod_less_divisor [of "32 ^ Suc h" t] by (simp_all del: power_Suc mod_less_divisor)
    have h: "1 \<le> h"
    proof (rule ccontr)
      assume "\<not> 1 \<le> h"
      then have "h = 0" by simp
      then have "a div 32 = t div 32" using top by simp
      then show False using \<open>32 dvd t\<close> \<open>a < t\<close> by (metis dvd_div_mult_self div_times_less_eq_dividend leD)
    qed
    have lv: "5 * Suc h - SHIFT = 5 * h" by (simp add: SHIFT_def)
    have pw: "jsl 1 (5 * Suc h) = int (32 ^ Suc h)" using jsl_power [of "Suc h"] Suc.prems by simp
    have sh: "(if ?g \<noteq> 0 then int s + jsl 1 (5 * Suc h) * int ?g else int s) = int (s + ?d)"
      unfolding pw by (simp add: mult.commute)
    have s': "s + ?d + (a - ?d) = s + a" "s + ?d + (t - ?d) = s + t" using a t by auto
    have step: "collect_root (int (s + a)) (int (s + t)) n (5 * Suc h) (int s) =
        collect_root (int (s + ?d + (a - ?d))) (int (s + ?d + (t - ?d))) ?m (5 * h) (int (s + ?d))"
    proof -
      obtain m where n: "n = Some m" using 3 by blast
      have "\<not> (int ?g \<noteq> int ?T \<or> 5 * Suc h = 0)" using 3 by simp
      then show ?thesis unfolding s' sh [symmetric]
        by (subst collect_root.simps) (simp only: n idx Let_def lv option.case if_False)
    qed
    have dv: "32 ^ Suc h dvd s + ?d" "32 dvd t - ?d" "32 dvd ?d"
      using Suc.prems(5,6) t(1) by (auto intro!: dvd_add dvd_diff_nat elim: dvd_trans [rotated])
    have lt: "a - ?d < t - ?d" using Suc.prems(4) a(1) by (rule diff_less_mono)
    have bound: "s + ?d + (t - ?d) < 2 ^ 32" unfolding s' by (rule Suc.prems(8))
    obtain n' h' d where IH: "collect_root (int (s + ?d + (a - ?d))) (int (s + ?d + (t - ?d))) ?m (5 * h) (int (s + ?d)) = (n', 5 * h', int (s + ?d + d))"
        "1 \<le> h'" "h' \<le> h" "wf_vnode h' n'" "d \<le> a - ?d" "32 dvd d" "t - ?d - d < 32 ^ Suc h'"
        "\<forall>i. a - ?d \<le> i \<and> i < t - ?d \<longrightarrow> vlook h' n' (i - d) = vlook h ?m i"
      using Suc.IH [OF h Suc_leD [OF Suc.prems(2)] wf_elem_inner [OF Suc.prems(3), of ?g] lt dv(2,1) t(2) bound]
      by (elim exE conjE) (rule that; assumption)
    have look: "vlook h' n' (i - (?d + d)) = vlook (Suc h) n i" if i: "a \<le> i" "i < t" for i
    proof -
      have "?g \<le> i div 32 ^ Suc h" "i div 32 ^ Suc h \<le> ?g"
        using div_le_mono [of a i "32 ^ Suc h"] div_le_mono [of i t "32 ^ Suc h"] i top by auto
      then have "digit (Suc h) i = ?g" using i Suc.prems by (subst digit_top) auto
      moreover have "vlook h ?m (i - ?d) = vlook h ?m i"
      proof (rule vlook_mod)
        have "i = i - ?d + ?g * 32 ^ Suc h" using i a by simp
        then show "(i - ?d) mod 32 ^ Suc h = i mod 32 ^ Suc h" by (metis mod_mult_self1)
      qed
      moreover have "a - ?d \<le> i - ?d \<and> i - ?d < t - ?d" using i a(1) by linarith
      then have "vlook h' n' (i - ?d - d) = vlook h ?m (i - ?d)" using IH(8) by blast
      ultimately show ?thesis using vlook_Suc [OF Suc.prems(3), of i] by (simp only: diff_diff_left)
    qed
    have "32 dvd ?d + d" using dv(3) IH(6) by simp
    moreover have "?d + d \<le> a" using IH(5) a by simp
    moreover have "t - (?d + d) < 32 ^ Suc h'" using IH(7) by (simp only: diff_diff_left)
    ultimately show ?thesis using step IH(1-4) look
      by (intro exI [of _ n'] exI [of _ h'] exI [of _ "?d + d"]) (simp add: add.assoc le_SucI del: power_Suc)
  qed
qed simp

end
