(* ===== verification/Imm_ListSpec.thy ===== *)
theory Imm_ListSpec
  imports Imm_ListInv
begin

text \<open>
  What resizing a well-formed \<open>List\<close> does to its contents. \<open>list_at l h a c\<close> says that \<open>l\<close> is well
  formed with height \<open>h\<close>, origin \<open>a\<close> and capacity \<open>c\<close>; \<open>raw_slot\<close> is the value of a raw slot. Each step of
  \<open>setListBounds\<close> keeps the slots that stay in range, up to a shift of the raw indices.
\<close>

section \<open>The tail offset\<close>

definition tail_off :: "nat \<Rightarrow> nat" where
  "tail_off c = (c - 1) div 32 * 32"

lemma tail_off_le: "tail_off c \<le> c - 1"
  by (simp add: tail_off_def)

lemma tail_off_less: "0 < c \<Longrightarrow> tail_off c < c"
  using tail_off_le [of c] by simp

lemma tail_off_dvd [simp]: "32 dvd tail_off c"
  by (simp add: tail_off_def)

lemma tail_off_block: "tail_off c \<le> i \<Longrightarrow> i < c \<Longrightarrow> i mod 32 = i - tail_off c \<and> i - tail_off c < 32"
proof -
  assume i: "tail_off c \<le> i" "i < c"
  have "i < tail_off c + 32"
    using i div_mult_mod_eq [of "c - 1" 32] mod_less_divisor [of 32 "c - 1"] unfolding tail_off_def by linarith
  moreover from this obtain k where "i = tail_off c + k" "k < 32" using i(1) by (metis le_Suc_ex nat_add_left_cancel_less)
  ultimately show ?thesis by (simp add: tail_off_def)
qed

lemma tail_off_mono: "c \<le> d \<Longrightarrow> tail_off c \<le> tail_off d"
  by (simp add: tail_off_def div_le_mono)

lemma tail_off_ge: "32 dvd d \<Longrightarrow> d < c \<Longrightarrow> d \<le> tail_off c"
proof -
  assume "32 dvd d" "d < c"
  then have "d div 32 * 32 \<le> (c - 1) div 32 * 32" by (intro mult_right_mono div_le_mono) auto
  then show ?thesis using \<open>32 dvd d\<close> by (simp add: tail_off_def)
qed

lemma tail_off_shift: "32 dvd d \<Longrightarrow> 0 < c \<Longrightarrow> tail_off (c + d) = tail_off c + d"
proof -
  assume "32 dvd d" "0 < c"
  then obtain k where "d = 32 * k" by blast
  moreover have "c + 32 * k - 1 = (c - 1) + 32 * k" using \<open>0 < c\<close> by simp
  ultimately show ?thesis by (simp add: tail_off_def)
qed

lemma tail_off_diff: "32 dvd d \<Longrightarrow> d < c \<Longrightarrow> tail_off (c - d) = tail_off c - d"
  using tail_off_shift [of d "c - d"] by simp

lemma getTailOffset_nat: "c \<le> 2 ^ 31 \<Longrightarrow> getTailOffset (int c) = int (tail_off c)"
proof -
  assume c: "c \<le> 2 ^ 31"
  show ?thesis
  proof (cases "c < 32")
    case True
    then show ?thesis by (simp add: getTailOffset_def tail_off_def)
  next
    case False
    then have e: "int c - 1 = int (c - 1)" by simp
    have lt: "c - 1 < 2 ^ 31" using c False by auto
    have "jsr (int (c - 1)) SHIFT = int ((c - 1) div 32)"
      using lt by (simp add: jsr_def ushr32_def SHIFT_def uint_nat unat_drop unat_of_nat)
    moreover have "jsl (int ((c - 1) div 32)) SHIFT = int (tail_off c)"
    proof -
      have e: "push_bit (5 mod 32) (word_of_int (int ((c - 1) div 32)) :: int32) = word_of_int (int (tail_off c))"
        by (simp add: push_bit_eq_mult tail_off_def mult.commute)
      have "tail_off c < 2 ^ 31" using tail_off_le [of c] lt by (rule le_less_trans)
      then have "to_int32 (int (tail_off c)) = int (tail_off c)" by (intro to_int32_id) simp_all
      then show ?thesis unfolding jsl_def shl32_def SHIFT_def e to_int32_def .
    qed
    moreover have "\<not> int c < int SIZE" using False by simp
    ultimately show ?thesis unfolding getTailOffset_def e by (simp only: if_False)
  qed
qed

section \<open>Well-formed lists\<close>

definition list_at :: "'v ilist \<Rightarrow> nat \<Rightarrow> nat \<Rightarrow> nat \<Rightarrow> bool" where
  "list_at l h a c \<longleftrightarrow>
     l_level l = 5 * h \<and> 1 \<le> h \<and> h \<le> 5 \<and> l_origin l = int a \<and> l_capacity l = int c \<and> a \<le> c \<and>
     l_size l = int c - int a \<and> tail_off c < 32 ^ Suc h \<and> wf_vnode h (l_root l) \<and> wf_vnode 0 (l_tail l) \<and>
     (a = c \<longrightarrow> c = 0 \<and> l_root l = None \<and> l_tail l = None)"

definition list_ok :: "'v ilist \<Rightarrow> bool" where
  "list_ok l \<longleftrightarrow> (\<exists>h a c. list_at l h a c)"

definition raw_slot :: "'v ilist \<Rightarrow> nat \<Rightarrow> nat \<Rightarrow> nat \<Rightarrow> 'v option" where
  "raw_slot l h c i = (if tail_off c \<le> i then elem (leaf_array (l_tail l)) (i mod 32) else vlook h (l_root l) i)"

lemma pow_le: "h \<le> 5 \<Longrightarrow> (32::nat) ^ Suc h \<le> 2 ^ 30"
  using power_increasing [of "Suc h" 6 "32::nat"] by simp

lemma capacity_bound: "list_at l h a c \<Longrightarrow> c \<le> 2 ^ 30"
proof -
  assume l: "list_at l h a c"
  then have lt: "tail_off c < 32 ^ Suc h" and h: "h \<le> 5" by (auto simp: list_at_def)
  have "(32::nat) dvd 32 ^ Suc h" by simp
  then have "\<not> 32 ^ Suc h < c" using tail_off_ge [of "32 ^ Suc h" c] lt by linarith
  then show ?thesis using pow_le [OF h] by linarith
qed

lemma list_node_slot:
  assumes "list_at l h a c" "k < c" "tail_off c \<le> k \<Longrightarrow> tail_off c \<le> i" "i div 32 = k div 32"
  shows "elem (leaf_array (listNodeFor l (int k))) (i mod 32) = raw_slot l h c i"
    and "wf_vnode 0 (listNodeFor l (int k))"
proof -
  note l = assms(1) [unfolded list_at_def]
  have c: "c \<le> 2 ^ 30" using capacity_bound [OF assms(1)] .
  have lim: "int k < jsl 1 (l_level l + SHIFT)" if "k < tail_off c"
  proof -
    have "jsl 1 (l_level l + SHIFT) = int (32 ^ Suc h)" using l jsl_power [of "Suc h"] by (simp add: SHIFT_def add.commute)
    moreover have "k < 32 ^ Suc h" using that l by linarith
    ultimately show ?thesis by linarith
  qed
  have off: "getTailOffset (l_capacity l) = int (tail_off c)" using getTailOffset_nat c l by simp
  have desc: "wf_vnode 0 (descend (l_root l) (l_level l) (int k)) \<and>
      elem (leaf_array (descend (l_root l) (l_level l) (int k))) (i mod 32) = vlook h (l_root l) i"
    using vlook_descend [of h k i "l_root l"] l c assms by simp
  have "tail_off c \<le> k \<longleftrightarrow> tail_off c \<le> i"
  proof
    assume "tail_off c \<le> i"
    then have "tail_off c div 32 \<le> k div 32" using div_le_mono [of "tail_off c" i 32] assms(4) by simp
    then have "tail_off c div 32 * 32 \<le> k" by (metis div_times_less_eq_dividend le_trans mult_le_mono1)
    then show "tail_off c \<le> k" by simp
  qed (rule assms(3))
  then show "elem (leaf_array (listNodeFor l (int k))) (i mod 32) = raw_slot l h c i"
    using lim desc not_le by (auto simp: listNodeFor_def off raw_slot_def)
  show "wf_vnode 0 (listNodeFor l (int k))"
    using lim desc l by (auto simp: listNodeFor_def off)
qed

lemma list_get_slot:
  assumes "list_at l h a c" "j < c - a"
  shows "list_get (int j) notSet l = raw_slot l h c (j + a)"
proof -
  have "l_size l = int c - int a" "l_origin l = int a" "int j < int c - int a"
    using assms by (auto simp: list_at_def)
  moreover have "slot_index (int (j + a)) 0 = (j + a) mod 32"
    using slot_index_digit [of "j + a" 0] capacity_bound [OF assms(1)] assms(2) by (simp add: digit_def)
  ultimately show ?thesis using list_node_slot(1) [OF assms(1), of "j + a" "j + a"] assms(2) by (simp add: list_get_def Let_def)
qed

lemma list_get_outside: "0 \<le> l_size l \<Longrightarrow> l_size l \<le> j \<Longrightarrow> list_get j notSet l = notSet"
  by (simp add: list_get_def)

lemma list_get_negative:
  "- l_size l \<le> j \<Longrightarrow> j < 0 \<Longrightarrow> list_get j notSet l = list_get (l_size l + j) notSet l"
  by (simp add: list_get_def)

section \<open>Trimming to the new bounds\<close>

definition owner_kept :: "'v ilist \<Rightarrow> 'v ilist \<Rightarrow> bool" where
  "owner_kept l l' \<longleftrightarrow> l_owner l' = l_owner l \<and> (l_owner l \<noteq> None \<longrightarrow> l_altered l')"

lemma store_list_fields:
  assumes "l' = upd_default l (store_list l o' c lv r t)"
  shows "l_size l' = c - o'" "l_origin l' = o'" "l_capacity l' = c" "l_level l' = lv" "l_root l' = r" "l_tail l' = t"
    "owner_kept l l'"
  using assms by (auto simp: store_list_def makeList_def owner_kept_def)

lemma store_list_at:
  assumes l': "l' = upd_default l (store_list l (int a) (int c) (5 * h) r t)"
    and "1 \<le> h" "h \<le> 5" "a < c" "tail_off c < 32 ^ Suc h" "wf_vnode h r" "wf_vnode 0 t"
  shows "list_at l' h a c" "raw_slot l' h c i = (if tail_off c \<le> i then elem (leaf_array t) (i mod 32) else vlook h r i)"
  using assms store_list_fields [OF l'] by (simp_all add: list_at_def raw_slot_def)

lemma keeps_leaf:
  assumes "keeps 0 P n n'" "wf_vnode 0 n" "P j"
  shows "elem (leaf_array n') (j mod 32) = elem (leaf_array n) (j mod 32)"
  using assms by (metis keeps_def vlook_0)

lemma keeps_map:
  assumes "\<And>m. n = Some m \<Longrightarrow> keeps h P (Some m) (Some (f m))"
  shows "keeps h P n (map_option f n)"
  using assms by (cases n) auto

lemma trim_bounds_spec:
  assumes h: "1 \<le> h" "h \<le> 5" and ac: "a < c" and off: "tail_off c < 32 ^ Suc h"
    and wf: "wf_vnode h R" "wf_vnode 0 T"
    and l': "l' = upd_default l (trim_bounds own l oldO oldC (int a) (int c) (5 * h) R T)"
  shows "\<exists>h' d. list_at l' h' (a - d) (c - d) \<and> d \<le> a \<and> owner_kept l l' \<and>
    (\<forall>i. a \<le> i \<and> i < c \<longrightarrow> raw_slot l' h' (c - d) (i - d) =
       (if tail_off c \<le> i then elem (leaf_array T) (i mod 32) else vlook h R i))"
proof -
  let ?t = "tail_off c"
  have c: "c \<le> 2 ^ 30"
    using tail_off_ge [of "32 ^ Suc h" c] off pow_le [OF h(2)] by (cases "32 ^ Suc h < c") auto
  have t: "getTailOffset (int c) = int ?t" using getTailOffset_nat c by simp
  define T1 where "T1 = (if int c < oldC then map_option (\<lambda>t. fst (removeAfter own 0 (int c) t)) T else T)"
  have cut: "keeps 0 (\<lambda>j. j mod 32 ^ Suc 0 \<le> (c - 1) mod 32 ^ Suc 0) (Some m) (Some (fst (removeAfter own 0 (int c) m)))"
    if "T = Some m" for m
    using removeAfter_keeps [of 0 "c - 1" m own] that wf(2) c ac by (simp add: of_nat_diff)
  have T1: "keeps 0 (\<lambda>j. j mod 32 ^ Suc 0 \<le> (c - 1) mod 32 ^ Suc 0) T T1"
    unfolding T1_def using cut wf(2) by (auto intro: keeps_map)
  have T1_wf: "wf_vnode 0 T1" using T1 by (simp add: keeps_def)
  have T1_elem: "elem (leaf_array T1) (i mod 32) = elem (leaf_array T) (i mod 32)" if "?t \<le> i" "i < c" for i
  proof (rule keeps_leaf [OF T1 wf(2)])
    have "?t \<le> c - 1" using tail_off_le .
    then show "i mod 32 ^ Suc 0 \<le> (c - 1) mod 32 ^ Suc 0"
      using tail_off_block [of c i] tail_off_block [of c "c - 1"] that ac by auto
  qed
  consider (tail) "?t \<le> a" | (collect) "a < ?t" "int a > oldO \<or> int ?t < getTailOffset oldC"
    | (same) "a < ?t" "\<not> (int a > oldO \<or> int ?t < getTailOffset oldC)" by linarith
  then show ?thesis
  proof cases
    case tail
    define T2 where "T2 = map_option (\<lambda>t. fst (removeBefore own 0 (int (a - ?t)) t)) T1"
    have small: "a - ?t < 32" using tail_off_block [of c a] tail ac by simp
    have T2: "keeps 0 (\<lambda>j. (a - ?t) mod 32 ^ Suc 0 \<le> j mod 32 ^ Suc 0) T1 T2"
      unfolding T2_def using removeBefore_keeps [of 0 "a - ?t" _ own] T1_wf small by (intro keeps_map) auto
    have eq: "l' = upd_default l (store_list l (int (a - ?t)) (int (c - ?t)) (5 * 1) None T2)"
    proof -
      have d: "int a - int ?t = int (a - ?t)" "int c - int ?t = int (c - ?t)" using tail ac by auto
      have "int ?t \<le> int a" using tail by simp
      then show ?thesis unfolding l' trim_bounds_def T2_def T1_def Let_def t by (simp only: if_True d SHIFT_def mult_1_right)
    qed
    have lt: "a - ?t < c - ?t" using tail ac by simp
    have off0: "tail_off (c - ?t) = 0" using tail_off_diff [of ?t c] tail ac by simp
    have T2_wf: "wf_vnode 0 T2" using T2 by (simp add: keeps_def)
    note at = store_list_at [OF eq _ _ lt _ _ T2_wf]
    have "list_at l' 1 (a - ?t) (c - ?t)" using at(1) off0 by simp
    moreover have "raw_slot l' 1 (c - ?t) (i - ?t) = elem (leaf_array T) (i mod 32)" if "a \<le> i" "i < c" for i
    proof -
      have i: "i mod 32 = i - ?t" "i - ?t < 32" using tail_off_block [of c i] tail that by auto
      have "raw_slot l' 1 (c - ?t) (i - ?t) = elem (leaf_array T2) ((i - ?t) mod 32)" using at(2) off0 by simp
      also have "\<dots> = elem (leaf_array T1) ((i - ?t) mod 32)"
        using that i small by (intro keeps_leaf [OF T2 T1_wf]) simp
      finally show ?thesis using T1_elem [of i] that tail i by simp
    qed
    ultimately show ?thesis using tail store_list_fields(7) [OF eq]
      by (intro exI [of _ 1] exI [of _ ?t]) auto
  next
    case collect
    have bound: "0 + ?t < 2 ^ 32" using tail_off_le [of c] c ac by simp
    obtain R1 h' d where col: "collect_root (int a) (int ?t) R (5 * h) 0 = (R1, 5 * h', int d)" "1 \<le> h'" "h' \<le> h"
        "wf_vnode h' R1" "d \<le> a" "32 dvd d" "?t - d < 32 ^ Suc h'"
        "\<forall>i. a \<le> i \<and> i < ?t \<longrightarrow> vlook h' R1 (i - d) = vlook h R i"
      using collect_root_spec [OF h wf(1) collect(1) tail_off_dvd dvd_0_right off bound]
      unfolding add_0 semiring_1_class.of_nat_0 by (elim exE conjE) (rule that; assumption)
    define R2 where "R2 = (if int a > oldO then map_option (\<lambda>r. fst (removeBefore own (5 * h') (int (a - d)) r)) R1 else R1)"
    define R3 where "R3 = (if int ?t < getTailOffset oldC then map_option (\<lambda>r. fst (removeAfter own (5 * h') (int (?t - d)) r)) R2 else R2)"
    have dt: "d < ?t" "d < c" using col(5) collect(1) ac by auto
    have R2: "keeps h' (\<lambda>j. (a - d) mod 32 ^ Suc h' \<le> j mod 32 ^ Suc h') R1 R2"
    proof -
      have "a - d < 2 ^ 32" "h' \<le> 6" using c ac col(3) h by auto
      then show ?thesis unfolding R2_def using removeBefore_keeps [of h' "a - d" _ own] col(4)
        by (auto intro!: keeps_map simp del: of_nat_diff power_Suc)
    qed
    have R2_wf: "wf_vnode h' R2" using R2 by (simp add: keeps_def)
    have cut: "keeps h' (\<lambda>j. j mod 32 ^ Suc h' \<le> (?t - d - 1) mod 32 ^ Suc h') (Some m) (Some (fst (removeAfter own (5 * h') (int (?t - d)) m)))"
      if "R2 = Some m" for m
      using removeAfter_keeps [of h' "?t - d - 1" m own] that R2_wf col(3) h c dt tail_off_le [of c]
      by (simp add: of_nat_diff del: power_Suc)
    have R3: "keeps h' (\<lambda>j. j mod 32 ^ Suc h' \<le> (?t - d - 1) mod 32 ^ Suc h') R2 R3"
      unfolding R3_def using cut R2_wf by (auto intro: keeps_map simp del: power_Suc)
    have R3_wf: "wf_vnode h' R3" using R3 by (simp add: keeps_def)
    have R3_look: "vlook h' R3 (i - d) = vlook h R i" if "a \<le> i" "i < ?t" for i
    proof -
      have lt: "i - d < 32 ^ Suc h'" "a - d < 32 ^ Suc h'" "?t - d - 1 < 32 ^ Suc h'" using that col(5,7) by linarith+
      have "i - d \<le> ?t - d - 1" using that col(5) by linarith
      then have "vlook h' R3 (i - d) = vlook h' R2 (i - d)" using R3 lt by (simp add: keeps_def del: power_Suc)
      also have "\<dots> = vlook h' R1 (i - d)" using R2 lt that by (simp add: keeps_def diff_le_mono del: power_Suc)
      finally show ?thesis using col(8) that by simp
    qed
    have eq: "l' = upd_default l (store_list l (int (a - d)) (int (c - d)) (5 * h') R3 T1)"
    proof -
      have d: "int a - int d = int (a - d)" "int c - int d = int (c - d)" "int ?t - int d = int (?t - d)"
        using col(5) ac dt by auto
      have n: "\<not> int ?t \<le> int a" using collect by simp
      show ?thesis unfolding l' trim_bounds_def R3_def R2_def T1_def Let_def t if_not_P [OF n] if_P [OF collect(2)]
        by (simp only: col(1) prod.case d)
    qed
    have od: "tail_off (c - d) = ?t - d" using tail_off_diff [OF col(6) dt(2)] .
    have "h' \<le> 5" "a - d < c - d" "tail_off (c - d) < 32 ^ Suc h'" using col h ac od by auto
    note at = store_list_at [OF eq col(2) this R3_wf T1_wf]
    have "raw_slot l' h' (c - d) (i - d) = (if ?t \<le> i then elem (leaf_array T) (i mod 32) else vlook h R i)"
      if "a \<le> i" "i < c" for i
    proof -
      have "d \<le> i" using that col(5) by simp
      have "(i - d) mod 32 = i mod 32"
      proof -
        obtain k where "d = 32 * k" using col(6) by blast
        then have "i = i - d + k * 32" using \<open>d \<le> i\<close> by simp
        then show ?thesis by (metis mod_mult_self1)
      qed
      moreover have "?t - d \<le> i - d \<longleftrightarrow> ?t \<le> i" using dt \<open>d \<le> i\<close> by linarith
      ultimately show ?thesis using at(2) [of "i - d"] od T1_elem [of i] R3_look [of i] that by simp
    qed
    then show ?thesis using at(1) col(5) store_list_fields(7) [OF eq] by blast
  next
    case same
    have eq: "l' = upd_default l (store_list l (int a) (int c) (5 * h) R T1)"
    proof -
      have n: "\<not> int ?t \<le> int a" using same by simp
      show ?thesis unfolding l' trim_bounds_def T1_def Let_def t if_not_P [OF n] if_not_P [OF same(2)] by (rule refl)
    qed
    note at = store_list_at [OF eq h ac off wf(1) T1_wf]
    show ?thesis using at T1_elem store_list_fields(7) [OF eq] by (intro exI [of _ h] exI [of _ 0]) auto
  qed
qed


section \<open>setListBounds\<close>

definition new_begin :: "'v ilist \<Rightarrow> int option \<Rightarrow> int" where
  "new_begin l begin = l_origin l + (case begin of None \<Rightarrow> 0 | Some b \<Rightarrow> to_int32 b)"

definition new_end :: "'v ilist \<Rightarrow> int option \<Rightarrow> int" where
  "new_end l end' =
     (case end' of None \<Rightarrow> l_capacity l
      | Some e \<Rightarrow> if to_int32 e < 0 then l_capacity l + to_int32 e else l_origin l + to_int32 e)"

lemma new_bounds_fold:
  "l_origin l + (case b of None \<Rightarrow> 0 | Some b \<Rightarrow> to_int32 b) = new_begin l b"
  "(case e of None \<Rightarrow> l_capacity l
    | Some e \<Rightarrow> if to_int32 e < 0 then l_capacity l + to_int32 e else l_origin l + to_int32 e) = new_end l e"
  by (cases e; simp add: new_begin_def new_end_def Let_def)+

lemma setListBounds_same:
  "new_begin l b = l_origin l \<Longrightarrow> new_end l e = l_capacity l \<Longrightarrow> setListBounds fresh b e l = Some (This l)"
  unfolding setListBounds_def Let_def new_bounds_fold by (simp only: simp_thms if_True)

lemma setListBounds_empty:
  "new_begin l b \<ge> new_end l e \<Longrightarrow> \<not> (new_begin l b = l_origin l \<and> new_end l e = l_capacity l) \<Longrightarrow>
     setListBounds fresh b e l = Some (list_clear l)"
  unfolding setListBounds_def Let_def new_bounds_fold by (simp only: if_True if_False)

lemma setListBounds_step:
  assumes "new_begin l b < new_end l e" "\<not> (new_begin l b = l_origin l \<and> new_end l e = l_capacity l)"
    and own: "own = (if l_owner l \<noteq> None then l_owner l else Some fresh)"
    and origin: "raise_origin own (new_begin l b) (l_root l) (l_level l) 0 = Some (root0, level0, int d)"
    and bounds: "new_begin l b + int d = int a'" "l_origin l + int d = oldO" "new_end l e + int d = int c'" "l_capacity l + int d = int oldC"
    and small: "c' \<le> 2 ^ 31" "oldC \<le> 2 ^ 31"
    and capacity: "raise_capacity own (int (tail_off c')) root0 level0 = Some (root1, level1)"
  shows "setListBounds fresh b e l = Some (trim_bounds own l oldO (int oldC) (int a') (int c') level1
    (if has_content (l_tail l) \<and> tail_off oldC < tail_off c' \<and> a' < oldC
     then Some (merge_tail own level1 (int (tail_off oldC)) (l_tail l) root1) else root1)
    (locate_tail own l (int c') (int (tail_off oldC)) (int (tail_off c'))))"
proof -
  have lt: "\<not> new_end l e \<le> new_begin l b" using assms(1) by simp
  have cmp: "new_begin l b < l_capacity l \<longleftrightarrow> a' < oldC" using bounds(1,4) by linarith
  show ?thesis
    unfolding setListBounds_def Let_def own [symmetric] new_bounds_fold if_not_P [OF assms(2)] if_not_P [OF lt]
    using getTailOffset_nat [OF small(1)] getTailOffset_nat [OF small(2)]
    by (simp add: origin capacity bounds cmp)
qed

lemma block_eq: "tail_off c \<le> i \<Longrightarrow> i < c \<Longrightarrow> i div 32 = tail_off c div 32"
  using tail_off_block [of c i] div_mult_mod_eq [of i 32] by (metis dvd_div_mult_self le_add_diff_inverse
      mult.commute nonzero_mult_div_cancel_left tail_off_dvd zero_neq_numeral add_diff_cancel_right' diff_diff_cancel)


lemma setListBounds_inner:
  assumes l: "list_at l h a c" and new: "new_begin l b = int a'" "new_end l e = int c'" "a' < c'" "c' \<le> 2 ^ 30"
    and change: "\<not> (a' = a \<and> c' = c)"
    and tail: "has_content (l_tail l) \<or> c' \<le> c \<or> a = c"
  shows "\<exists>u h' d. setListBounds fresh b e l = Some u \<and> list_at (upd_default l u) h' (a' - d) (c' - d) \<and> d \<le> a' \<and>
    owner_kept l (upd_default l u) \<and>
    (\<forall>i. a' \<le> i \<and> i < c' \<and> a \<le> i \<and> i < c \<longrightarrow> raw_slot (upd_default l u) h' (c' - d) (i - d) = raw_slot l h c i)"
proof -
  note l' = l [unfolded list_at_def]
  define own where "own = (if l_owner l \<noteq> None then l_owner l else Some fresh)"
  let ?t = "tail_off c'" and ?o = "tail_off c"
  have cap: "c \<le> 2 ^ 30" using capacity_bound [OF l] .
  have t: "?t < 2 ^ 30" using tail_off_less [of c'] new by simp
  have origin: "raise_origin own (new_begin l b) (l_root l) (l_level l) 0 = Some (l_root l, 5 * h, int 0)"
    using l' new by (subst raise_origin.simps) simp
  obtain R h1 where R: "raise_capacity own (int ?t) (l_root l) (5 * h) = Some (R, 5 * h1)" "h \<le> h1" "h1 \<le> 5"
      "wf_vnode h1 R" "?t < 32 ^ Suc h1" "\<forall>j < 32 ^ Suc h. vlook h1 R j = vlook h (l_root l) j"
    using raise_capacity_spec [of h "l_root l" ?t own] l' t by blast
  define R2 where "R2 = (if has_content (l_tail l) \<and> ?o < ?t \<and> a' < c
    then Some (merge_tail own (5 * h1) (int ?o) (l_tail l) R) else R)"
  define T where "T = locate_tail own l (int c') (int ?o) (int ?t)"
  have merge: "wf_vnode h1 (Some (merge_tail own (5 * h1) (int ?o) (l_tail l) R))"
    "vlook h1 (Some (merge_tail own (5 * h1) (int ?o) (l_tail l) R)) j =
       (if j mod 32 ^ Suc h1 div 32 = ?o mod 32 ^ Suc h1 div 32 then elem (leaf_array (l_tail l)) (j mod 32) else vlook h1 R j)" for j
    using merge_tail_spec [of h1 ?o R "l_tail l" own] R l' cap tail_off_le [of c] by auto
  have R2: "wf_vnode h1 R2" using merge(1) R(4) by (simp add: R2_def)
  have last: "c' - 1 < c \<and> c' - 1 < ?o" if "?t < ?o"
  proof -
    have "\<not> c \<le> c'" using tail_off_mono [of c c'] that by auto
    moreover have "\<not> ?o < c'" using tail_off_ge [of ?o c'] that by auto
    ultimately show ?thesis using new(3) by auto
  qed
  have pred: "int c' - 1 = int (c' - 1)" using new(3) by simp
  have T: "wf_vnode 0 T"
    unfolding T_def locate_tail_def pred using l' list_node_slot(2) [OF l, of "c' - 1" "c' - 1"] last by auto
  have look: "(if ?t \<le> i then elem (leaf_array T) (i mod 32) else vlook h1 R2 i) = raw_slot l h c i"
    if i: "a' \<le> i" "i < c'" "a \<le> i" "i < c" for i
  proof -
    consider "?t < ?o" | "?t = ?o" | "?o < ?t" by linarith
    then show ?thesis
    proof cases
      case 1
      show ?thesis
      proof (cases "?t \<le> i")
        case True
        have "i div 32 = (c' - 1) div 32"
          using block_eq [of c' i] block_eq [of c' "c' - 1"] True i tail_off_le [of c'] by simp
        then show ?thesis using list_node_slot(1) [OF l, of "c' - 1" i] 1 last True by (simp add: T_def locate_tail_def pred)
      next
        case False
        moreover have "i < 32 ^ Suc h" using False 1 l' by linarith
        ultimately show ?thesis using 1 R(6) by (simp add: R2_def raw_slot_def del: power_Suc)
      qed
    next
      case 2
      moreover have "i < 32 ^ Suc h" if "i < ?t" using that 2 l' by linarith
      ultimately show ?thesis using R(6) by (auto simp: R2_def T_def locate_tail_def raw_slot_def simp del: power_Suc)
    next
      case 3
      have content: "has_content (l_tail l)"
        using tail i tail_off_mono [of c' c] 3 by auto
      have "i < ?t"
      proof (rule ccontr)
        assume "\<not> i < ?t"
        then have "?t \<le> ?o" using tail_off_ge [of ?t c] i by simp
        then show False using 3 by simp
      qed
      moreover have "i mod 32 ^ Suc h1 = i" "?o mod 32 ^ Suc h1 = ?o"
        using \<open>i < ?t\<close> R(5) 3 by (simp_all del: power_Suc)
      moreover have "?o \<le> i \<longleftrightarrow> i div 32 = ?o div 32"
        using block_eq [of c i] i by (metis div_times_less_eq_dividend dvd_div_mult_self tail_off_dvd)
      moreover have "vlook h1 R i = vlook h (l_root l) i" if "i < ?o" using that R(6) l' by auto
      ultimately show ?thesis using content 3 i merge(2) [of i] by (auto simp: R2_def raw_slot_def simp del: power_Suc)
    qed
  qed
  have step: "setListBounds fresh b e l = Some (trim_bounds own l (int a) (int c) (int a') (int c') (5 * h1) R2 T)"
    unfolding R2_def T_def
    by (rule setListBounds_step [OF _ _ own_def origin]) (use l' new change cap R(1) in auto)
  define l2 where "l2 = upd_default l (trim_bounds own l (int a) (int c) (int a') (int c') (5 * h1) R2 T)"
  have "1 \<le> h1" using R(2) l' by linarith
  from trim_bounds_spec [OF this R(3) new(3) R(5) R2 T l2_def]
  obtain h' d where "list_at l2 h' (a' - d) (c' - d)" "d \<le> a'" "owner_kept l l2"
      "\<forall>i. a' \<le> i \<and> i < c' \<longrightarrow> raw_slot l2 h' (c' - d) (i - d) =
         (if ?t \<le> i then elem (leaf_array T) (i mod 32) else vlook h1 R2 i)"
    by blast
  then show ?thesis unfolding l2_def using step look
    by (intro exI [of _ "trim_bounds own l (int a) (int c) (int a') (int c') (5 * h1) R2 T"] exI [of _ h'] exI [of _ d]) simp
qed


lemma setListBounds_front:
  assumes l: "list_at l h a c" and new: "new_begin l b < 0" "new_end l None = int c"
    and room: "h \<le> 4" "- (2 ^ 25) \<le> new_begin l b"
  shows "\<exists>u h' s a' c'. setListBounds fresh b None l = Some u \<and> list_at (upd_default l u) h' a' c' \<and>
    int a' = new_begin l b + s \<and> int c' = int c + s \<and> owner_kept l (upd_default l u) \<and>
    (\<forall>i. a \<le> i \<and> i < c \<longrightarrow> raw_slot (upd_default l u) h' c' (nat (int i + s)) = raw_slot l h c i)"
proof -
  note l' = l [unfolded list_at_def]
  define own where "own = (if l_owner l \<noteq> None then l_owner l else Some fresh)"
  have off: "tail_off c < 32 ^ Suc h" using l' by simp
  obtain R h0 d where R: "raise_origin own (new_begin l b) (l_root l) (5 * h) (int 0) = Some (R, 5 * h0, int (0 + d))"
      "h \<le> h0" "h0 \<le> 5" "wf_vnode h0 R" "0 \<le> new_begin l b + int (0 + d)" "32 dvd d" "d + 32 ^ Suc h \<le> 32 ^ Suc h0"
      "\<forall>j < 32 ^ Suc h. vlook h0 R (j + d) = vlook h (l_root l) j" "32 ^ Suc h \<le> d"
    using raise_origin_spec [of h "l_root l" "new_begin l b" 0 own] l' room new by auto
  have d: "0 < d" using R(9) by (metis less_le_trans zero_less_numeral zero_less_power)
  define a1 where "a1 = nat (new_begin l b + int d)"
  let ?c = "c + d"
  have a1: "new_begin l b + int d = int a1" using R(5) by (simp add: a1_def)
  have lt: "a1 < ?c" using a1 new by linarith
  have t: "tail_off ?c < 32 ^ Suc h0"
  proof (cases "c = 0")
    case True
    then show ?thesis using tail_off_less [OF d] R(7) by (simp del: power_Suc)
  next
    case False
    then show ?thesis using tail_off_shift [OF R(6), of c] off R(7) by linarith
  qed
  have cap: "?c \<le> 2 ^ 30"
    using tail_off_ge [of "32 ^ Suc h0" ?c] t pow_le [OF R(3)] by (cases "32 ^ Suc h0 < ?c") auto
  have t30: "tail_off ?c < 2 ^ 30" using tail_off_less [of ?c] lt cap by linarith
  have cp: "raise_capacity own (int (tail_off ?c)) R (5 * h0) = Some (R, 5 * h0)"
    using raise_capacity_spec [OF R(4,3) t30, of own] t by auto
  define u where "u = trim_bounds own l (int (a + d)) (int ?c) (int a1) (int ?c) (5 * h0) R (l_tail l)"
  have step: "setListBounds fresh b None l = Some u"
  proof -
    have "setListBounds fresh b None l = Some (trim_bounds own l (int (a + d)) (int ?c) (int a1) (int ?c) (5 * h0)
      (if has_content (l_tail l) \<and> tail_off ?c < tail_off ?c \<and> a1 < ?c
       then Some (merge_tail own (5 * h0) (int (tail_off ?c)) (l_tail l) R) else R)
      (locate_tail own l (int ?c) (int (tail_off ?c)) (int (tail_off ?c))))"
      using new l' R(1) a1 cap cp by (intro setListBounds_step [OF _ _ own_def]) auto
    then show ?thesis by (simp add: u_def locate_tail_def)
  qed
  have "1 \<le> h0" using R(2) l' by linarith
  from trim_bounds_spec [OF this R(3) lt t R(4) _ refl [of "upd_default l u", unfolded u_def]] l'
  obtain h' e where at: "list_at (upd_default l u) h' (a1 - e) (?c - e)" "e \<le> a1" "owner_kept l (upd_default l u)"
      "\<forall>i. a1 \<le> i \<and> i < ?c \<longrightarrow> raw_slot (upd_default l u) h' (?c - e) (i - e) =
         (if tail_off ?c \<le> i then elem (leaf_array (l_tail l)) (i mod 32) else vlook h0 R i)"
    unfolding u_def by blast
  have look: "raw_slot (upd_default l u) h' (?c - e) (nat (int i + (int d - int e))) = raw_slot l h c i"
    if i: "a \<le> i" "i < c" for i
  proof -
    have le: "a1 \<le> i + d" using a1 new(1) by linarith
    have "nat (int i + (int d - int e)) = i + d - e" using at(2) le by simp
    moreover have "tail_off ?c = tail_off c + d" using tail_off_shift [OF R(6)] i by simp
    moreover have "(i + d) mod 32 = i mod 32" using R(6) by (metis dvd_eq_mod_eq_0 mod_add_right_eq add_0_right)
    moreover have "vlook h0 R (i + d) = vlook h (l_root l) i" if "i < tail_off c" using that off R(8) by simp
    ultimately show ?thesis using at(4) le i by (simp add: raw_slot_def)
  qed
  show ?thesis
    by (rule exI [of _ u], rule exI [of _ h'], rule exI [of _ "int d - int e"], rule exI [of _ "a1 - e"], rule exI [of _ "?c - e"])
      (use step at(1-3) look a1 lt in auto)
qed

end
