(* ===== verification/Imm_ListModel.thy ===== *)
theory Imm_ListModel
  imports Imm_ListSpec
begin

text \<open>
  \<open>List\<close> against the lists of HOL: \<open>elems l\<close> is the list of the elements that \<open>get\<close> answers, and
  every method of \<open>Imm_ListOps\<close> is an operation on it. A list that the code grows must not have an
  empty tail node above defined elements (\<open>grows_safely\<close>): the code then skips merging the tail
  into the trie. Raw indices stay below \<open>2 ^ 30\<close>, the largest capacity with which the raising loops
  end (\<open>room\<close>).
\<close>

definition elems :: "'v ilist \<Rightarrow> 'v option list" where
  "elems l = map (\<lambda>j. list_get (int j) None l) [0..<nat (l_size l)]"

lemma length_elems [simp]: "length (elems l) = nat (l_size l)"
  by (simp add: elems_def)

lemma nth_elems: "j < nat (l_size l) \<Longrightarrow> elems l ! j = list_get (int j) None l"
  by (simp add: elems_def)

definition grows_safely :: "'v ilist \<Rightarrow> bool" where
  "grows_safely l \<longleftrightarrow> l_size l = 0 \<or> list_get (l_size l - 1) None l \<noteq> None"

definition room :: "'v ilist \<Rightarrow> int \<Rightarrow> int \<Rightarrow> bool" where
  "room l b e \<longleftrightarrow> 0 \<le> b \<and> e \<le> 2 ^ 30 \<or> b < 0 \<and> e = l_capacity l \<and> l_level l \<le> 20 \<and> - (2 ^ 25) \<le> b"

definition kept :: "'v ilist \<Rightarrow> 'v ilist \<Rightarrow> bool" where
  \<comment> \<open>a call that returns \<open>l'\<close> on the receiver \<open>l\<close> keeps the owner and marks an owned list as altered
    unless it changes nothing\<close>
  "kept l l' \<longleftrightarrow> l_owner l' = l_owner l \<and> (l_owner l \<noteq> None \<longrightarrow> l_altered l' \<or> l' = l)"

lemma kept_refl [simp]: "kept l l"
  by (simp add: kept_def)

lemma kept_trans: "kept l l1 \<Longrightarrow> kept l1 l2 \<Longrightarrow> (l_altered l1 \<Longrightarrow> l_altered l2) \<Longrightarrow> kept l l2"
  by (auto simp: kept_def)

lemma owner_kept_kept: "owner_kept l l' \<Longrightarrow> kept l l'"
  by (simp add: owner_kept_def kept_def)

lemma list_ok_size: "list_ok l \<Longrightarrow> 0 \<le> l_size l \<and> l_capacity l = l_origin l + l_size l \<and> 0 \<le> l_origin l \<and> l_capacity l \<le> 2 ^ 30"
proof -
  assume "list_ok l"
  then obtain h a c where l: "list_at l h a c" by (auto simp: list_ok_def)
  have "int c \<le> int (2 ^ 30)" using capacity_bound [OF l] by (simp only: of_nat_le_iff)
  then show ?thesis using l by (simp add: list_at_def)
qed

lemma emptyList_ok [simp]: "list_ok emptyList" "elems emptyList = []"
  by (auto simp: list_ok_def list_at_def emptyList_def makeList_def SHIFT_def tail_off_def elems_def
      intro!: exI [of _ 1] exI [of _ 0])

section \<open>Resizing\<close>

lemma safe_content: "list_ok l \<Longrightarrow> grows_safely l \<Longrightarrow> has_content (l_tail l) \<or> l_size l = 0"
proof (rule disjCI)
  assume ok: "list_ok l" and safe: "grows_safely l" and n: "l_size l \<noteq> 0"
  then obtain h a c where l: "list_at l h a c" by (auto simp: list_ok_def)
  then have ac: "a < c" "l_size l - 1 = int (c - 1 - a)" using n by (auto simp: list_at_def)
  have "list_get (int (c - 1 - a)) None l = raw_slot l h c (c - 1)"
    using list_get_slot [OF l, of "c - 1 - a" None] ac(1) by simp
  then have "raw_slot l h c (c - 1) \<noteq> None" using safe n by (simp add: grows_safely_def ac(2))
  then have "leaf_array (l_tail l) \<noteq> []" using tail_off_le [of c] by (auto simp: raw_slot_def split: if_splits)
  then show "has_content (l_tail l)"
    by (cases "l_tail l" rule: leaf_array.cases) (auto simp: has_content_def)
qed

lemma resize_spec:
  assumes ok: "list_ok l" and be: "new_begin l b < new_end l e" and room: "room l (new_begin l b) (new_end l e)"
    and e: "0 \<le> new_begin l b \<or> e = None" and safe: "new_end l e \<le> l_capacity l \<or> grows_safely l"
  obtains u where "setListBounds fresh b e l = Some u" "list_ok (upd_default l u)" "kept l (upd_default l u)"
    "l_size (upd_default l u) = new_end l e - new_begin l b"
    "\<And>j. 0 \<le> j \<Longrightarrow> j < new_end l e - new_begin l b \<Longrightarrow> l_origin l \<le> new_begin l b + j \<Longrightarrow> new_begin l b + j < l_capacity l \<Longrightarrow>
       list_get j None (upd_default l u) = list_get (new_begin l b + j - l_origin l) None l"
    "0 \<le> new_begin l b \<Longrightarrow> l_origin (upd_default l u) \<le> new_begin l b"
proof -
  obtain h a c where l: "list_at l h a c" using ok by (auto simp: list_ok_def)
  have f: "l_origin l = int a" "l_capacity l = int c" "a \<le> c" "l_level l = 5 * h" "l_size l = int c - int a"
    using l by (auto simp: list_at_def)
  have get: "list_get j None l' = raw_slot l' h' c' (nat j + a')"
    if "list_at l' h' a' c'" "0 \<le> j" "j < int c' - int a'" for l' h' a' c' j
    using list_get_slot [OF that(1), of "nat j" None] that by (simp add: nat_less_iff)
  show ?thesis
  proof (cases "new_begin l b = l_origin l \<and> new_end l e = l_capacity l")
    case True
    then show ?thesis using setListBounds_same [of l b e fresh] ok list_ok_size [OF ok] by (intro that [of "This l"]) auto
  next
    case change: False
    show ?thesis
    proof (cases "0 \<le> new_begin l b")
      case True
      define a' where "a' = nat (new_begin l b)"
      define c' where "c' = nat (new_end l e)"
      have n: "new_begin l b = int a'" "new_end l e = int c'" using True be by (auto simp: a'_def c'_def)
      have c30: "c' \<le> 2 ^ 30" using room n True unfolding room_def by auto
      have tail: "has_content (l_tail l) \<or> c' \<le> c \<or> a = c"
        using safe safe_content [OF ok] f n by auto
      have ac: "a' < c'" "\<not> (a' = a \<and> c' = c)" using be change n f by auto
      obtain u h' d where u: "setListBounds fresh b e l = Some u" "list_at (upd_default l u) h' (a' - d) (c' - d)" "d \<le> a'"
          "owner_kept l (upd_default l u)"
          "\<And>i. a' \<le> i \<Longrightarrow> i < c' \<Longrightarrow> a \<le> i \<Longrightarrow> i < c \<Longrightarrow> raw_slot (upd_default l u) h' (c' - d) (i - d) = raw_slot l h c i"
        using setListBounds_inner [OF l n ac(1) c30 ac(2) tail, of fresh] by blast
      show ?thesis
      proof (rule that [OF u(1)])
        show "list_ok (upd_default l u)" using u(2) by (auto simp: list_ok_def)
        show "l_size (upd_default l u) = new_end l e - new_begin l b" using u(2,3) ac n by (auto simp: list_at_def)
        show "l_origin (upd_default l u) \<le> new_begin l b" using u(2,3) n by (auto simp: list_at_def)
        fix j assume j: "0 \<le> j" "j < new_end l e - new_begin l b" "l_origin l \<le> new_begin l b + j" "new_begin l b + j < l_capacity l"
        have s: "nat j + (a' - d) = nat j + a' - d" using u(3) by simp
        have "list_get j None (upd_default l u) = raw_slot (upd_default l u) h' (c' - d) (nat j + a' - d)"
          using get [OF u(2), of j] j n u(3) ac unfolding s by simp
        also have "\<dots> = raw_slot l h c (nat j + a')" using j n f ac by (intro u(5)) auto
        also have "\<dots> = list_get (new_begin l b + j - l_origin l) None l"
        proof -
          have "nat j + a' = nat (new_begin l b + j - l_origin l) + a" using j n f by simp
          then show ?thesis using get [OF l, of "new_begin l b + j - l_origin l"] j f by simp
        qed
        finally show "list_get j None (upd_default l u) = list_get (new_begin l b + j - l_origin l) None l" .
      qed (use owner_kept_kept u(4) in blast)
    next
      case False
      then have e: "e = None" using e by simp
      then have ne: "new_end l None = int c" using f by (simp add: new_end_def)
      have h: "h \<le> 4" "- (2 ^ 25) \<le> new_begin l b" using room False f by (auto simp: room_def)
      obtain u h' s a' c' where u: "setListBounds fresh b None l = Some u" "list_at (upd_default l u) h' a' c'"
          "int a' = new_begin l b + s" "int c' = int c + s" "owner_kept l (upd_default l u)"
          "\<And>i. a \<le> i \<Longrightarrow> i < c \<Longrightarrow> raw_slot (upd_default l u) h' c' (nat (int i + s)) = raw_slot l h c i"
        using setListBounds_front [OF l _ ne h, of fresh] False by (force simp: not_le)
      show ?thesis
      proof (rule that [of u])
        show "setListBounds fresh b e l = Some u" using u(1) e by simp
        show "list_ok (upd_default l u)" using u(2) by (auto simp: list_ok_def)
        show "l_size (upd_default l u) = new_end l e - new_begin l b" using u(2-4) ne e by (auto simp: list_at_def)
        fix j assume j: "0 \<le> j" "j < new_end l e - new_begin l b" "l_origin l \<le> new_begin l b + j" "new_begin l b + j < l_capacity l"
        define i where "i = nat (new_begin l b + j)"
        have i: "a \<le> i" "i < c" "int i = new_begin l b + j" using j f by (auto simp: i_def)
        have "list_get j None (upd_default l u) = raw_slot (upd_default l u) h' c' (nat j + a')"
          using get [OF u(2), of j] j u(3,4) ne e by simp
        also have "nat j + a' = nat (int i + s)" using j u(3) i by simp
        also have "raw_slot (upd_default l u) h' c' (nat (int i + s)) = raw_slot l h c i" by (rule u(6) [OF i(1,2)])
        also have "\<dots> = list_get (new_begin l b + j - l_origin l) None l"
          using get [OF l, of "new_begin l b + j - l_origin l"] i f by (simp add: nat_diff_distrib i_def [symmetric])
        finally show "list_get j None (upd_default l u) = list_get (new_begin l b + j - l_origin l) None l" .
      qed (use False owner_kept_kept u(5) in blast)+
    qed
  qed
qed


section \<open>Setting an element\<close>

lemma raw_slot_update:
  assumes l: "list_at l h a c" and l': "l_capacity l' = l_capacity l" "l_origin l' = l_origin l" "l_level l' = l_level l" "l_size l' = l_size l"
    and i: "a \<le> i" "i < c"
    and tail: "tail_off c \<le> i \<Longrightarrow> updated 0 i v (l_tail l) (l_tail l') \<and> l_root l' = l_root l"
    and inner: "\<not> tail_off c \<le> i \<Longrightarrow> updated h i v (l_root l) (l_root l') \<and> l_tail l' = l_tail l"
  shows "list_at l' h a c" "k < c \<Longrightarrow> raw_slot l' h c k = (if k = i then v else raw_slot l h c k)"
proof -
  note f = l [unfolded list_at_def]
  have wf: "wf_vnode h (l_root l')" "wf_vnode 0 (l_tail l')"
    using f tail inner by (cases "tail_off c \<le> i"; simp add: updated_def)+
  then show "list_at l' h a c" using f l' i by (simp add: list_at_def)
  assume k: "k < c"
  show "raw_slot l' h c k = (if k = i then v else raw_slot l h c k)"
  proof (cases "tail_off c \<le> i")
    case True
    then have u: "updated 0 i v (l_tail l) (l_tail l')" "l_root l' = l_root l" using tail by auto
    have "elem (leaf_array (l_tail l')) (k mod 32) = (if k mod 32 = i mod 32 then v else elem (leaf_array (l_tail l)) (k mod 32))"
    proof -
      have "vlook 0 (l_tail l') k = (if k mod 32 = i mod 32 then v else vlook 0 (l_tail l) k)"
        using u(1) by (simp add: updated_def)
      then show ?thesis using f wf(2) by (simp only: vlook_0)
    qed
    moreover have "k mod 32 = i mod 32 \<longleftrightarrow> k = i" if "tail_off c \<le> k"
      using tail_off_block [OF that k] tail_off_block [OF True i(2)] that True by auto
    ultimately show ?thesis using True u(2) by (auto simp: raw_slot_def)
  next
    case False
    then have u: "updated h i v (l_root l) (l_root l')" "l_tail l' = l_tail l" using inner by auto
    have "k mod 32 ^ Suc h = k" "i mod 32 ^ Suc h = i" if "\<not> tail_off c \<le> k"
      using that False f by (simp_all del: power_Suc)
    then show ?thesis using False u by (auto simp: raw_slot_def updated_def simp del: power_Suc)
  qed
qed

lemma update_inside_spec:
  assumes ok: "list_ok l" and i: "0 \<le> i" "i < l_size l" and eqv: "sound_eq eqv"
    and l': "l' = upd_default l (update_inside eqv i v l)"
  shows "list_ok l'" "elems l' = (elems l)[nat i := v]" "l_size l' = l_size l" "kept l l'" "l_altered l \<Longrightarrow> l_owner l \<noteq> None \<Longrightarrow> l_altered l'"
proof -
  obtain h a c where l: "list_at l h a c" using ok by (auto simp: list_ok_def)
  note f = l [unfolded list_at_def]
  define r where "r = nat i + a"
  have r: "i + l_origin l = int r" "a \<le> r" "r < c" using i f by (auto simp: r_def)
  have cap: "c \<le> 2 ^ 30" using capacity_bound [OF l] .
  have r32: "r < 2 ^ 32" using r cap by simp
  have off: "getTailOffset (l_capacity l) = int (tail_off c)" using getTailOffset_nat f cap by simp
  obtain t t1 t2 where T: "updateVNode eqv (l_tail l) (l_owner l) (5 * 0) (int r) v = (t, t1, t2)" by (metis prod_cases3)
  obtain n n1 n2 where N: "updateVNode eqv (l_root l) (l_owner l) (5 * h) (int r) v = (n, n1, n2)" by (metis prod_cases3)
  have tail: "updated 0 r v (l_tail l) t" "\<not> t2 \<Longrightarrow> t = l_tail l"
    using updateVNode_spec [OF eqv _ r32 _ T] f by auto
  have inner: "updated h r v (l_root l) n" "\<not> n2 \<Longrightarrow> n = l_root l"
    using updateVNode_spec [OF eqv _ r32 _ N] f by auto
  have eq: "update_inside eqv i v l =
      (if \<not> (if tail_off c \<le> r then t2 else n2) then This l
       else if l_owner l \<noteq> None
       then This (l\<lparr>l_root := if tail_off c \<le> r then l_root l else n, l_tail := if tail_off c \<le> r then t else l_tail l,
                    l_hash := None, l_altered := True\<rparr>)
       else New (makeList (l_origin l) (l_capacity l) (l_level l) (if tail_off c \<le> r then l_root l else n)
                  (if tail_off c \<le> r then t else l_tail l) None None))"
  proof -
    have lev: "l_level l = 5 * h" using f by simp
    have T0: "updateVNode eqv (l_tail l) (l_owner l) 0 (int r) v = (t, t1, t2)" using T by simp
    show ?thesis unfolding update_inside_def Let_def r(1) off lev
      by (cases "tail_off c \<le> r") (simp_all only: T0 N prod.case if_True if_False simp_thms zle_int)
  qed
  have fields: "l_capacity l' = l_capacity l" "l_origin l' = l_origin l" "l_level l' = l_level l" "l_size l' = l_size l"
      "l_root l' = (if tail_off c \<le> r then l_root l else n)" "l_tail l' = (if tail_off c \<le> r then t else l_tail l)"
    unfolding l' eq using f tail(2) inner(2) by (auto simp: makeList_def)
  have at: "list_at l' h a c" "k < c \<Longrightarrow> raw_slot l' h c k = (if k = r then v else raw_slot l h c k)" for k
    using raw_slot_update [OF l fields(1-4) r(2,3)] fields(5,6) tail(1) inner(1) by simp_all
  show "list_ok l'" using at(1) by (auto simp: list_ok_def)
  show "l_size l' = l_size l" by (rule fields(4))
  show "kept l l'" "l_altered l \<Longrightarrow> l_owner l \<noteq> None \<Longrightarrow> l_altered l'"
    unfolding l' eq by (auto simp: kept_def makeList_def)
  show "elems l' = (elems l)[nat i := v]"
  proof (rule nth_equalityI)
    fix j assume "j < length (elems l')"
    then have j: "j < c - a" using f fields(4) by simp
    have "elems l' ! j = raw_slot l' h c (j + a)" "elems l ! j = raw_slot l h c (j + a)"
      using j list_get_slot [OF at(1), of j None] list_get_slot [OF l, of j None] f fields(4) by (simp_all add: nth_elems)
    then show "elems l' ! j = (elems l)[nat i := v] ! j"
      using at(2) [of "j + a"] j f by (auto simp: nth_list_update r_def)
  qed (simp add: fields(4))
qed

lemma list_set_inside:
  "0 \<le> i \<Longrightarrow> i < l_size l \<Longrightarrow> list_set eqv fresh i v l = Some (update_inside eqv i v l)"
  unfolding list_set_def by (subst updateList.simps) simp

lemma set_from_spec:
  assumes "list_ok l" "0 \<le> s" "s + int (length vs) \<le> l_size l" "sound_eq eqv"
  obtains l' where "set_from eqv fresh s vs l = Some l'" "list_ok l'" "l_size l' = l_size l" "kept l l'"
    "l_altered l \<Longrightarrow> l_owner l \<noteq> None \<Longrightarrow> l_altered l'"
    "elems l' = take (nat s) (elems l) @ vs @ drop (nat s + length vs) (elems l)"
  using assms(1-3)
proof (induction vs arbitrary: s l thesis)
  case Nil
  then show ?case by (simp add: append_take_drop_id)
next
  case (Cons v vs)
  define l1 where "l1 = upd_default l (update_inside eqv s v l)"
  have s: "0 \<le> s" "s < l_size l" using Cons.prems by auto
  note l1 = update_inside_spec [OF Cons.prems(2) s assms(4) l1_def]
  obtain l' where l': "set_from eqv fresh (s + 1) vs l1 = Some l'" "list_ok l'" "l_size l' = l_size l1" "kept l1 l'"
      "l_altered l1 \<Longrightarrow> l_owner l1 \<noteq> None \<Longrightarrow> l_altered l'"
      "elems l' = take (nat (s + 1)) (elems l1) @ vs @ drop (nat (s + 1) + length vs) (elems l1)"
    using Cons.IH [where l = l1 and s = "s + 1"] l1(1,3) s Cons.prems(4) by auto
  show ?case
  proof (rule Cons.prems(1))
    show "set_from eqv fresh s (v # vs) l = Some l'" using l'(1) list_set_inside [OF s, of eqv fresh v] by (simp add: l1_def)
    have "nat (s + 1) = Suc (nat s)" using s by simp
    moreover have "nat s < length (elems l)" using s by simp
    ultimately show "elems l' = take (nat s) (elems l) @ (v # vs) @ drop (nat s + length (v # vs)) (elems l)"
      unfolding l'(6) l1(2) by (simp add: take_Suc_conv_app_nth)
    show "kept l l'" using l1(4,5) l'(4,5) by (auto simp: kept_def)
    show "l_altered l \<Longrightarrow> l_owner l \<noteq> None \<Longrightarrow> l_altered l'" using l1(4,5) l'(5) by (auto simp: kept_def)
  qed (use l' l1 in auto)
qed

end
