(* ===== verification/Imm_ListMethods.thy ===== *)
theory Imm_ListMethods
  imports Imm_ListModel
begin

text \<open>
  The methods of \<open>List\<close> as operations on the list of elements: \<open>push\<close>, \<open>pop\<close>, \<open>unshift\<close>, \<open>shift\<close>,
  \<open>set\<close>, \<open>slice\<close>, \<open>setSize\<close> and the constructor, for receivers with and without an owner.
\<close>

definition becomes :: "'v ilist \<Rightarrow> 'v ilist upd option \<Rightarrow> 'v option list \<Rightarrow> bool" where
  \<comment> \<open>the call returns a well-formed list with the given elements\<close>
  "becomes l r xs \<longleftrightarrow>
     (case r of None \<Rightarrow> False | Some u \<Rightarrow> list_ok (upd_default l u) \<and> elems (upd_default l u) = xs \<and> kept l (upd_default l u))"

lemma becomesI: "r = Some u \<Longrightarrow> list_ok (upd_default l u) \<Longrightarrow> elems (upd_default l u) = xs \<Longrightarrow> kept l (upd_default l u) \<Longrightarrow> becomes l r xs"
  by (simp add: becomes_def)

lemma becomesE:
  assumes "becomes l r xs"
  obtains u where "r = Some u" "list_ok (upd_default l u)" "elems (upd_default l u) = xs" "kept l (upd_default l u)"
  using assms by (auto simp: becomes_def split: option.splits)

lemma same_contents:
  assumes "l_size l' = l_size l" "l_origin l' = l_origin l" "l_capacity l' = l_capacity l" "l_level l' = l_level l"
    "l_root l' = l_root l" "l_tail l' = l_tail l"
  shows "list_ok l' \<longleftrightarrow> list_ok l" "elems l' = elems l" "grows_safely l' \<longleftrightarrow> grows_safely l"
proof -
  have get: "list_get j None l' = list_get j None l" for j
    unfolding list_get_def listNodeFor_def assms ..
  show "list_ok l' \<longleftrightarrow> list_ok l" unfolding list_ok_def list_at_def assms ..
  show "elems l' = elems l" by (simp add: elems_def get assms)
  show "grows_safely l' \<longleftrightarrow> grows_safely l" by (simp add: grows_safely_def get assms)
qed

lemma size_elems: "list_ok l \<Longrightarrow> l_size l = int (length (elems l))"
  using list_ok_size [of l] by simp

lemma to_int32_index [simp]: "- (2 ^ 30) \<le> n \<Longrightarrow> n \<le> 2 ^ 30 + 2 ^ 29 \<Longrightarrow> to_int32 n = n"
  by (rule to_int32_id) auto

section \<open>Clearing and resizing\<close>

lemma list_clear_spec:
  assumes ok: "list_ok l"
  shows "becomes l (Some (list_clear l)) []"
proof (cases "l_size l = 0")
  case True
  then show ?thesis using ok by (simp add: becomes_def list_clear_def elems_def)
next
  case False
  define l' where "l' = upd_default l (list_clear l)"
  have "l_size l' = l_size emptyList" "l_origin l' = l_origin emptyList" "l_capacity l' = l_capacity emptyList"
      "l_level l' = l_level emptyList" "l_root l' = l_root (emptyList :: 'a ilist)" "l_tail l' = l_tail (emptyList :: 'a ilist)"
    using False by (auto simp: l'_def list_clear_def emptyList_def makeList_def)
  from same_contents [OF this] False show ?thesis
    by (auto simp: becomes_def l'_def [symmetric] kept_def) (auto simp: l'_def list_clear_def emptyList_def makeList_def split: if_splits)
qed

lemma nth_resized:
  assumes "list_ok l" "list_ok l'" "l_size l' = e - b" "b < e"
    and "\<And>j. 0 \<le> j \<Longrightarrow> j < e - b \<Longrightarrow> l_origin l \<le> b + j \<Longrightarrow> b + j < l_capacity l \<Longrightarrow>
       list_get j None l' = list_get (b + j - l_origin l) None l"
    and "0 \<le> k" "k < e - b" "l_origin l \<le> b + k" "b + k < l_capacity l"
  shows "elems l' ! nat k = elems l ! nat (b + k - l_origin l)"
  using assms list_ok_size [of l] by (simp add: nth_elems)

text \<open>Bounds inside the list: no condition on undefined elements is needed.\<close>

lemma setListBounds_inside:
  assumes ok: "list_ok l" and b: "0 \<le> b" "new_begin l bo = l_origin l + b" and e: "new_end l eo = l_origin l + e" "e \<le> l_size l"
  shows "becomes l (setListBounds fresh bo eo l) (take (nat (e - b)) (drop (nat b) (elems l)))"
proof (cases "b < e")
  case True
  note sz = list_ok_size [OF ok]
  have "new_begin l bo < new_end l eo" "room l (new_begin l bo) (new_end l eo)" "0 \<le> new_begin l bo \<or> eo = None"
      "new_end l eo \<le> l_capacity l \<or> grows_safely l"
    using True b e sz by (auto simp: room_def)
  from resize_spec [OF ok this, of fresh] obtain u where u: "setListBounds fresh bo eo l = Some u" "list_ok (upd_default l u)"
      "kept l (upd_default l u)" "l_size (upd_default l u) = new_end l eo - new_begin l bo"
      "\<And>j. 0 \<le> j \<Longrightarrow> j < new_end l eo - new_begin l bo \<Longrightarrow> l_origin l \<le> new_begin l bo + j \<Longrightarrow> new_begin l bo + j < l_capacity l \<Longrightarrow>
         list_get j None (upd_default l u) = list_get (new_begin l bo + j - l_origin l) None l"
    by blast
  show ?thesis
  proof (rule becomesI [OF u(1,2) _ u(3)], rule nth_equalityI)
    show "length (elems (upd_default l u)) = length (take (nat (e - b)) (drop (nat b) (elems l)))"
      using u(4) b e sz by simp
    fix k assume "k < length (elems (upd_default l u))"
    then have k: "int k < e - b" using u(4) b e by simp
    have "elems (upd_default l u) ! k = list_get (int k) None (upd_default l u)" using k u(4) b e by (simp add: nth_elems)
    also have "\<dots> = list_get (new_begin l bo + int k - l_origin l) None l"
      by (rule u(5)) (use k b e sz in linarith)+
    also have "new_begin l bo + int k - l_origin l = b + int k" using b by simp
    also have "list_get (b + int k) None l = elems l ! nat (b + int k)" using k b e sz by (simp add: nth_elems)
    also have "nat (b + int k) = nat b + k" using b by (simp add: nat_add_distrib)
    finally show "elems (upd_default l u) ! k = take (nat (e - b)) (drop (nat b) (elems l)) ! k" using k b e sz by simp
  qed
next
  case False
  show ?thesis
  proof (cases "new_begin l bo = l_origin l \<and> new_end l eo = l_capacity l")
    case True
    then have "b = 0" "e = l_size l" using b e list_ok_size [OF ok] by auto
    then have "elems l = []" using False by (simp add: elems_def)
    then show ?thesis using setListBounds_same [of l bo eo fresh] True ok by (simp add: becomes_def)
  next
    case change: False
    show ?thesis using setListBounds_empty [of l eo bo fresh] change False b e list_clear_spec [OF ok] by simp
  qed
qed

text \<open>Growing at the end.\<close>

lemma setListBounds_grow:
  assumes ok: "list_ok l" and safe: "grows_safely l" and n: "0 < n" "l_capacity l + n \<le> 2 ^ 30"
  obtains u where "setListBounds fresh (Some 0) (Some (l_size l + n)) l = Some u" "list_ok (upd_default l u)"
    "kept l (upd_default l u)" "l_size (upd_default l u) = l_size l + n"
    "take (length (elems l)) (elems (upd_default l u)) = elems l" "l_origin (upd_default l u) \<le> l_origin l"
proof -
  note sz = list_ok_size [OF ok]
  have be: "new_begin l (Some 0) = l_origin l" "new_end l (Some (l_size l + n)) = l_capacity l + n"
    using sz n by (auto simp: new_begin_def new_end_def)
  have "new_begin l (Some 0) < new_end l (Some (l_size l + n))" "room l (new_begin l (Some 0)) (new_end l (Some (l_size l + n)))"
      "0 \<le> new_begin l (Some 0) \<or> Some (l_size l + n) = None" "new_end l (Some (l_size l + n)) \<le> l_capacity l \<or> grows_safely l"
    using be n sz safe by (auto simp: room_def)
  from resize_spec [OF ok this, of fresh] obtain u where u: "setListBounds fresh (Some 0) (Some (l_size l + n)) l = Some u"
      "list_ok (upd_default l u)" "kept l (upd_default l u)" "l_size (upd_default l u) = l_size l + n"
      "\<And>j. 0 \<le> j \<Longrightarrow> j < l_size l \<Longrightarrow> list_get j None (upd_default l u) = list_get j None l"
      "l_origin (upd_default l u) \<le> l_origin l"
    unfolding be using sz n by (auto simp: algebra_simps)
  have "take (length (elems l)) (elems (upd_default l u)) = elems l"
  proof (rule nth_equalityI)
    fix k assume "k < length (take (length (elems l)) (elems (upd_default l u)))"
    then show "take (length (elems l)) (elems (upd_default l u)) ! k = elems l ! k"
      using u(4) u(5) [of "int k"] by (simp add: nth_elems zless_nat_eq_int_zless)
  qed (use u(4) n sz in simp)
  then show ?thesis using that u by blast
qed

section \<open>Transient mutability\<close>

lemma asMutable_same:
  assumes ok: "list_ok l" and m: "m = upd_default l (list_asMutable fresh l)"
  shows "list_ok m" "elems m = elems l" "l_size m = l_size l" "l_capacity m = l_capacity l" "l_origin m = l_origin l"
    "l_level m = l_level l" "l_owner m \<noteq> None" "l_owner l \<noteq> None \<Longrightarrow> m = l" "l_owner l = None \<Longrightarrow> \<not> l_altered m"
    "grows_safely m \<longleftrightarrow> grows_safely l"
proof -
  have f: "l_size m = l_size l" "l_origin m = l_origin l" "l_capacity m = l_capacity l" "l_level m = l_level l"
      "l_root m = l_root l" "l_tail m = l_tail l"
    using list_ok_size [OF ok] unfolding m by (auto simp: list_asMutable_def list_ensureOwner_def makeList_def)
  show "list_ok m" "elems m = elems l" "grows_safely m \<longleftrightarrow> grows_safely l" using same_contents [OF f] ok by auto
qed (use m list_ok_size [OF ok] in \<open>auto simp: list_asMutable_def list_ensureOwner_def makeList_def\<close>)

lemma list_commit_spec:
  assumes ok: "list_ok l" and m: "m = upd_default l (list_asMutable fresh l)" and m': "list_ok m'" "kept m m'"
  shows "becomes l (Some (list_commit l m')) (elems m')"
proof (cases "l_owner l = None")
  case False
  then show ?thesis using asMutable_same [OF ok m] m' by (auto simp: becomes_def list_commit_def kept_def)
next
  case True
  show ?thesis
  proof (cases "l_altered m'")
    case False
    then have "m' = m" using m' asMutable_same(7) [OF ok m] by (auto simp: kept_def)
    then show ?thesis using True False asMutable_same [OF ok m] ok by (auto simp: becomes_def list_commit_def)
  next
    case alt: True
    have "l_owner m' \<noteq> None" using m' asMutable_same(7) [OF ok m] by (auto simp: kept_def)
    then have eq: "list_commit l m' = New (m'\<lparr>l_owner := None\<rparr>)"
      using True alt by (auto simp: list_commit_def list_ensureOwner_def)
    show ?thesis using same_contents [of "m'\<lparr>l_owner := None\<rparr>" m'] m' True unfolding eq
      by (simp add: becomes_def kept_def)
  qed
qed

lemma withMutations_list_spec:
  assumes "list_ok l" "fn (upd_default l (list_asMutable fresh l)) = Some m'" "list_ok m'"
    "kept (upd_default l (list_asMutable fresh l)) m'"
  shows "becomes l (list_withMutations fresh fn l) (elems m')"
  using list_commit_spec [OF assms(1) refl assms(3,4)] assms(2) by (simp add: list_withMutations_def)

section \<open>The methods\<close>

lemma list_push_spec:
  assumes ok: "list_ok l" and safe: "grows_safely l" and cap: "l_capacity l + int (length vs) \<le> 2 ^ 30" and eqv: "sound_eq eqv"
  shows "becomes l (list_push eqv fresh vs l) (elems l @ vs)"
proof -
  define m where "m = upd_default l (list_asMutable fresh l)"
  note m = asMutable_same [OF ok m_def]
  note sz = list_ok_size [OF ok]
  have same: "setListBounds fresh (Some 0) (Some (l_size l)) m = Some (This m)"
    using m(3-5) sz by (intro setListBounds_same) (auto simp: new_begin_def new_end_def)
  obtain u where u: "setListBounds fresh (Some 0) (Some (l_size l + int (length vs))) m = Some u" "list_ok (upd_default m u)"
      "kept m (upd_default m u)" "l_size (upd_default m u) = l_size l + int (length vs)"
      "take (length (elems l)) (elems (upd_default m u)) = elems l"
  proof (cases "vs = []")
    case True
    then show ?thesis using that [of "This m"] same m by simp
  next
    case False
    then have "grows_safely m" "0 < int (length vs)" "l_capacity m + int (length vs) \<le> 2 ^ 30" using m safe cap by auto
    from setListBounds_grow [OF m(1) this, of fresh] show ?thesis using that m by auto
  qed
  obtain m' where m': "set_from eqv fresh (l_size l) vs (upd_default m u) = Some m'" "list_ok m'" "kept (upd_default m u) m'"
      "l_altered (upd_default m u) \<Longrightarrow> l_owner (upd_default m u) \<noteq> None \<Longrightarrow> l_altered m'"
      "elems m' = take (nat (l_size l)) (elems (upd_default m u)) @ vs @ drop (nat (l_size l) + length vs) (elems (upd_default m u))"
    using set_from_spec [OF u(2) _ _ eqv, where s = "l_size l" and vs = vs and fresh = fresh] u(4) sz by auto
  have "elems m' = elems l @ vs" using m'(5) u(4,5) sz by simp
  moreover have "kept m m'" using u(3) m'(3,4) m(7) by (auto simp: kept_def)
  ultimately show ?thesis
    using withMutations_list_spec [OF ok, of "\<lambda>m. Option.bind (setListBounds fresh (Some 0) (Some (l_size l + int (length vs))) m)
        (\<lambda>u. set_from eqv fresh (l_size l) vs (upd_default m u))" fresh m'] m'(1,2) u(1)
    by (simp add: list_push_def m_def Let_def)
qed

lemma list_pop_spec:
  assumes ok: "list_ok l"
  shows "becomes l (list_pop fresh l) (butlast (elems l))"
proof -
  have "becomes l (setListBounds fresh (Some 0) (Some (- 1)) l) (take (nat (l_size l - 1 - 0)) (drop (nat 0) (elems l)))"
    using list_ok_size [OF ok] by (intro setListBounds_inside [OF ok]) (auto simp: new_begin_def new_end_def)
  then show ?thesis using list_ok_size [OF ok] by (simp add: list_pop_def butlast_conv_take nat_diff_distrib')
qed

lemma list_shift_spec:
  assumes ok: "list_ok l"
  shows "becomes l (list_shift fresh l) (tl (elems l))"
proof -
  have "becomes l (setListBounds fresh (Some 1) None l) (take (nat (l_size l - 1)) (drop (nat 1) (elems l)))"
    using list_ok_size [OF ok] by (intro setListBounds_inside [OF ok]) (auto simp: new_begin_def new_end_def)
  then show ?thesis using list_ok_size [OF ok] by (simp add: list_shift_def drop_Suc nat_diff_distrib')
qed

lemma list_slice_spec:
  assumes ok: "list_ok l"
  shows "becomes l (list_slice fresh b e l)
    (take (nat (end_of e (l_size l) - begin_of b (l_size l))) (drop (nat (begin_of b (l_size l))) (elems l)))"
proof -
  note sz = list_ok_size [OF ok]
  have r: "0 \<le> begin_of b (l_size l)" "begin_of b (l_size l) \<le> l_size l" "0 \<le> end_of e (l_size l)" "end_of e (l_size l) \<le> l_size l"
    using sz by (auto simp: begin_of_def end_of_def split: option.splits)
  show ?thesis
  proof (cases "wholeSlice (map_option NumInt b) (map_option NumInt e) (Some (NumInt (l_size l)))")
    case True
    then have "begin_of b (l_size l) = 0" "end_of e (l_size l) = l_size l"
      using sz by (auto simp: wholeSlice_finite begin_of_def end_of_def split: option.splits)
    then show ?thesis using True ok by (simp add: list_slice_def becomes_def)
  next
    case False
    have "becomes l (setListBounds fresh (Some (begin_of b (l_size l))) (Some (end_of e (l_size l))) l)
        (take (nat (end_of e (l_size l) - begin_of b (l_size l))) (drop (nat (begin_of b (l_size l))) (elems l)))"
      using r sz by (intro setListBounds_inside [OF ok]) (auto simp: new_begin_def new_end_def)
    then show ?thesis using False by (simp add: list_slice_def Let_def)
  qed
qed


lemma setListBounds_unshift:
  assumes ok: "list_ok l" and n: "0 < n" and room: "n \<le> l_origin l \<or> l_level l \<le> 20 \<and> n - l_origin l \<le> 2 ^ 25"
    and n31: "n \<le> 2 ^ 30"
  obtains u where "setListBounds fresh (Some (- n)) None l = Some u" "list_ok (upd_default l u)"
    "kept l (upd_default l u)" "l_size (upd_default l u) = l_size l + n"
    "drop (nat n) (elems (upd_default l u)) = elems l"
proof -
  note sz = list_ok_size [OF ok]
  have be: "new_begin l (Some (- n)) = l_origin l - n" "new_end l None = l_capacity l"
    using sz n n31 by (auto simp: new_begin_def new_end_def)
  have "new_begin l (Some (- n)) < new_end l None" "room l (new_begin l (Some (- n))) (new_end l None)"
      "0 \<le> new_begin l (Some (- n)) \<or> (None :: int option) = None" "new_end l None \<le> l_capacity l \<or> grows_safely l"
    using be n sz room by (auto simp: room_def)
  from resize_spec [OF ok this, of fresh] obtain u where u: "setListBounds fresh (Some (- n)) None l = Some u"
      "list_ok (upd_default l u)" "kept l (upd_default l u)" "l_size (upd_default l u) = l_size l + n"
      "\<And>j. 0 \<le> j \<Longrightarrow> j < l_capacity l - (l_origin l - n) \<Longrightarrow> l_origin l \<le> l_origin l - n + j \<Longrightarrow> l_origin l - n + j < l_capacity l \<Longrightarrow>
         list_get j None (upd_default l u) = list_get (l_origin l - n + j - l_origin l) None l"
    unfolding be using sz by (auto simp del: diff_add_eq)
  have "drop (nat n) (elems (upd_default l u)) = elems l"
  proof (rule nth_equalityI)
    fix k assume "k < length (drop (nat n) (elems (upd_default l u)))"
    then have k: "int k < l_size l" using u(4) n sz by simp
    have "list_get (n + int k) None (upd_default l u) = list_get (l_origin l - n + (n + int k) - l_origin l) None l"
      by (rule u(5)) (use k n sz in linarith)+
    moreover have "int (nat n + k) = n + int k" using n by simp
    ultimately show "drop (nat n) (elems (upd_default l u)) ! k = elems l ! k"
      using k u(4) n sz by (simp add: nth_elems)
  qed (use u(4) n sz in simp)
  then show ?thesis using that u by blast
qed

lemma list_unshift_spec:
  assumes ok: "list_ok l" and eqv: "sound_eq eqv" and n31: "int (length vs) \<le> 2 ^ 30"
    and room: "int (length vs) \<le> l_origin l \<or> l_level l \<le> 20 \<and> int (length vs) - l_origin l \<le> 2 ^ 25"
  shows "becomes l (list_unshift eqv fresh vs l) (vs @ elems l)"
proof -
  define m where "m = upd_default l (list_asMutable fresh l)"
  note m = asMutable_same [OF ok m_def]
  note sz = list_ok_size [OF ok]
  have same: "setListBounds fresh (Some 0) None m = Some (This m)"
    by (intro setListBounds_same) (auto simp: new_begin_def new_end_def)
  obtain u where u: "setListBounds fresh (Some (- int (length vs))) None m = Some u" "list_ok (upd_default m u)"
      "kept m (upd_default m u)" "l_size (upd_default m u) = l_size l + int (length vs)"
      "drop (length vs) (elems (upd_default m u)) = elems l"
  proof (cases "vs = []")
    case True
    then show ?thesis using that [of "This m"] same m by simp
  next
    case False
    then have "0 < int (length vs)" "int (length vs) \<le> l_origin m \<or> l_level m \<le> 20 \<and> int (length vs) - l_origin m \<le> 2 ^ 25"
      using m room by auto
    from setListBounds_unshift [OF m(1) this n31, of fresh] show ?thesis using that m by auto
  qed
  obtain m' where m': "set_from eqv fresh 0 vs (upd_default m u) = Some m'" "list_ok m'" "kept (upd_default m u) m'"
      "l_altered (upd_default m u) \<Longrightarrow> l_owner (upd_default m u) \<noteq> None \<Longrightarrow> l_altered m'"
      "elems m' = take (nat 0) (elems (upd_default m u)) @ vs @ drop (nat 0 + length vs) (elems (upd_default m u))"
    using set_from_spec [OF u(2) _ _ eqv, where s = 0 and vs = vs and fresh = fresh] u(4) sz by auto
  have "elems m' = vs @ elems l" using m'(5) u(5) by simp
  moreover have "kept m m'" using u(3) m'(3,4) m(7) by (auto simp: kept_def)
  ultimately show ?thesis
    using withMutations_list_spec [OF ok, of "\<lambda>m. Option.bind (setListBounds fresh (Some (- int (length vs))) None m)
        (\<lambda>u. set_from eqv fresh 0 vs (upd_default m u))" fresh m'] m'(1,2) u(1)
    by (simp add: list_unshift_def m_def)
qed

lemma list_set_spec:
  assumes ok: "list_ok l" and eqv: "sound_eq eqv" and i: "- l_size l \<le> i" "i < l_size l"
  shows "becomes l (list_set eqv fresh i v l) ((elems l)[nat (if i < 0 then l_size l + i else i) := v])"
proof -
  define j where "j = (if i < 0 then l_size l + i else i)"
  have j: "0 \<le> j" "j < l_size l" using i by (auto simp: j_def)
  have "list_set eqv fresh i v l = Some (update_inside eqv j v l)"
    unfolding list_set_def using j by (subst updateList.simps) (simp add: j_def [symmetric])
  then show ?thesis using update_inside_spec [OF ok j eqv refl] by (simp add: becomes_def j_def)
qed

lemma update_inside_origin: "l_origin (upd_default l (update_inside eqv i v l)) = l_origin l"
  by (auto simp: update_inside_def Let_def makeList_def split: prod.splits)

lemma list_commit_origin: "l_origin m \<le> l_origin l \<Longrightarrow> l_origin (upd_default l (list_commit l m)) \<le> l_origin l"
  by (simp add: list_commit_def list_ensureOwner_def makeList_def)

lemma list_set_beyond:
  assumes ok: "list_ok l" and safe: "grows_safely l" and eqv: "sound_eq eqv"
    and i: "l_size l \<le> i" "l_origin l + i + 1 \<le> 2 ^ 30"
  obtains u where "list_set eqv fresh i v l = Some u" "list_ok (upd_default l u)" "l_size (upd_default l u) = i + 1"
    "take (length (elems l)) (elems (upd_default l u)) = elems l" "list_get i None (upd_default l u) = v" "kept l (upd_default l u)"
    "l_origin (upd_default l u) \<le> l_origin l"
proof -
  define m where "m = upd_default l (list_asMutable fresh l)"
  note m = asMutable_same [OF ok m_def]
  note sz = list_ok_size [OF ok]
  have n: "l_size m + (i + 1 - l_size l) = i + 1" using m by simp
  obtain u where u: "setListBounds fresh (Some 0) (Some (i + 1)) m = Some u" "list_ok (upd_default m u)"
      "kept m (upd_default m u)" "l_size (upd_default m u) = i + 1" "take (length (elems m)) (elems (upd_default m u)) = elems m"
      "l_origin (upd_default m u) \<le> l_origin m"
  proof -
    have "grows_safely m" "0 < i + 1 - l_size l" "l_capacity m + (i + 1 - l_size l) \<le> 2 ^ 30" using m safe i sz by auto
    from setListBounds_grow [OF m(1) this, of fresh, unfolded n] show ?thesis using that by blast
  qed
  define m1 where "m1 = upd_default m u"
  have i1: "0 \<le> i" "i < l_size m1" using i sz u(4) by (auto simp: m1_def)
  define m2 where "m2 = upd_default m1 (update_inside eqv i v m1)"
  note m2 = update_inside_spec [OF _ i1 eqv m2_def]
  have ok1: "list_ok m1" using u(2) by (simp add: m1_def)
  have kept: "kept m m2" using u(3) m2(4,5) [OF ok1] m(7) by (auto simp: kept_def m1_def)
  have commit: "becomes l (Some (list_commit l m2)) (elems m2)"
    using list_commit_spec [OF ok m_def] m2(1) ok1 kept by blast
  have inner: "updateList eqv fresh i v m1 = Some (update_inside eqv i v m1)"
    using list_set_inside [OF i1] by (simp add: list_set_def)
  have "list_set eqv fresh i v l = Some (list_commit l m2)"
    unfolding list_set_def using i sz u(1) inner
    by (subst updateList.simps) (simp add: m_def [symmetric] m1_def [symmetric] m2_def [symmetric])
  moreover have el: "elems (upd_default l (list_commit l m2)) = elems m2" "list_ok (upd_default l (list_commit l m2))"
      "kept l (upd_default l (list_commit l m2))"
    using commit by (auto simp: becomes_def)
  moreover have s2: "l_size (upd_default l (list_commit l m2)) = i + 1"
    using size_elems [OF el(2)] el(1) m2(2,3) [OF ok1] u(4) i1 by (simp add: m1_def)
  moreover have "take (length (elems l)) (elems m2) = elems l"
    using m2(2) [OF ok1] u(5) i m(2,3) by (simp add: m1_def take_update_cancel)
  moreover have "list_get i None (upd_default l (list_commit l m2)) = v"
  proof -
    have "list_get (int (nat i)) None (upd_default l (list_commit l m2)) = elems (upd_default l (list_commit l m2)) ! nat i"
      using s2 i1 by (subst nth_elems) auto
    also have "\<dots> = v" unfolding el(1) m2(2) [OF ok1] using i1 by simp
    finally show ?thesis using i1 by simp
  qed
  moreover have "l_origin (upd_default l (list_commit l m2)) \<le> l_origin l"
    using u(6) m(5) by (intro list_commit_origin) (simp add: m2_def update_inside_origin m1_def)
  ultimately show ?thesis using that by simp
qed

lemma list_setSize_spec:
  assumes ok: "list_ok l" and n: "0 \<le> n" "l_origin l + n \<le> 2 ^ 30" and safe: "n \<le> l_size l \<or> grows_safely l"
  obtains u where "list_setSize fresh n l = Some u" "list_ok (upd_default l u)" "l_size (upd_default l u) = n"
    "take (min (length (elems l)) (nat n)) (elems (upd_default l u)) = take (nat n) (elems l)" "kept l (upd_default l u)"
proof (cases "n \<le> l_size l")
  case True
  have "becomes l (setListBounds fresh (Some 0) (Some n) l) (take (nat (n - 0)) (drop (nat 0) (elems l)))"
    using list_ok_size [OF ok] n True by (intro setListBounds_inside [OF ok]) (auto simp: new_begin_def new_end_def)
  then obtain u where u: "setListBounds fresh (Some 0) (Some n) l = Some u" "list_ok (upd_default l u)"
      "elems (upd_default l u) = take (nat n) (elems l)" "kept l (upd_default l u)"
    by (auto elim: becomesE)
  then have "l_size (upd_default l u) = n" using size_elems [OF u(2)] True n by simp
  moreover have "take (min (length (elems l)) (nat n)) (take (nat n) (elems l)) = take (nat n) (elems l)"
    unfolding take_take by (cases "length (elems l) \<le> nat n") (simp_all only: min.absorb1 min.absorb2 take_all order_refl nle_le)
  ultimately show ?thesis using that [of u] u unfolding list_setSize_def by simp
next
  case False
  have "grows_safely l" "0 < n - l_size l" "l_capacity l + (n - l_size l) \<le> 2 ^ 30"
    using False n safe list_ok_size [OF ok] by auto
  from setListBounds_grow [OF ok this, of fresh] show ?thesis
    using that False list_ok_size [OF ok] by (auto simp: list_setSize_def)
qed

lemma List_of_values_spec:
  assumes eqv: "sound_eq eqv" and n: "int (length vs) \<le> 2 ^ 30"
  obtains l where "List_of_values eqv fresh vs = Some l" "list_ok l" "elems l = vs"
proof -
  consider "vs = []" | "vs \<noteq> []" "length vs < 32" | "32 \<le> length vs" by linarith
  then show ?thesis
  proof cases
    case 1
    then show ?thesis using that [of emptyList] by (simp add: List_of_values_def)
  next
    case 2
    define l where "l = (makeList 0 (int (length vs)) SHIFT None (Some (VLeaf None vs)) None None :: 'a ilist)"
    have off: "tail_off (length vs) = 0" using 2 by (simp add: tail_off_def)
    have l: "list_at l 1 0 (length vs)"
      using 2 off by (simp add: list_at_def l_def makeList_def SHIFT_def)
    have "elems l = vs"
    proof (rule nth_equalityI)
      show "length (elems l) = length vs" by (simp add: l_def makeList_def)
      fix j assume "j < length (elems l)"
      then have j: "j < length vs" by (simp add: l_def makeList_def)
      have "list_get (int j) None l = raw_slot l 1 (length vs) j" using list_get_slot [OF l, of j] j by simp
      also have "\<dots> = vs ! j" using 2 j off by (simp add: raw_slot_def l_def makeList_def elem_nth)
      finally show "elems l ! j = vs ! j" using j by (simp add: nth_elems l_def makeList_def)
    qed
    then show ?thesis using that [of l] l 2 by (auto simp: List_of_values_def l_def list_ok_def)
  next
    case 3
    define m where "m = upd_default emptyList (list_asMutable fresh (emptyList :: 'a ilist))"
    note m = asMutable_same [OF emptyList_ok(1) m_def]
    have m0: "l_origin m = 0" "l_size m = 0" "grows_safely m"
      using m by (auto simp: emptyList_def makeList_def grows_safely_def)
    obtain u where u: "list_setSize fresh (int (length vs)) m = Some u" "list_ok (upd_default m u)"
        "l_size (upd_default m u) = int (length vs)" "kept m (upd_default m u)"
      using list_setSize_spec [OF m(1), of "int (length vs)" fresh] m0 n by auto
    obtain m' where m': "set_from eqv fresh 0 vs (upd_default m u) = Some m'" "list_ok m'" "kept (upd_default m u) m'"
        "l_altered (upd_default m u) \<Longrightarrow> l_owner (upd_default m u) \<noteq> None \<Longrightarrow> l_altered m'"
        "elems m' = take (nat 0) (elems (upd_default m u)) @ vs @ drop (nat 0 + length vs) (elems (upd_default m u))"
      using set_from_spec [OF u(2) _ _ eqv, where s = 0 and vs = vs and fresh = fresh] u(3) by auto
    have "elems m' = vs" using m'(5) u(3) by simp
    moreover have "kept m m'" using u(4) m'(3,4) m(7) by (auto simp: kept_def)
    ultimately have "becomes emptyList (list_withMutations fresh (\<lambda>m. Option.bind (list_setSize fresh (int (length vs)) m)
        (\<lambda>u. set_from eqv fresh 0 vs (upd_default m u))) emptyList) vs"
      using withMutations_list_spec [OF emptyList_ok(1), of "\<lambda>m. Option.bind (list_setSize fresh (int (length vs)) m)
        (\<lambda>u. set_from eqv fresh 0 vs (upd_default m u))" fresh m'] m'(1,2) u(1)
      by (simp add: m_def)
    then obtain w where w: "list_withMutations fresh (\<lambda>m. Option.bind (list_setSize fresh (int (length vs)) m)
        (\<lambda>u. set_from eqv fresh 0 vs (upd_default m u))) emptyList = Some w"
        "list_ok (upd_default emptyList w)" "elems (upd_default emptyList w) = vs"
      by (rule becomesE)
    have "vs \<noteq> []" "\<not> length vs < SIZE" using 3 by auto
    then show ?thesis using that [OF _ w(2,3)] w(1) by (simp add: List_of_values_def)
  qed
qed

end
