(* ===== verification/Imm_ListIter.thy ===== *)
theory Imm_ListIter
  imports Imm_ListMethods
begin

text \<open>
  Iteration of a \<open>List\<close>: the closures of \<open>iterateList\<close> deliver exactly the elements, in order or in
  reverse. A node of height \<open>h\<close> at raw offset \<open>off\<close> covers the slots from \<open>off\<close> up to
  \<open>off + 32 ^ (h + 1)\<close>, cut to the bounds of the list.
\<close>

lemma jasr_nat: "x < 2 ^ 31 \<Longrightarrow> h \<le> 6 \<Longrightarrow> jasr (int x) (5 * h) = int (x div 32 ^ h)"
proof -
  assume x: "x < 2 ^ 31" and h: "h \<le> 6"
  have s: "sint (word_of_int (int x) :: int32) = int x"
    using to_int32_id [of "int x"] x by (simp add: to_int32_def)
  have "jasr (int x) (5 * h) = int x div 2 ^ (5 * h)"
    using h by (simp add: jasr_def sshr32_def sint_signed_drop_bit_eq drop_bit_eq_div s del: of_int_of_nat_eq)
  also have "\<dots> = int (x div 32 ^ h)" by (simp add: power_mult zdiv_int)
  finally show ?thesis .
qed

lemma jsl_nat: "k < 32 \<Longrightarrow> h \<le> 5 \<Longrightarrow> jsl (int k) (5 * h) = int (k * 32 ^ h)"
proof -
  assume k: "k < 32" and h: "h \<le> 5"
  have "(32::nat) ^ h \<le> 32 ^ 5" using h by (intro power_increasing) auto
  then have "k * 32 ^ h \<le> 31 * 32 ^ 5" using k by (intro mult_mono) auto
  then have b: "k * 32 ^ h < 2 ^ 31" by simp
  have "push_bit (5 * h mod 32) (word_of_int (int k) :: int32) = word_of_int (int (k * 32 ^ h))"
    using h by (simp add: push_bit_eq_mult power_mult)
  then have "jsl (int k) (5 * h) = to_int32 (int (k * 32 ^ h))" by (simp only: jsl_def shl32_def to_int32_def)
  also have "\<dots> = int (k * 32 ^ h)"
  proof (rule to_int32_id)
    have "int (k * 32 ^ h) < int (2 ^ 31)" using b by (simp only: of_nat_less_iff)
    then show "int (k * 32 ^ h) < 2 ^ 31" by simp
    have "(0::int) \<le> int (k * 32 ^ h)" by (rule of_nat_0_le_iff)
    moreover have "- (2 ^ 31) \<le> (0::int)" by simp
    ultimately show "- (2 ^ 31) \<le> int (k * 32 ^ h)" by (rule order_trans [rotated])
  qed
  finally show ?thesis .
qed

lemma concat_upt: "lo \<le> hi \<Longrightarrow> (\<And>i j. lo \<le> i \<Longrightarrow> i \<le> j \<Longrightarrow> j \<le> hi \<Longrightarrow> f i \<le> f j) \<Longrightarrow>
    concat (map (\<lambda>k. [f k..<f (Suc k)]) [lo..<hi]) = [f lo..<f hi]"
proof (induction hi rule: dec_induct)
  case (step n)
  have "f lo \<le> f n" "f n \<le> f (Suc n)" using step.prems step.hyps by auto
  then have "[f lo..<f (Suc n)] = [f lo..<f n] @ [f n..<f (Suc n)]" by (metis le_Suc_ex upt_add_eq_append)
  moreover have "concat (map (\<lambda>k. [f k..<f (Suc k)]) [lo..<n]) = [f lo..<f n]"
    using step.prems by (intro step.IH) auto
  ultimately show ?case using step.hyps by simp
qed simp

text \<open>The intervals of the children of a node make up the interval of the node.\<close>

lemma node_interval:
  fixes a off B c :: nat
  assumes B: "0 < B" and a: "a < off + 32 * B" "a \<le> c" and c: "off \<le> c"
    and lo: "lo = (if off > a then 0 else (a - off) div B)" and hi: "hi = min ((c - off) div B + 1) 32"
  shows "lo \<le> hi" "concat (map (\<lambda>k. [max (off + k * B) a..<min (off + k * B + B) c]) [lo..<hi]) = [max off a..<min (off + 32 * B) c]"
    and "\<And>k. lo \<le> k \<Longrightarrow> k < hi \<Longrightarrow> off + k * B \<le> c \<and> a < off + k * B + B \<and> k < 32"
proof -
  have lo32: "lo < 32" using lo a B by (auto simp: less_mult_imp_div_less)
  have lo_le: "a < off + (lo + 1) * B"
  proof (cases "off > a")
    case False
    have "a - off < ((a - off) div B + 1) * B" using B by (metis add.commute dividend_less_times_div mult.commute mult_Suc_right plus_1_eq_Suc)
    then show ?thesis using False lo by simp
  qed (use lo in simp)
  have k: "off + k * B \<le> c \<and> a < off + k * B + B \<and> k < 32" if "lo \<le> k" "k < hi" for k
  proof -
    have "k \<le> (c - off) div B" "k < 32" using that hi by auto
    then have "k * B \<le> c - off" using B by (metis div_times_less_eq_dividend le_trans mult_le_mono1)
    moreover have "(lo + 1) * B \<le> (k + 1) * B" using that by simp
    moreover have "off + (k + 1) * B = off + k * B + B" by simp
    ultimately show ?thesis using lo_le c \<open>k < 32\<close> by linarith
  qed
  show "off + k * B \<le> c \<and> a < off + k * B + B \<and> k < 32" if "lo \<le> k" "k < hi" for k by (rule k [OF that])
  have lo_c: "lo \<le> (c - off) div B" using lo a by (auto intro: div_le_mono diff_le_mono)
  then show le: "lo \<le> hi" using hi lo32 by auto
  define f where "f k = min c (max a (off + k * B))" for k
  have "concat (map (\<lambda>k. [max (off + k * B) a..<min (off + k * B + B) c]) [lo..<hi]) = concat (map (\<lambda>k. [f k..<f (Suc k)]) [lo..<hi])"
  proof (intro arg_cong [where f = concat] map_cong refl)
    fix j assume "j \<in> set [lo..<hi]"
    then have "off + j * B \<le> c" "a < off + j * B + B" using k by auto
    moreover have "off + Suc j * B = off + j * B + B" by simp
    ultimately show "[max (off + j * B) a..<min (off + j * B + B) c] = [f j..<f (Suc j)]"
      using a(2) by (simp add: f_def max_def min_def ac_simps)
  qed
  also have "\<dots> = [f lo..<f hi]"
  proof (rule concat_upt [OF le])
    fix i j :: nat assume "i \<le> j"
    then have "i * B \<le> j * B" by simp
    then show "f i \<le> f j" unfolding f_def by (intro min.mono max.mono) auto
  qed
  also have "f lo = max off a"
  proof (cases "off > a")
    case True
    then show ?thesis using lo c by (simp add: f_def)
  next
    case False
    then have "lo = (a - off) div B" using lo by simp
    then have "lo * B \<le> a - off" by (simp only: div_times_less_eq_dividend)
    then have "off + lo * B \<le> a" using False by linarith
    then show ?thesis using False a by (simp add: f_def max_def)
  qed
  also have "f hi = min (off + 32 * B) c"
  proof (cases "hi = 32")
    case True
    then show ?thesis using a by (simp add: f_def)
  next
    case False
    then have h: "hi = (c - off) div B + 1" "hi \<le> 32" using hi by auto
    have "c - off < ((c - off) div B + 1) * B" using B by (metis add.commute dividend_less_times_div mult.commute mult_Suc_right plus_1_eq_Suc)
    then have "c < off + hi * B" using h c by simp
    moreover have "hi * B \<le> 32 * B" using h by simp
    ultimately have "c \<le> off + hi * B" "c \<le> off + 32 * B" by linarith+
    then show ?thesis using a by (simp add: f_def min_absorb1 min_absorb2 max_absorb2)
  qed
  finally show "concat (map (\<lambda>k. [max (off + k * B) a..<min (off + k * B + B) c]) [lo..<hi]) = [max off a..<min (off + 32 * B) c]" .
qed

definition node_slot :: "'v ilist \<Rightarrow> nat \<Rightarrow> nat \<Rightarrow> 'v vnode option \<Rightarrow> nat \<Rightarrow> 'v option" where
  "node_slot l h c n i = (if tail_off c \<le> i then elem (leaf_array (l_tail l)) (i mod 32) else vlook h n i)"

lemma node_values_spec:
  assumes l: "l_origin l = int a" "l_capacity l = int c" "a \<le> c" "c \<le> 2 ^ 30"
    and "h \<le> 5" "wf_vnode h n" "32 ^ Suc h dvd off" "off \<le> c" "a < off + 32 ^ Suc h"
  shows "node_values r l n (5 * h) (int off) = map (node_slot l h c n) (directed r [max off a..<min (off + 32 ^ Suc h) c])"
  using assms(5-)
proof (induction h arbitrary: n off)
  case 0
  have o: "32 dvd off" using 0 by simp
  have t: "getTailOffset (l_capacity l) = int (tail_off c)" using getTailOffset_nat l by simp
  have len: "nat (if int off > l_origin l then 0 else l_origin l - int off) = max off a - off"
      "nat (min (l_capacity l - int off) (int SIZE)) = min (off + 32) c - off"
    using l 0 by auto
  define arr where "arr = leaf_array (if int off = int (tail_off c) then l_tail l else n)"
  have "node_values r l n (5 * 0) (int off) = map (elem arr) (directed r [max off a - off..<min (off + 32) c - off])"
    by (subst node_values.simps) (simp only: mult_0_right leaf_values_def Let_def len t arr_def if_True simp_thms)
  also have "\<dots> = map (\<lambda>i. elem arr (i - off)) (directed r [max off a..<min (off + 32) c])"
  proof -
    have "[max off a - off..<min (off + 32) c - off] = map (\<lambda>i. i - off) [max off a..<min (off + 32) c]"
      by (rule nth_equalityI) (auto simp: less_diff_conv)
    then show ?thesis by (simp add: directed_map o_def)
  qed
  also have "\<dots> = map (node_slot l 0 c n) (directed r [max off a..<min (off + 32) c])"
  proof (rule map_cong [OF refl])
    fix i assume "i \<in> set (directed r [max off a..<min (off + 32) c])"
    then have i: "off \<le> i" "i < off + 32" "i < c" by auto
    then have "i mod 32 = i - off"
    proof -
      obtain k where "off = 32 * k" using o by blast
      then have "i = (i - off) + k * 32" using i by simp
      then have "i mod 32 = (i - off) mod 32" by (metis mod_mult_self1)
      then show ?thesis using i by simp
    qed
    moreover have "tail_off c \<le> i \<longleftrightarrow> off = tail_off c"
    proof
      assume "tail_off c \<le> i"
      then show "off = tail_off c"
        using block_eq [of c i] i o by (metis add_diff_cancel_left' calculation div_mult_mod_eq dvd_div_mult_self
            le_add_diff_inverse tail_off_dvd add_right_cancel)
    qed (use i in simp)
    ultimately show "elem arr (i - off) = node_slot l 0 c n i"
      using 0 by (simp add: arr_def node_slot_def vlook_0)
  qed
  finally show ?case by simp
next
  case (Suc h)
  let ?B = "32 ^ Suc h :: nat"
  have pw: "(32::nat) ^ Suc (Suc h) = 32 * ?B" by simp
  have B: "0 < ?B" by simp
  have a: "a < off + 32 * ?B" using Suc.prems by simp
  define lo where "lo = (if off > a then 0 else (a - off) div ?B)"
  define hi where "hi = min ((c - off) div ?B + 1) 32"
  note iv = node_interval [OF B a l(3) Suc.prems(4) lo_def hi_def]
  have c31: "c - off < 2 ^ 31" "a - off < 2 ^ 31" using l by auto
  have from': "nat (if int off > l_origin l then 0 else jasr (l_origin l - int off) (5 * Suc h)) = lo"
  proof (cases "off > a")
    case False
    then have "l_origin l - int off = int (a - off)" using l by simp
    then show ?thesis using False l jasr_nat [OF c31(2), of "Suc h"] Suc.prems by (simp add: lo_def del: of_nat_diff mult_Suc_right power_Suc)
  qed (use l in \<open>simp add: lo_def\<close>)
  have to': "nat (min (jasr (l_capacity l - int off) (5 * Suc h) + 1) (int SIZE)) = hi"
  proof -
    have "l_capacity l - int off = int (c - off)" using l Suc.prems by simp
    then show ?thesis using jasr_nat [OF c31(1), of "Suc h"] Suc.prems by (simp add: hi_def nat_add_distrib del: of_nat_diff mult_Suc_right power_Suc)
  qed
  have child: "node_values r l (elem (inner_array n) k) (5 * h) (int off + jsl (int k) (5 * Suc h)) =
      map (node_slot l (Suc h) c n) (directed r [max (off + k * ?B) a..<min (off + k * ?B + ?B) c])"
    if k: "k \<in> set [lo..<hi]" for k
  proof -
    have r: "off + k * ?B \<le> c" "a < off + k * ?B + ?B" "k < 32" using iv(3) [of k] k by auto
    have dv: "?B dvd off + k * ?B" using Suc.prems(3) by (metis dvd_add dvd_mult_left dvd_triv_right pw mult.commute)
    have off': "int off + jsl (int k) (5 * Suc h) = int (off + k * ?B)"
      using jsl_nat [OF r(3), of "Suc h"] Suc.prems by simp
    have "node_values r l (elem (inner_array n) k) (5 * h) (int (off + k * ?B)) =
        map (node_slot l h c (elem (inner_array n) k)) (directed r [max (off + k * ?B) a..<min (off + k * ?B + ?B) c])"
      using Suc.IH [OF _ wf_elem_inner [OF Suc.prems(2)] dv r(1,2)] Suc.prems(1) by simp
    also have "\<dots> = map (node_slot l (Suc h) c n) (directed r [max (off + k * ?B) a..<min (off + k * ?B + ?B) c])"
    proof (rule map_cong [OF refl])
      fix i assume "i \<in> set (directed r [max (off + k * ?B) a..<min (off + k * ?B + ?B) c])"
      then have i: "off + k * ?B \<le> i" "i < off + k * ?B + ?B" by auto
      have "digit (Suc h) i = k"
      proof -
        obtain q where q: "off = q * 32 * ?B" using Suc.prems(3) unfolding pw by (metis dvd_def mult.assoc mult.commute)
        then have "i = (i - (off + k * ?B)) + (q * 32 + k) * ?B" using i by (simp add: algebra_simps)
        then have "i div ?B = (i - (off + k * ?B)) div ?B + (q * 32 + k)" using B by (metis add.commute div_mult_self1 less_numeral_extra(3))
        then have "i div ?B = q * 32 + k" using i by simp
        then show ?thesis using r(3) by (simp add: digit_def)
      qed
      then show "node_slot l h c (elem (inner_array n) k) i = node_slot l (Suc h) c n i"
        using vlook_Suc [OF Suc.prems(2), of i] by (simp add: node_slot_def)
    qed
    finally show ?thesis by (simp only: off')
  qed
  have lv: "5 * Suc h - SHIFT = 5 * h" "5 * Suc h \<noteq> 0" by (simp_all add: SHIFT_def)
  have "node_values r l n (5 * Suc h) (int off) =
      concat (map (\<lambda>k. node_values r l (elem (inner_array n) k) (5 * h) (int off + jsl (int k) (5 * Suc h))) (directed r [lo..<hi]))"
    by (subst node_values.simps) (simp only: Let_def from' to' lv if_False)
  also have "\<dots> = concat (map (\<lambda>k. directed r (map (node_slot l (Suc h) c n) [max (off + k * ?B) a..<min (off + k * ?B + ?B) c])) (directed r [lo..<hi]))"
    using child by (intro arg_cong [where f = concat] map_cong refl) (simp add: directed_map)
  also have "\<dots> = directed r (concat (map (\<lambda>k. map (node_slot l (Suc h) c n) [max (off + k * ?B) a..<min (off + k * ?B + ?B) c]) [lo..<hi]))"
    by (simp only: directed_concat_map)
  also have "\<dots> = map (node_slot l (Suc h) c n) (directed r (concat (map (\<lambda>k. [max (off + k * ?B) a..<min (off + k * ?B + ?B) c]) [lo..<hi])))"
    by (simp only: directed_map [symmetric] map_concat map_map o_def)
  finally show ?case by (simp only: iv(2) pw)
qed

theorem iterateList_elems:
  assumes "list_ok l" shows "iterateList r l = directed r (elems l)"
proof -
  obtain h a c where l: "list_at l h a c" using assms by (auto simp: list_ok_def)
  note f = l [unfolded list_at_def]
  have cap: "c \<le> 2 ^ 30" using capacity_bound [OF l] .
  have c: "c \<le> 32 ^ Suc h"
    using tail_off_ge [of "32 ^ Suc h" c] f by (cases "32 ^ Suc h < c") auto
  have a: "a < 0 + 32 ^ Suc h"
  proof (cases "a = c")
    case True
    then have "a = 0" using f by simp
    then show ?thesis by simp
  qed (use f c in linarith)
  have "iterateList r l = map (node_slot l h c (l_root l)) (directed r [max 0 a..<min (0 + 32 ^ Suc h) c])"
    using node_values_spec [of l a c h "l_root l" 0 r] f cap a by (simp add: iterateList_def del: power_Suc)
  also have "\<dots> = directed r (map (node_slot l h c (l_root l)) [a..<c])" using c by (simp add: directed_map min_absorb2 del: power_Suc)
  also have "map (node_slot l h c (l_root l)) [a..<c] = elems l"
  proof (rule nth_equalityI)
    fix j assume "j < length (map (node_slot l h c (l_root l)) [a..<c])"
    then have "j < c - a" by simp
    then show "map (node_slot l h c (l_root l)) [a..<c] ! j = elems l ! j"
      using list_get_slot [OF l, of j None] f by (simp add: nth_elems node_slot_def raw_slot_def add.commute)
  qed (use f in simp)
  finally show ?thesis .
qed

end
