(* ===== verification/Imm_ListProps.thy ===== *)
theory Imm_ListProps
  imports Imm_ListIter
begin

text \<open>
  The properties of \<open>List\<close>. \<open>becomes l r xs\<close> says that a call on the receiver \<open>l\<close> ends, returns a
  well-formed list with the elements \<open>xs\<close>, and keeps the owner. The witnesses use a list of two
  elements, which lives in the tail, and lists of a hundred elements, which have a trie.
\<close>

definition demo_list :: "nat ilist" where
  "demo_list = makeList 0 2 SHIFT None (Some (VLeaf None [Some 1, Some 2])) None None"

lemma demo_list_made: "List_of_values (=) 7 [Some 1, Some 2] = Some demo_list"
  by (simp add: List_of_values_def demo_list_def)

lemma equality_sound [simp]: "sound_eq (=)"
  by (simp add: sound_eq_def)

lemma demo_list_ok: "list_ok demo_list" "elems demo_list = [Some 1, Some 2]"
proof -
  obtain l where "List_of_values (=) 7 [Some 1, Some (2::nat)] = Some l" "list_ok l" "elems l = [Some 1, Some 2]"
  proof (rule List_of_values_spec [OF equality_sound])
    show "int (length [Some 1, Some (2::nat)]) \<le> 2 ^ 30" by simp
  qed
  then show "list_ok demo_list" "elems demo_list = [Some 1, Some 2]" using demo_list_made by simp_all
qed

lemma demo_list_fields: "l_size demo_list = 2" "l_origin demo_list = 0" "l_capacity demo_list = 2" "l_level demo_list = 5"
  by (simp_all add: demo_list_def makeList_def SHIFT_def)

lemma demo_list_safe: "grows_safely demo_list"
proof -
  have "list_get (int 1) None demo_list = elems demo_list ! 1" by (rule nth_elems [symmetric]) (simp add: demo_list_fields)
  then show ?thesis by (simp add: grows_safely_def demo_list_fields demo_list_ok)
qed

text \<open>
  C12. \<open>push\<close> appends its arguments, on a list whose last element is defined (or an empty one): the
  call ends, the result is well formed and its elements are the old ones followed by the new ones,
  wherever the tail and the levels of the trie have to change.
\<close>

theorem list_push_appends:
  assumes "list_ok l" "grows_safely l" "l_capacity l + int (length vs) \<le> 2 ^ 30" "sound_eq eqv"
  shows "becomes l (list_push eqv fresh vs l) (elems l @ vs)"
  using assms by (rule list_push_spec)

theorem list_push_appends_witness:
  "becomes demo_list (list_push (=) 9 [None, Some 4] demo_list) [Some 1, Some 2, None, Some 4]"
  using list_push_appends [OF demo_list_ok(1) demo_list_safe _ equality_sound, of "[None, Some 4]" 9]
  by (simp add: demo_list_fields demo_list_ok)

text \<open>
  C13. \<open>unshift\<close> puts its arguments before the elements. When the origin is too small the root is
  raised, which ends while the level is at most 20 and at most \<open>2 ^ 25\<close> slots are missing.
\<close>

theorem list_unshift_prepends:
  assumes "list_ok l" "sound_eq eqv" "int (length vs) \<le> 2 ^ 30"
    "int (length vs) \<le> l_origin l \<or> l_level l \<le> 20 \<and> int (length vs) - l_origin l \<le> 2 ^ 25"
  shows "becomes l (list_unshift eqv fresh vs l) (vs @ elems l)"
  using assms by (rule list_unshift_spec)

theorem list_unshift_prepends_witness:
  "becomes demo_list (list_unshift (=) 9 [Some 8, None] demo_list) [Some 8, None, Some 1, Some 2]"
  using list_unshift_prepends [OF demo_list_ok(1) equality_sound, of "[Some 8, None]" 9]
  by (simp add: demo_list_fields demo_list_ok)

text \<open>
  C14. \<open>pop\<close> drops the last element and \<open>shift\<close> the first, on every well-formed list; on an empty
  list both return it unchanged.
\<close>

theorem list_pop_shift:
  assumes "list_ok l"
  shows "becomes l (list_pop fresh l) (butlast (elems l)) \<and> becomes l (list_shift fresh l) (tl (elems l))"
  using list_pop_spec [OF assms] list_shift_spec [OF assms] by blast

theorem list_pop_shift_witness:
  "becomes demo_list (list_pop 9 demo_list) [Some 1] \<and> becomes demo_list (list_shift 9 demo_list) [Some 2]"
  using list_pop_shift [OF demo_list_ok(1), of 9] by (simp add: demo_list_ok)

text \<open>
  C15. \<open>set\<close> at an index within the list, counted from the end when it is negative, replaces that
  element and no other one.
\<close>

theorem list_set_updates:
  assumes "list_ok l" "sound_eq eqv" "- l_size l \<le> i" "i < l_size l"
  shows "becomes l (list_set eqv fresh i v l) ((elems l)[nat (if i < 0 then l_size l + i else i) := v])"
  using assms by (rule list_set_spec)

theorem list_set_updates_witness:
  "becomes demo_list (list_set (=) 9 (- 1) (Some 5) demo_list) [Some 1, Some 5]"
  using list_set_updates [OF demo_list_ok(1) equality_sound, of "-1" 9 "Some 5"]
  by (simp add: demo_list_fields demo_list_ok)

text \<open>
  C16. \<open>slice\<close> returns the elements between the resolved bounds (negative ones count from the end,
  all are clamped to the size), the list itself when it is the whole.
\<close>

theorem list_slice_sublist:
  assumes "list_ok l"
  shows "becomes l (list_slice fresh b e l)
    (take (nat (end_of e (l_size l) - begin_of b (l_size l))) (drop (nat (begin_of b (l_size l))) (elems l)))"
  using assms by (rule list_slice_spec)

theorem list_slice_sublist_witness:
  "becomes demo_list (list_slice 9 (Some (- 1)) None demo_list) [Some 2]"
  using list_slice_sublist [OF demo_list_ok(1), of 9 "Some (-1)" None]
  by (simp add: demo_list_fields demo_list_ok begin_of_def end_of_def)

text \<open>
  C17. \<open>setSize\<close> within the limits ends and keeps the elements that remain in range: it truncates, or
  it grows the list. What the new slots hold is left open here, since the code can leave old values
  in them.
\<close>

theorem list_setSize_keeps:
  assumes "list_ok l" "0 \<le> n" "l_origin l + n \<le> 2 ^ 30" "n \<le> l_size l \<or> grows_safely l"
  shows "\<exists>u. list_setSize fresh n l = Some u \<and> list_ok (upd_default l u) \<and> l_size (upd_default l u) = n \<and>
    take (min (length (elems l)) (nat n)) (elems (upd_default l u)) = take (nat n) (elems l)"
  using list_setSize_spec [OF assms] by metis

theorem list_setSize_keeps_witness:
  "\<exists>u. list_setSize 9 3 demo_list = Some u \<and> take 2 (elems (upd_default demo_list u)) = [Some 1, Some 2]"
  using list_setSize_keeps [OF demo_list_ok(1), of 3 9] demo_list_safe by (auto simp: demo_list_fields demo_list_ok numeral_2_eq_2)

text \<open>
  Building a list from values and reading it back gives the values, for \<open>List(values)\<close> with its
  two ways of building (a tail of fewer than 32 elements, or \<open>setSize\<close> and \<open>set\<close>).
\<close>

theorem list_construct_read:
  assumes "sound_eq eqv" "int (length vs) \<le> 2 ^ 30"
  shows "\<exists>l. List_of_values eqv fresh vs = Some l \<and> list_ok l \<and> map (\<lambda>j. list_get (int j) None l) [0..<length vs] = vs"
proof -
  obtain l where "List_of_values eqv fresh vs = Some l" "list_ok l" "elems l = vs"
    using List_of_values_spec [OF assms] by metis
  then show ?thesis by (auto simp: elems_def)
qed

theorem list_construct_read_witness:
  "\<exists>l. List_of_values (=) 7 (map Some [0..<100]) = Some l \<and> list_ok l \<and>
     map (\<lambda>j. list_get (int j) None l) [0..<100] = map Some [0..<100::nat]"
  using list_construct_read [OF equality_sound, of "map Some [0..<100]" 7] by simp

text \<open>
  C18. Iteration delivers the elements in order, or in reverse order, whatever the shape of the trie:
  the recursive closures of \<open>iterateList\<close> agree with reading every index.
\<close>

theorem list_iteration:
  assumes "list_ok l"
  shows "iterateList reverse l = directed reverse (map (\<lambda>j. list_get (int j) None l) [0..<nat (l_size l)])"
  using iterateList_elems [OF assms] by (simp add: elems_def)

theorem list_iteration_witness:
  "iterateList True demo_list = [Some 2, Some 1]"
  using list_iteration [OF demo_list_ok(1), of True] demo_list_ok(2) by (simp add: elems_def)

section \<open>Where the code falls short\<close>

lemma jsl_le: "jsl 1 n \<le> 2 ^ 30"
proof -
  define k where "k = n mod 32"
  have k: "k < 32" by (simp add: k_def)
  have "jsl 1 n = sint (push_bit k (1 :: int32))" by (simp add: jsl_def shl32_def k_def)
  also have "\<dots> \<le> 2 ^ 30"
  proof (cases "k = 31")
    case True
    then show ?thesis by simp
  next
    case False
    then have "(2::int) ^ k \<le> 2 ^ 30" using k by (intro power_increasing) auto
    moreover have "sint (push_bit k (1 :: int32)) = 2 ^ k"
    proof -
      have "push_bit k (1 :: int32) = word_of_int (2 ^ k)" by (simp add: push_bit_eq_mult)
      moreover have "to_int32 (2 ^ k) = 2 ^ k"
      proof (rule to_int32_id)
        show "(2::int) ^ k < 2 ^ 31" using \<open>2 ^ k \<le> 2 ^ 30\<close> by simp
        have "(0::int) \<le> 2 ^ k" by simp
        moreover have "- (2 ^ 31) \<le> (0::int)" by simp
        ultimately show "- (2 ^ 31) \<le> (2::int) ^ k" by (rule order_trans [rotated])
      qed
      ultimately show ?thesis by (simp only: to_int32_def)
    qed
    ultimately show ?thesis by simp
  qed
  finally show ?thesis .
qed

lemma raise_capacity_result: "raise_capacity own t n lv = Some r \<Longrightarrow> t < 2 ^ 30"
proof (rule raise_capacity.raw_induct [of "\<lambda>own t n lv r. t < 2 ^ 30"])
  fix rc and own t n lv r
  assume IH: "\<And>own t n lv r. rc own t n lv = Some r \<Longrightarrow> t < 2 ^ 30"
    and r: "(if jsl 1 (lv + SHIFT) \<le> t
      then rc own t (Some (VInner own (if has_content n then [n] else []))) (lv + SHIFT) else Some (n, lv)) = Some r"
  show "t < 2 ^ 30"
  proof (cases "jsl 1 (lv + SHIFT) \<le> t")
    case True
    then show ?thesis using r by (simp only: if_True) (rule IH)
  next
    case False
    then show ?thesis using jsl_le [of "lv + SHIFT"] by linarith
  qed
qed

text \<open>
  C19. The loop that raises the root for a larger capacity never ends once the tail offset reaches
  \<open>2 ^ 30\<close>, since \<open>1 << level\<close> is a 32-bit shift that never exceeds \<open>2 ^ 30\<close>: \<open>setSize\<close> to a size
  beyond \<open>2 ^ 30 + 32\<close> hangs, although the size is far below the limit of an array.
\<close>

theorem list_setSize_hangs:
  assumes "2 ^ 30 + 32 < n" "n < 2 ^ 31"
  shows "list_setSize fresh n emptyList = None"
proof -
  have e: "to_int32 n = n" "to_int32 0 = 0" using assms by (auto intro: to_int32_id)
  define c where "c = nat n"
  have c: "n = int c" "2 ^ 30 + 32 < c" "c \<le> 2 ^ 31" using assms by (auto simp: c_def)
  have "tail_off c \<ge> 2 ^ 30" using tail_off_ge [of "2 ^ 30" c] c by simp
  then have off: "getTailOffset n \<ge> 2 ^ 30" using getTailOffset_nat [OF c(3)] c(1) by simp
  have "raise_capacity own (getTailOffset n) nd lv = None" for own and nd :: "'a vnode option" and lv
    using raise_capacity_result [of own "getTailOffset n" nd lv] off by (cases "raise_capacity own (getTailOffset n) nd lv") auto
  then show ?thesis using assms
    by (simp add: list_setSize_def setListBounds_def emptyList_def makeList_def e raise_origin.simps [of _ 0])
qed

theorem list_setSize_hangs_witness:
  "list_setSize 0 (2 ^ 30 + 33) (emptyList :: nat ilist) = None"
  by (rule list_setSize_hangs) simp_all

definition try_call :: "('v ilist \<Rightarrow> 'v ilist upd option) \<Rightarrow> 'v ilist option \<Rightarrow> 'v ilist option" where
  "try_call f l = (case l of None \<Rightarrow> None | Some x \<Rightarrow> map_option (upd_default x) (f x))"

text \<open>
  Old values come back: \<open>removeAfter\<close> returns the node untouched when the new tail offset equals
  \<open>1 << level\<close>, so a list of 97 elements that is cut to 33 and grown to 97 again still answers the
  old element at index 64, where \<open>setSize\<close> should leave \<open>undefined\<close>.
\<close>

theorem list_setSize_stale:
  "map_option (list_get 64 None)
     (try_call (list_setSize 9 97) (try_call (list_setSize 9 33)
       (try_call (list_set (=) 9 64 (Some (7::nat))) (try_call (list_setSize 9 97) (Some emptyList))))) = Some (Some 7)"
  by code_simp

text \<open>
  The test at the head of \<open>removeBefore\<close> parses as \<open>index === level ? 1 << level : \<dots>\<close>, so a new
  origin of 5 below a root of level 5 trims nothing: after \<open>slice(5)\<close> on 64 elements, setting an
  index before the first one exposes an element that had been sliced off.
\<close>

theorem list_slice_stale:
  "map_option (list_get 1 None)
     (try_call (list_set (=) 9 (- 61) (Some 3))
       (try_call (list_slice 9 (Some 5) None)
         (try_call (list_set (=) 9 4 (Some (7::nat))) (try_call (list_setSize 9 64) (Some emptyList))))) = Some (Some 7)"
  by code_simp

end
