(* ===== verification/Seq_Core.thy ===== *)
theory Seq_Core
  imports JS_Index
begin

text \<open>
  Iteration in \<open>static/drf-yasg/immutable.js\<close>. Every iterable offers two protocols: \<open>__iterate\<close>
  calls a visitor on each entry until it returns \<open>false\<close> and answers the number of calls, and
  \<open>__iterator\<close> gives an object whose \<open>next\<close> delivers one step at a time. A visitor takes the value,
  the key and a state and answers the new state and whether it returned \<open>false\<close>; an iterator is a
  function on its state, \<open>None\<close> when \<open>next\<close> answers nothing (an exception, or a loop without end). \<open>delivers\<close> and \<open>yields\<close> are the two contracts, against the list of entries.
  This theory holds the contracts and the sources of sequences: arrays, objects, iterables,
  iterators, and the cache of a lazy sequence.
\<close>

named_theorems iter_simps \<open>equations of visits and steps\<close>

type_synonym ('k, 'v, 's) visitor = "'v \<Rightarrow> 'k \<Rightarrow> 's \<Rightarrow> 's \<times> bool"
type_synonym ('k, 'v, 's) iterate = "('k, 'v, 's) visitor \<Rightarrow> bool \<Rightarrow> 's \<Rightarrow> 's \<times> nat"

section \<open>The visiting protocol\<close>

fun visit :: "('k \<times> 'v) list \<Rightarrow> ('k, 'v, 's) visitor \<Rightarrow> 's \<Rightarrow> 's \<times> nat" where
  "visit [] fn s = (s, 0)"
| "visit ((k, v) # es) fn s =
     (case fn v k s of (s', stop) \<Rightarrow>
        if stop then (s', 1) else (case visit es fn s' of (s'', n) \<Rightarrow> (s'', n + 1)))"

definition delivers :: "('k, 'v, 's) iterate \<Rightarrow> bool \<Rightarrow> ('k \<times> 'v) list \<Rightarrow> bool" where
  "delivers it reverse es \<longleftrightarrow> (\<forall>fn s. it fn reverse s = visit es fn s)"

lemma deliversI: "(\<And>fn s. it fn r s = visit es fn s) \<Longrightarrow> delivers it r es"
  by (simp add: delivers_def)

lemma deliversD: "delivers it r es \<Longrightarrow> it fn r s = visit es fn s"
  by (simp add: delivers_def)

lemma visit_cong [fundef_cong]:
  "es = es' \<Longrightarrow> s = s' \<Longrightarrow> (\<And>k v u. (k, v) \<in> set es' \<Longrightarrow> fn v k u = fn' v k u) \<Longrightarrow> visit es fn s = visit es' fn' s'"
proof (induction es' arbitrary: es s s')
  case (Cons e es')
  then show ?case by (cases e) (auto split: prod.splits)
qed simp

text \<open>A visitor that never stops sees every entry.\<close>

lemma visit_never:
  "(\<And>k v u. \<not> snd (fn v k u)) \<Longrightarrow> visit es fn s = (fold (\<lambda>(k, v) u. fst (fn v k u)) es s, length es)"
proof (induction es arbitrary: s)
  case (Cons e es)
  obtain k v where e: "e = (k, v)" by force
  have "\<not> snd (fn v k s)" by (rule Cons.prems)
  then show ?case using Cons by (cases "fn v k s") (simp add: e)
qed simp

definition counted :: "('k, 'v, 's) visitor \<Rightarrow> 'k \<times> 'v \<Rightarrow> 's \<times> nat \<Rightarrow> ('s \<times> nat) \<times> bool" where
  \<comment> \<open>the body of the loops that count their calls\<close>
  "counted fn = (\<lambda>(k, v) (u, n). case fn v k u of (u', stop) \<Rightarrow> ((u', n + 1), stop))"

lemma counted_visit: "fst (run_until (counted fn) es (s, n)) = (fst (visit es fn s), snd (visit es fn s) + n)"
proof (induction es arbitrary: s n)
  case (Cons e es)
  obtain k v where e: "e = (k, v)" by force
  obtain s' stop where f: "fn v k s = (s', stop)" by force
  have g: "counted fn (k, v) (s, n) = ((s', n + 1), stop)" by (simp add: counted_def f)
  show ?case using Cons.IH [of s' "n + 1"] by (cases stop) (simp_all add: g e f split: prod.splits)
qed simp

lemma counted_all: "\<not> snd (run_until (counted fn) es (s, n)) \<Longrightarrow> snd (visit es fn s) = length es"
proof (induction es arbitrary: s n)
  case (Cons e es)
  obtain k v where e: "e = (k, v)" by force
  obtain s' stop where f: "fn v k s = (s', stop)" by force
  have g: "counted fn (k, v) (s, n) = ((s', n + 1), stop)" by (simp add: counted_def f)
  show ?case using Cons.IH [of s' "n + 1"] Cons.prems
    by (cases stop; cases "visit es fn s'") (simp_all add: g e f)
qed simp

section \<open>The stepping protocol\<close>

datatype iter_type = KEYS | VALUES | ENTRIES

datatype ('k, 'v) item = KeyItem 'k | ValueItem 'v | EntryItem 'k 'v

datatype 'x step = Step (step_value: "'x option") (step_done: bool)
  \<comment> \<open>an iterator result; \<open>None\<close> is \<open>undefined\<close>\<close>

fun as_item :: "iter_type \<Rightarrow> 'k \<Rightarrow> 'v \<Rightarrow> ('k, 'v) item" where
  "as_item KEYS k v = KeyItem k"
| "as_item VALUES k v = ValueItem v"
| "as_item ENTRIES k v = EntryItem k v"

definition iteratorValue :: "iter_type \<Rightarrow> 'k \<Rightarrow> 'v \<Rightarrow> ('k, 'v) item step" where
  "iteratorValue type k v = Step (Some (as_item type k v)) False"

definition iteratorReuse :: "iter_type \<Rightarrow> 'k \<Rightarrow> 'v \<Rightarrow> 'x step \<Rightarrow> ('k, 'v) item step" where
  \<comment> \<open>\<open>iteratorValue\<close> with a result object: only its \<open>value\<close> is overwritten\<close>
  "iteratorReuse type k v st = Step (Some (as_item type k v)) (step_done st)"

definition iteratorDone :: "'x step" where
  "iteratorDone = Step None True"

type_synonym ('x, 'st) stepper = "'st \<Rightarrow> ('x step \<times> 'st) option"

coinductive exhausted :: "('x, 'st) stepper \<Rightarrow> 'st \<Rightarrow> bool" for nxt where
  \<comment> \<open>every further call of \<open>next\<close> answers a step with \<open>done\<close>\<close>
  exhausted_step: "nxt st = Some (Step v True, st') \<Longrightarrow> exhausted nxt st' \<Longrightarrow> exhausted nxt st"

inductive_cases exhausted_E: "exhausted nxt st"

fun yields :: "('x, 'st) stepper \<Rightarrow> 'st \<Rightarrow> 'x list \<Rightarrow> bool" where
  "yields nxt st [] \<longleftrightarrow> exhausted nxt st"
| "yields nxt st (x # xs) \<longleftrightarrow> (\<exists>st'. nxt st = Some (Step (Some x) False, st') \<and> yields nxt st' xs)"

lemma yields_at: "nxt st = nxt st' \<Longrightarrow> yields nxt st xs = yields nxt st' xs"
  by (cases xs) (simp_all add: exhausted.simps [of nxt st] exhausted.simps [of nxt st'])

lemma exhaustedI:
  assumes "P st" "\<And>s. P s \<Longrightarrow> \<exists>v s'. nxt s = Some (Step v True, s') \<and> P s'"
  shows "exhausted nxt st"
  using assms(1) by (rule exhausted.coinduct) (use assms(2) in blast)

text \<open>An iterator that transforms the steps of another one in lock-step, done for done.\<close>

lemma yields_map:
  assumes "yields nxt st xs" "R st t"
    and "\<And>s t x s'. R s t \<Longrightarrow> nxt s = Some (Step (Some x) False, s') \<Longrightarrow>
      \<exists>t'. nxt' t = Some (Step (Some (f x)) False, t') \<and> R s' t'"
    and "\<And>s t v s'. R s t \<Longrightarrow> nxt s = Some (Step v True, s') \<Longrightarrow> \<exists>v' t'. nxt' t = Some (Step v' True, t') \<and> R s' t'"
  shows "yields nxt' t (map f xs)"
  using assms(1,2)
proof (induction xs arbitrary: st t)
  case Nil
  have "exhausted nxt' t"
  proof (rule exhaustedI [of "\<lambda>t. \<exists>s. exhausted nxt s \<and> R s t"])
    show "\<exists>s. exhausted nxt s \<and> R s t" using Nil by auto
    fix t assume "\<exists>s. exhausted nxt s \<and> R s t"
    then obtain s where s: "exhausted nxt s" "R s t" by blast
    then obtain v s' where "nxt s = Some (Step v True, s')" "exhausted nxt s'" by (auto elim: exhausted_E)
    then show "\<exists>v t'. nxt' t = Some (Step v True, t') \<and> (\<exists>s. exhausted nxt s \<and> R s t')"
      using assms(4) [OF s(2)] by blast
  qed
  then show ?case by simp
next
  case (Cons x xs)
  then obtain s' where s': "nxt st = Some (Step (Some x) False, s')" "yields nxt s' xs" by auto
  then obtain t' where "nxt' t = Some (Step (Some (f x)) False, t')" "R s' t'" using assms(3) [OF Cons.prems(2)] by blast
  then show ?case using Cons.IH [OF s'(2)] by simp
qed

text \<open>An iterator that counts through a list.\<close>

lemma index_yields:
  assumes "\<And>i. i < length xs \<Longrightarrow> nxt i = Some (Step (Some (xs ! i)) False, i + 1)"
    and "\<And>i. length xs \<le> i \<Longrightarrow> \<exists>v i'. nxt i = Some (Step v True, i') \<and> length xs \<le> i'"
  shows "yields nxt 0 xs"
proof -
  have "yields nxt i (drop i xs)" if "i \<le> length xs" for i
    using that
  proof (induction "length xs - i" arbitrary: i)
    case 0
    have "exhausted nxt i" by (rule exhaustedI [of "\<lambda>i. length xs \<le> i"]) (use 0 assms(2) in auto)
    then show ?case using 0 by simp
  next
    case (Suc n)
    then have lt: "i < length xs" by simp
    show ?case unfolding Cons_nth_drop_Suc [OF lt, symmetric] using assms(1) [OF lt] Suc.hyps(1) [of "Suc i"] Suc.hyps(2) by simp
  qed
  from this [of 0] show ?thesis by simp
qed

definition items :: "iter_type \<Rightarrow> ('k \<times> 'v) list \<Rightarrow> ('k, 'v) item list" where
  "items type es = map (\<lambda>(k, v). as_item type k v) es"

lemma items_simps [simp]: "items type [] = []" "items type ((k, v) # es) = as_item type k v # items type es"
  by (simp_all add: items_def)

section \<open>Arrays\<close>

definition indexed :: "'v list \<Rightarrow> (nat \<times> 'v) list" where
  "indexed xs = zip [0..<length xs] xs"

lemma indexed_Nil [simp]: "indexed [] = []"
  by (simp add: indexed_def)

lemma length_indexed [simp]: "length (indexed xs) = length xs"
  by (simp add: indexed_def)

lemma drop_indexed: "i < length xs \<Longrightarrow> drop i (indexed xs) = (i, xs ! i) # drop (Suc i) (indexed xs)"
  by (simp add: indexed_def Cons_nth_drop_Suc [symmetric])

lemma map_snd_indexed [simp]: "map snd (indexed xs) = xs"
  by (simp add: indexed_def)

lemma nth_directed: "i < length xs \<Longrightarrow> directed r xs ! i = xs ! (if r then length xs - 1 - i else i)"
  by (cases r) (simp_all add: rev_nth)

function array_loop ::
  "(nat, 'v, 's) visitor \<Rightarrow> 'v list \<Rightarrow> bool \<Rightarrow> nat \<Rightarrow> 's \<Rightarrow> 's \<times> nat" where
  \<comment> \<open>the loop of \<open>ArraySeq.__iterate\<close> from \<open>ii\<close> on\<close>
  "array_loop fn array reverse ii s =
     (if ii < length array
      then (case fn (array ! (if reverse then length array - 1 - ii else ii)) ii s of (s', stop) \<Rightarrow>
              if stop then (s', ii + 1) else array_loop fn array reverse (ii + 1) s')
      else (s, ii))"
  by pat_completeness auto
termination by (relation "measure (\<lambda>(fn, array, r, ii, s). length array - ii)") auto

declare array_loop.simps [simp del]

definition ArraySeq_iterate :: "'v list \<Rightarrow> (nat, 'v, 's) iterate" where
  "ArraySeq_iterate array fn reverse s = array_loop fn array reverse 0 s"

definition ArraySeq_next :: "'v list \<Rightarrow> iter_type \<Rightarrow> bool \<Rightarrow> ((nat, 'v) item, nat) stepper" where
  "ArraySeq_next array type reverse ii =
     Some (if ii \<ge> length array then (iteratorDone, ii)
      else (iteratorValue type ii (array ! (if reverse then length array - 1 - ii else ii)), ii + 1))"

definition ArraySeq_has :: "'v list \<Rightarrow> int \<Rightarrow> bool" where
  \<comment> \<open>\<open>IndexedIterable.has\<close> on an iterable of known size\<close>
  "ArraySeq_has array index =
     (let index = (if index < 0 then int (length array) + index else index)
      in 0 \<le> index \<and> index < int (length array))"

definition ArraySeq_get :: "'v list \<Rightarrow> int \<Rightarrow> 'v option \<Rightarrow> 'v option" where
  "ArraySeq_get array index notSet =
     (if ArraySeq_has array index then Some (array ! nat (if index < 0 then int (length array) + index else index)) else notSet)"

lemma array_loop_visit:
  "ii \<le> length array \<Longrightarrow> array_loop fn array r ii s =
     (case visit (drop ii (indexed (directed r array))) fn s of (s', n) \<Rightarrow> (s', n + ii))"
proof (induction fn array r ii s rule: array_loop.induct)
  case (1 fn array r ii s)
  show ?case
  proof (cases "ii < length array")
    case True
    then have d: "drop ii (indexed (directed r array)) =
        (ii, array ! (if r then length array - 1 - ii else ii)) # drop (Suc ii) (indexed (directed r array))"
      using drop_indexed [of ii "directed r array"] by (simp only: length_directed nth_directed)
    show ?thesis unfolding d using True 1
      by (subst array_loop.simps) (auto split: prod.splits)
  next
    case False
    then show ?thesis using 1 by (subst array_loop.simps) simp
  qed
qed

lemma ArraySeq_delivers: "delivers (ArraySeq_iterate array) r (indexed (directed r array))"
  using array_loop_visit [of 0 array] by (intro deliversI) (simp add: ArraySeq_iterate_def)

lemma length_items [simp]: "length (items type es) = length es"
  by (simp add: items_def)

lemma nth_items: "i < length es \<Longrightarrow> items type es ! i = as_item type (fst (es ! i)) (snd (es ! i))"
  by (simp add: items_def case_prod_beta')

lemma ArraySeq_yields: "yields (ArraySeq_next array type r) 0 (items type (indexed (directed r array)))"
  by (rule index_yields)
    (auto simp: ArraySeq_next_def iteratorValue_def iteratorDone_def nth_items indexed_def nth_directed)

section \<open>Objects\<close>

text \<open>A plain object is its own keys, in the order of \<open>Object.keys\<close>, with their values.\<close>

definition ObjectSeq_keys :: "('k \<times> 'v) list \<Rightarrow> 'k list" where
  "ObjectSeq_keys obj = map fst obj"

definition ObjectSeq_has :: "('k \<times> 'v) list \<Rightarrow> 'k \<Rightarrow> bool" where
  "ObjectSeq_has obj key = (map_of obj key \<noteq> None)"

definition ObjectSeq_get :: "('k \<times> 'v) list \<Rightarrow> 'k \<Rightarrow> 'v option \<Rightarrow> 'v option" where
  \<comment> \<open>properties inherited from \<open>Object.prototype\<close>, which a read without a default would find, are
    left out\<close>
  "ObjectSeq_get obj key notSet = (if notSet \<noteq> None \<and> \<not> ObjectSeq_has obj key then notSet else map_of obj key)"

definition ObjectSeq_iterate :: "('k \<times> 'v) list \<Rightarrow> ('k, 'v, 's) iterate" where
  "ObjectSeq_iterate obj fn reverse s = array_loop (\<lambda>e _ s. fn (snd e) (fst e) s) obj reverse 0 s"

definition ObjectSeq_next :: "('k \<times> 'v) list \<Rightarrow> iter_type \<Rightarrow> bool \<Rightarrow> (('k, 'v) item, nat) stepper" where
  "ObjectSeq_next obj type reverse ii =
     Some (if ii \<ge> length obj then (iteratorDone, ii + 1)
      else (let e = obj ! (if reverse then length obj - 1 - ii else ii) in (iteratorValue type (fst e) (snd e), ii + 1)))"

lemma visit_indexed: "visit (zip ks es) (\<lambda>e _ s. fn (snd e) (fst e) s) s = visit (take (length ks) es) fn s"
proof (induction es arbitrary: ks s)
  case (Cons e es)
  then show ?case by (cases ks; cases e) (auto split: prod.splits)
qed simp

lemma ObjectSeq_delivers: "delivers (ObjectSeq_iterate obj) r (directed r obj)"
proof (rule deliversI)
  fix fn s
  show "ObjectSeq_iterate obj fn r s = visit (directed r obj) fn s"
    using array_loop_visit [of 0 obj "\<lambda>e _ s. fn (snd e) (fst e) s" r s]
    by (simp add: ObjectSeq_iterate_def indexed_def visit_indexed)
qed

lemma ObjectSeq_yields: "yields (ObjectSeq_next obj type r) 0 (items type (directed r obj))"
  by (rule index_yields)
    (auto simp: ObjectSeq_next_def iteratorValue_def iteratorDone_def nth_items nth_directed Let_def)

end
