(* ===== verification/Seq_Sources.thy ===== *)
theory Seq_Sources
  imports Seq_Core
begin

text \<open>
  Sequences over foreign iterables and iterators, and the cache of a lazy sequence. \<open>IteratorSeq\<close>
  wraps a one-shot iterator: it remembers what it has pulled, so that every pass over the sequence
  sees the same values. A foreign iterator is a stepper, a parameter here; its values are options,
  \<open>None\<close> being \<open>undefined\<close>.
\<close>

section \<open>The cache of a lazy sequence\<close>

definition cached_iterate :: "(nat \<Rightarrow> 'k) option \<Rightarrow> ('k \<times> 'v) list \<Rightarrow> ('k, 'v, 's) iterate" where
  \<comment> \<open>the loop of \<open>seqIterate\<close>; the first argument is \<open>None\<close> when the cached keys are used\<close>
  "cached_iterate indexKey cache fn reverse s =
     array_loop (\<lambda>entry ii s. fn (snd entry) (case indexKey of None \<Rightarrow> fst entry | Some f \<Rightarrow> f ii) s) cache reverse 0 s"

definition seqIterate :: "(nat \<Rightarrow> 'k) option \<Rightarrow> ('k \<times> 'v) list option \<Rightarrow> ('k, 'v, 's) iterate \<Rightarrow> ('k, 'v, 's) iterate" where
  "seqIterate indexKey cache uncached fn reverse s =
     (case cache of Some c \<Rightarrow> cached_iterate indexKey c fn reverse s | None \<Rightarrow> uncached fn reverse s)"

definition cached_next ::
  "(nat \<Rightarrow> 'k) option \<Rightarrow> ('k \<times> 'v) list \<Rightarrow> iter_type \<Rightarrow> bool \<Rightarrow> (('k, 'v) item, nat) stepper" where
  \<comment> \<open>the closure of \<open>seqIterator\<close>\<close>
  "cached_next indexKey cache type reverse ii =
     Some (if ii \<ge> length cache then (iteratorDone, ii + 1)
           else (let entry = cache ! (if reverse then length cache - 1 - ii else ii)
                 in (iteratorValue type (case indexKey of None \<Rightarrow> fst entry | Some f \<Rightarrow> f ii) (snd entry), ii + 1)))"

definition rekeyed :: "(nat \<Rightarrow> 'k) option \<Rightarrow> ('k \<times> 'v) list \<Rightarrow> ('k \<times> 'v) list" where
  \<comment> \<open>with the keys of the list, or numbered from 0\<close>
  "rekeyed indexKey es = (case indexKey of None \<Rightarrow> es | Some f \<Rightarrow> map (\<lambda>(i, e). (f i, snd e)) (indexed es))"

lemma visit_zip:
  "length ks = length es \<Longrightarrow> visit (zip ks es) (\<lambda>e i s. fn (snd e) (g i e) s) s = visit (map (\<lambda>(i, e). (g i e, snd e)) (zip ks es)) fn s"
  by (induction ks es arbitrary: s rule: list_induct2) (auto split: prod.splits)

lemma cached_delivers: "delivers (cached_iterate indexKey cache) r (rekeyed indexKey (directed r cache))"
proof (rule deliversI)
  fix fn s
  let ?g = "\<lambda>ii entry. case indexKey of None \<Rightarrow> fst entry | Some f \<Rightarrow> f ii"
  have "map (\<lambda>(i, e). (?g i e, snd e)) (indexed (directed r cache)) = rekeyed indexKey (directed r cache)"
    by (cases indexKey) (auto simp: rekeyed_def indexed_def map_snd_zip intro!: nth_equalityI)
  then show "cached_iterate indexKey cache fn r s = visit (rekeyed indexKey (directed r cache)) fn s"
    using array_loop_visit [of 0 cache "\<lambda>e ii s. fn (snd e) (?g ii e) s" r s]
      visit_zip [of "[0..<length (directed r cache)]" "directed r cache" fn ?g s]
    by (simp add: cached_iterate_def indexed_def split: prod.splits)
qed

lemma cached_yields: "yields (cached_next indexKey cache type r) 0 (items type (rekeyed indexKey (directed r cache)))"
  by (rule index_yields; cases indexKey)
    (auto simp: cached_next_def rekeyed_def indexed_def iteratorValue_def iteratorDone_def nth_items nth_directed Let_def)

definition cacheResult ::
  "('k, 'v, ('k \<times> 'v) list) iterate \<Rightarrow> ('k \<times> 'v) list option \<Rightarrow> ('k \<times> 'v) list" where
  \<comment> \<open>\<open>cacheResult\<close>: the entries, collected by an iteration, unless they are cached already\<close>
  "cacheResult uncached cache =
     (case cache of Some c \<Rightarrow> c | None \<Rightarrow> rev (fst (uncached (\<lambda>v k acc. ((k, v) # acc, False)) False [])))"

lemma cacheResult_entries: "delivers uncached False es \<Longrightarrow> cacheResult uncached None = es"
  by (simp add: cacheResult_def delivers_def visit_never case_prod_beta' fold_Cons_rev)

section \<open>Sequences over an iterable\<close>

partial_function (option) iterator_loop ::
  "('v, 'st) stepper \<Rightarrow> (nat, 'v option, 's) visitor \<Rightarrow> 'st \<Rightarrow> nat \<Rightarrow> 's \<Rightarrow> ('s \<times> nat) option" where
  "iterator_loop nxt fn st iterations s =
     Option.bind (nxt st) (\<lambda>(step, st').
       if step_done step then Some (s, iterations)
       else (let (s', stop) = fn (step_value step) iterations s
             in if stop then Some (s', iterations + 1) else iterator_loop nxt fn st' (iterations + 1) s'))"

declare iterator_loop.simps [code]

definition IterableSeq_iterateUncached ::
  "('v, 'st) stepper \<Rightarrow> 'st \<Rightarrow> (nat, 'v option, 's) visitor \<Rightarrow> 's \<Rightarrow> ('s \<times> nat) option" where
  \<comment> \<open>forwards; the iterator is a fresh one of the iterable\<close>
  "IterableSeq_iterateUncached nxt st fn s = iterator_loop nxt fn st 0 s"

definition IterableSeq_iterate ::
  "('v, 'st) stepper \<Rightarrow> 'st \<Rightarrow> (nat, 'v option, 's) visitor \<Rightarrow> bool \<Rightarrow> 's \<Rightarrow> ('s \<times> nat) option" where
  \<comment> \<open>backwards the entries are cached first\<close>
  "IterableSeq_iterate nxt st fn reverse s =
     (if reverse
      then map_option (\<lambda>(acc, _). cached_iterate (Some id) (rev acc) fn reverse s)
             (IterableSeq_iterateUncached nxt st (\<lambda>v k acc. ((k, v) # acc, False)) [])
      else IterableSeq_iterateUncached nxt st fn s)"

definition IterableSeq_next ::
  "('v, 'st) stepper \<Rightarrow> iter_type \<Rightarrow> ((nat, 'v option) item, 'st \<times> nat) stepper" where
  "IterableSeq_next nxt type = (\<lambda>(st, iterations).
     Option.bind (nxt st) (\<lambda>(step, st').
       if step_done step then Some (Step None True, (st', iterations))
       else Some (iteratorValue type iterations (step_value step), (st', iterations + 1))))"

lemma iterator_loop_visit:
  "yields nxt st xs \<Longrightarrow> iterator_loop nxt fn st i s =
     (case visit (map (\<lambda>(j, v). (i + j, Some v)) (indexed xs)) fn s of (s', n) \<Rightarrow> Some (s', n + i))"
proof (induction xs arbitrary: st i s)
  case Nil
  then obtain v st' where "nxt st = Some (Step v True, st')" by (auto elim: exhausted_E)
  then show ?case by (subst iterator_loop.simps) simp
next
  case (Cons x xs)
  then obtain st' where st': "nxt st = Some (Step (Some x) False, st')" "yields nxt st' xs" by auto
  have e: "map (\<lambda>(j, v). (i + j, Some v)) (indexed (x # xs)) = (i, Some x) # map (\<lambda>(j, v). (Suc i + j, Some v)) (indexed xs)"
    by (simp add: indexed_def upt_conv_Cons zip_map1 map_Suc_upt [symmetric] o_def case_prod_beta' del: upt_Suc)
  show ?case unfolding e using Cons.IH [OF st'(2), of "Suc i"] st'(1)
    by (subst iterator_loop.simps) (auto split: prod.splits)
qed

section \<open>Sequences over an iterator\<close>

type_synonym ('v, 'st) iterseq = "'st \<times> 'v option list"
  \<comment> \<open>the state of the iterator and \<open>_iteratorCache\<close>\<close>

definition IteratorSeq_next ::
  "('v, 'st) stepper \<Rightarrow> iter_type \<Rightarrow> ((nat, 'v option) item, nat \<times> ('v, 'st) iterseq) stepper" where
  "IteratorSeq_next nxt type = (\<lambda>(iterations, (st, cache)).
     if iterations \<ge> length cache
     then Option.bind (nxt st) (\<lambda>(step, st').
            if step_done step then Some (Step None True, (iterations, (st', cache)))
            else (let cache' = cache @ [step_value step]
                  in Some (iteratorValue type iterations (cache' ! iterations), (iterations + 1, (st', cache')))))
     else Some (iteratorValue type iterations (cache ! iterations), (iterations + 1, (st, cache))))"

partial_function (option) pull_loop ::
  "('v, 'st) stepper \<Rightarrow> (nat, 'v option, 's) visitor \<Rightarrow> 'st \<Rightarrow> 'v option list \<Rightarrow> nat \<Rightarrow> 's \<Rightarrow> (('s \<times> nat) \<times> ('v, 'st) iterseq) option" where
  \<comment> \<open>the second loop of \<open>IteratorSeq.__iterateUncached\<close>\<close>
  "pull_loop nxt fn st cache iterations s =
     Option.bind (nxt st) (\<lambda>(step, st').
       if step_done step then Some ((s, iterations), (st', cache))
       else (let v = step_value step;
                 (s', stop) = fn v iterations s
             in if stop then Some ((s', iterations + 1), (st', cache @ [v]))
                else pull_loop nxt fn st' (cache @ [v]) (iterations + 1) s'))"

declare pull_loop.simps [code]

definition IteratorSeq_iterateUncached ::
  "('v, 'st) stepper \<Rightarrow> (nat, 'v option, 's) visitor \<Rightarrow> ('v, 'st) iterseq \<Rightarrow> 's \<Rightarrow> (('s \<times> nat) \<times> ('v, 'st) iterseq) option" where
  \<comment> \<open>forwards: replay the cache, then pull\<close>
  "IteratorSeq_iterateUncached nxt fn = (\<lambda>(st, cache) s.
     case run_until (counted fn) (indexed cache) (s, 0) of
       ((s', iterations), stop) \<Rightarrow>
         if stop then Some ((s', iterations), (st, cache)) else pull_loop nxt fn st cache iterations s')"

definition iterseq_holds :: "('v, 'st) stepper \<Rightarrow> ('v, 'st) iterseq \<Rightarrow> 'v option list \<Rightarrow> bool" where
  \<comment> \<open>the cache and what the iterator has still to give make up the sequence\<close>
  "iterseq_holds nxt q xs \<longleftrightarrow> (\<exists>rest. yields nxt (fst q) rest \<and> xs = snd q @ map Some rest)"

lemma IteratorSeq_next_spec:
  assumes "iterseq_holds nxt q xs" "i \<le> length (snd q)"
  obtains step q' where "iterseq_holds nxt q' xs" "length (snd q) \<le> length (snd q')"
    "IteratorSeq_next nxt type (i, q) =
       Some (step, (if i < length xs then i + 1 else i, q'))"
    "step = (if i < length xs then iteratorValue type i (xs ! i) else Step None True)"
    "i < length xs \<Longrightarrow> i + 1 \<le> length (snd q')"
proof -
  obtain st cache where q: "q = (st, cache)" by force
  obtain rest where rest: "yields nxt st rest" "xs = cache @ map Some rest" using assms(1) by (auto simp: iterseq_holds_def q)
  show ?thesis
  proof (cases "i < length cache")
    case True
    then show ?thesis using rest assms
      by (intro that [of q]) (auto simp: IteratorSeq_next_def q nth_append)
  next
    case False
    then have i: "i = length cache" using assms(2) q by simp
    show ?thesis
    proof (cases rest)
      case Nil
      then obtain v st' where st': "nxt st = Some (Step v True, st')" "exhausted nxt st'" using rest by (auto elim: exhausted_E)
      then show ?thesis using rest Nil i
        by (intro that [of "(st', cache)"]) (auto simp: IteratorSeq_next_def q iterseq_holds_def intro!: exI [of _ "[]"])
    next
      case (Cons x rest')
      then obtain st' where st': "nxt st = Some (Step (Some x) False, st')" "yields nxt st' rest'" using rest by auto
      have "iterseq_holds nxt (st', cache @ [Some x]) xs"
        using st' rest Cons by (auto simp: iterseq_holds_def intro!: exI [of _ rest'])
      then show ?thesis using st' rest Cons i
        by (intro that [of "(st', cache @ [Some x])"]) (auto simp: IteratorSeq_next_def q nth_append)
    qed
  qed
qed

lemma pull_loop_spec:
  assumes "yields nxt st rest"
  shows "\<exists>q'. pull_loop nxt fn st cache i s =
      Some (case visit (map (\<lambda>(j, v). (i + j, Some v)) (indexed rest)) fn s of (s', n) \<Rightarrow> (s', n + i), q') \<and>
    iterseq_holds nxt q' (cache @ map Some rest)"
  using assms
proof (induction rest arbitrary: st cache i s)
  case Nil
  then obtain v st' where "nxt st = Some (Step v True, st')" "exhausted nxt st'" by (auto elim: exhausted_E)
  then show ?case by (subst pull_loop.simps) (auto simp: iterseq_holds_def intro!: exI [of _ "[]"])
next
  case (Cons x xs)
  then obtain st' where st': "nxt st = Some (Step (Some x) False, st')" "yields nxt st' xs" by auto
  have e: "map (\<lambda>(j, v). (i + j, Some v)) (indexed (x # xs)) = (i, Some x) # map (\<lambda>(j, v). (Suc i + j, Some v)) (indexed xs)"
    by (simp add: indexed_def upt_conv_Cons zip_map1 map_Suc_upt [symmetric] o_def case_prod_beta' del: upt_Suc)
  obtain s1 stop where f: "fn (Some x) i s = (s1, stop)" by force
  show ?case
  proof (cases stop)
    case True
    then show ?thesis unfolding e using st' f
      by (subst pull_loop.simps) (auto simp: iterseq_holds_def intro!: exI [of _ xs])
  next
    case False
    obtain q' where "pull_loop nxt fn st' (cache @ [Some x]) (Suc i) s1 =
        Some (case visit (map (\<lambda>(j, v). (Suc i + j, Some v)) (indexed xs)) fn s1 of (s', n) \<Rightarrow> (s', n + Suc i), q')"
        "iterseq_holds nxt q' ((cache @ [Some x]) @ map Some xs)"
      using Cons.IH [OF st'(2), of "cache @ [Some x]" "Suc i" s1] by blast
    then show ?thesis unfolding e using st' f False
      by (subst pull_loop.simps) (auto split: prod.splits)
  qed
qed

lemma IteratorSeq_iterate_spec:
  assumes "iterseq_holds nxt q xs"
  obtains q' where "IteratorSeq_iterateUncached nxt fn q s = Some (visit (indexed xs) fn s, q')" "iterseq_holds nxt q' xs"
proof -
  obtain st cache where q: "q = (st, cache)" by force
  obtain rest where rest: "yields nxt st rest" "xs = cache @ map Some rest" using assms by (auto simp: iterseq_holds_def q)
  have ix: "indexed xs = indexed cache @ map (\<lambda>(j, v). (length cache + j, Some v)) (indexed rest)"
    unfolding rest(2) by (rule nth_equalityI) (auto simp: indexed_def nth_append)
  obtain s1 n1 stop where r: "run_until (counted fn) (indexed cache) (s, 0) = ((s1, n1), stop)" by (metis prod.collapse)
  have n1: "\<not> stop \<Longrightarrow> n1 = length cache"
    using counted_visit [of fn "indexed cache" s 0] counted_all [of fn "indexed cache" s 0] r by simp
  obtain q' where p: "pull_loop nxt fn st cache (length cache) s1 =
      Some (case visit (map (\<lambda>(j, v). (length cache + j, Some v)) (indexed rest)) fn s1 of (s', n) \<Rightarrow> (s', n + length cache), q')"
      "iterseq_holds nxt q' xs"
    using pull_loop_spec [OF rest(1), of fn cache "length cache" s1] rest(2) by blast
  have v: "visit (indexed xs) fn s = fst (run_until (counted fn) (indexed xs) (s, 0))"
    by (simp add: counted_visit)
  show ?thesis
  proof (cases stop)
    case True
    then have "visit (indexed xs) fn s = (s1, n1)" unfolding v using r by (simp add: ix run_until_append)
    then show ?thesis using that [of q] r True assms by (simp add: IteratorSeq_iterateUncached_def q)
  next
    case False
    then have "visit (indexed xs) fn s =
        (case visit (map (\<lambda>(j, v). (length cache + j, Some v)) (indexed rest)) fn s1 of (s', n) \<Rightarrow> (s', n + length cache))"
      unfolding v using r False n1 by (simp add: ix run_until_append counted_visit case_prod_beta')
    then show ?thesis using that [of q'] p r False n1 by (simp add: IteratorSeq_iterateUncached_def q)
  qed
qed

end
