(* ===== verification/Seq_Views.thy ===== *)
theory Seq_Views
  imports Seq_Sources
begin

text \<open>
  The sequences of \<open>static/drf-yasg/immutable.js\<close> that show another iterable under other keys:
  \<open>ToKeyedSequence\<close>, \<open>ToIndexedSequence\<close>, \<open>ToSetSequence\<close>, \<open>FromEntriesSequence\<close>, \<open>flip\<close>, \<open>map\<close>
  and \<open>reverse\<close>, in both protocols. An operation takes the \<open>__iterate\<close> of the source at the state it
  needs, or the stepper of the iterator it asks the source for: one of entries \<open>(key, value)\<close>, or
  one of values.
\<close>

section \<open>Walking a list with a counter\<close>

fun scan_map :: "('c \<Rightarrow> 'a \<Rightarrow> 'b) \<Rightarrow> ('c \<Rightarrow> 'c) \<Rightarrow> 'c \<Rightarrow> 'a list \<Rightarrow> 'b list" where
  "scan_map f g c [] = []"
| "scan_map f g c (x # xs) = f c x # scan_map f g (g c) xs"

lemma length_scan_map [simp]: "length (scan_map f g c xs) = length xs"
  by (induction xs arbitrary: c) auto

lemma scan_map_const: "(\<And>c x. f c x = h x) \<Longrightarrow> scan_map f g c xs = map h xs"
  by (induction xs arbitrary: c) auto

lemma scan_map_up: "scan_map f Suc i xs = map (\<lambda>(j, x). f (i + j) x) (indexed xs)"
proof (induction xs arbitrary: i)
  case (Cons x xs)
  have "indexed (x # xs) = (0, x) # map (\<lambda>(j, y). (Suc j, y)) (indexed xs)"
    by (simp add: indexed_def upt_conv_Cons zip_map1 map_Suc_upt [symmetric] del: upt_Suc)
  then show ?case using Cons by (simp add: o_def case_prod_beta')
qed simp

lemma visit_scan:
  "visit es (\<lambda>v k (s, c). case fn (val c k v) (key c k v) s of (s', stop) \<Rightarrow> ((s', g c), stop)) (s, c) =
     (case visit (scan_map (\<lambda>c (k, v). (key c k v, val c k v)) g c es) fn s of (s', n) \<Rightarrow> ((s', (g ^^ n) c), n))"
proof (induction es arbitrary: s c)
  case (Cons e es)
  obtain k v where e: "e = (k, v)" by force
  obtain s1 stop where f: "fn (val c k v) (key c k v) s = (s1, stop)" by force
  show ?case using Cons.IH [of s1 "g c"]
    by (cases stop) (auto simp: e f funpow_swap1 split: prod.splits)
qed simp

lemma exhausted_state:
  fixes nxt :: "('a, 'st) stepper" and nxt' :: "('b, 'st \<times> 'c) stepper"
  assumes "exhausted nxt st"
    and "\<And>st c v st'. nxt st = Some (Step v True, st') \<Longrightarrow> \<exists>v' c'. nxt' (st, c) = Some (Step v' True, (st', c'))"
  shows "exhausted nxt' (st, c)"
proof (rule exhaustedI [of "\<lambda>p. exhausted nxt (fst p)"])
  show "exhausted nxt (fst (st, c))" using assms(1) by simp
  fix p :: "'st \<times> 'c" assume "exhausted nxt (fst p)"
  then obtain s c v s' where "p = (s, c)" "nxt s = Some (Step v True, s')" "exhausted nxt s'"
    by (cases p) (auto elim: exhausted_E)
  then show "\<exists>v p'. nxt' p = Some (Step v True, p') \<and> exhausted nxt (fst p')"
    using assms(2) by fastforce
qed

lemma yields_scan:
  fixes nxt :: "('a, 'st) stepper" and nxt' :: "('b, 'st \<times> 'c) stepper"
  assumes "yields nxt st xs"
    and step: "\<And>st c x st'. nxt st = Some (Step (Some x) False, st') \<Longrightarrow> nxt' (st, c) = Some (Step (Some (f c x)) False, (st', g c))"
    and stop: "\<And>st c v st'. nxt st = Some (Step v True, st') \<Longrightarrow> \<exists>v' c'. nxt' (st, c) = Some (Step v' True, (st', c'))"
  shows "yields nxt' (st, c) (scan_map f g c xs)"
  using assms(1)
proof (induction xs arbitrary: st c)
  case Nil
  then have "exhausted nxt' (st, c)" by (intro exhausted_state [of nxt st nxt' c]) (simp, erule stop)
  then show ?case by simp
next
  case (Cons x xs)
  then obtain st' where "nxt st = Some (Step (Some x) False, st')" "yields nxt st' xs" by auto
  then show ?case using step [of st x st' c] Cons.IH [of st' "g c"] by simp
qed

section \<open>Views with other keys\<close>

definition pass_done :: "'x step \<Rightarrow> 'y step" where
  \<comment> \<open>\<open>step.done ? step\<close>: the value of a last step is not read\<close>
  "pass_done step = Step None True"

definition ToKeyed_iterate_keys :: "('k, 'v, 's) iterate \<Rightarrow> ('k, 'v, 's) iterate" where
  \<comment> \<open>\<open>ToKeyedSequence\<close> with \<open>useKeys\<close>\<close>
  "ToKeyed_iterate_keys it fn reverse s = it fn reverse s"

definition ToKeyed_iterate_indices :: "int \<Rightarrow> ('k, 'v, 's \<times> int) iterate \<Rightarrow> (int, 'v, 's) iterate" where
  \<comment> \<open>without \<open>useKeys\<close>, on a source of the given (resolved) size\<close>
  "ToKeyed_iterate_indices size' it fn reverse s =
     (case it (\<lambda>v k (s, ii). if reverse then (case fn v (ii - 1) s of (s', stop) \<Rightarrow> ((s', ii - 1), stop))
                             else (case fn v ii s of (s', stop) \<Rightarrow> ((s', ii + 1), stop)))
             reverse (s, if reverse then size' else 0) of
        ((s', ii), n) \<Rightarrow> (s', n))"

definition ToKeyed_next :: "('v, 'st) stepper \<Rightarrow> iter_type \<Rightarrow> bool \<Rightarrow> ((int, 'v) item, 'st \<times> int) stepper" where
  \<comment> \<open>starts with \<open>ii = reverse ? size : 0\<close>\<close>
  "ToKeyed_next nxt type reverse = (\<lambda>(st, ii).
     Option.bind (nxt st) (\<lambda>(step, st').
       case step of
         Step (Some v) False \<Rightarrow>
           Some (iteratorReuse type (if reverse then ii - 1 else ii) v step, (st', if reverse then ii - 1 else ii + 1))
       | _ \<Rightarrow> Some (pass_done step, (st', ii))))"

definition ToIndexed_iterate :: "('k, 'v, 's \<times> nat) iterate \<Rightarrow> (nat, 'v, 's) iterate" where
  "ToIndexed_iterate it fn reverse s =
     (case it (\<lambda>v k (s, iterations). case fn v iterations s of (s', stop) \<Rightarrow> ((s', iterations + 1), stop)) reverse (s, 0) of
        ((s', iterations), n) \<Rightarrow> (s', n))"

definition ToIndexed_next :: "('v, 'st) stepper \<Rightarrow> iter_type \<Rightarrow> ((nat, 'v) item, 'st \<times> nat) stepper" where
  "ToIndexed_next nxt type = (\<lambda>(st, iterations).
     Option.bind (nxt st) (\<lambda>(step, st').
       case step of
         Step (Some v) False \<Rightarrow> Some (iteratorReuse type iterations v step, (st', iterations + 1))
       | _ \<Rightarrow> Some (pass_done step, (st', iterations))))"

definition ToSet_iterate :: "('k, 'v, 's) iterate \<Rightarrow> ('v, 'v, 's) iterate" where
  "ToSet_iterate it fn reverse s = it (\<lambda>v k s. fn v v s) reverse s"

definition ToSet_next :: "('v, 'st) stepper \<Rightarrow> iter_type \<Rightarrow> (('v, 'v) item, 'st) stepper" where
  "ToSet_next nxt type st =
     Option.bind (nxt st) (\<lambda>(step, st').
       case step of Step (Some v) False \<Rightarrow> Some (iteratorReuse type v v step, st') | _ \<Rightarrow> Some (pass_done step, st'))"

definition flip_iterate :: "('k, 'v, 's) iterate \<Rightarrow> ('v, 'k, 's) iterate" where
  "flip_iterate it fn reverse s = it (\<lambda>v k s. fn k v s) reverse s"

definition flip_next :: "('k \<times> 'v, 'st) stepper \<Rightarrow> ('v \<times> 'k, 'st) stepper" where
  \<comment> \<open>for \<open>ITERATE_ENTRIES\<close>: the two slots of the entry are swapped\<close>
  "flip_next nxt st =
     Option.bind (nxt st) (\<lambda>(step, st').
       case step of Step (Some (k, v)) False \<Rightarrow> Some (Step (Some (v, k)) False, st') | _ \<Rightarrow> Some (pass_done step, st'))"

definition map_seq_iterate :: "('v \<Rightarrow> 'k \<Rightarrow> 'w) \<Rightarrow> ('k, 'v, 's) iterate \<Rightarrow> ('k, 'w, 's) iterate" where
  "map_seq_iterate mapper it fn reverse s = it (\<lambda>v k s. fn (mapper v k) k s) reverse s"

definition map_seq_next :: "('v \<Rightarrow> 'k \<Rightarrow> 'w) \<Rightarrow> ('k \<times> 'v, 'st) stepper \<Rightarrow> iter_type \<Rightarrow> (('k, 'w) item, 'st) stepper" where
  "map_seq_next mapper nxt type st =
     Option.bind (nxt st) (\<lambda>(step, st').
       case step of
         Step (Some (k, v)) False \<Rightarrow> Some (iteratorReuse type k (mapper v k) step, st')
       | _ \<Rightarrow> Some (pass_done step, st'))"

definition map_seq_get :: "('v \<Rightarrow> 'k \<Rightarrow> 'w) \<Rightarrow> ('k \<Rightarrow> 'v option) \<Rightarrow> 'k \<Rightarrow> 'w option \<Rightarrow> 'w option" where
  \<comment> \<open>the source's \<open>get(key, NOT_SET)\<close> is an option here\<close>
  "map_seq_get mapper get key notSet = (case get key of None \<Rightarrow> notSet | Some v \<Rightarrow> Some (mapper v key))"

definition reverse_iterate :: "('k, 'v, 's) iterate \<Rightarrow> ('k, 'v, 's) iterate" where
  "reverse_iterate it fn reverse s = it fn (\<not> reverse) s"

definition reverse_get :: "bool \<Rightarrow> (int \<Rightarrow> 'v option) \<Rightarrow> int \<Rightarrow> 'v option" where
  "reverse_get useKeys get key = get (if useKeys then key else - 1 - key)"

text \<open>
  \<open>FromEntriesSequence\<close> reads pairs out of the values: a value is a pair, something falsy (a hole,
  which is skipped), or another value, on which \<open>validateEntry\<close> throws. After an error the visitor is
  not called again; the result is then \<open>Inr\<close>.
\<close>

datatype ('k, 'v) entry_value = EntryPair 'k 'v | Hole | NotEntry

definition FromEntries_iterate ::
  "('i, ('k, 'v) entry_value, 's \<times> bool) iterate \<Rightarrow> ('k, 'v, 's) visitor \<Rightarrow> bool \<Rightarrow> 's \<Rightarrow> 's \<times> nat + unit" where
  \<comment> \<open>the count is that of the source, holes included\<close>
  "FromEntries_iterate it fn reverse s =
     (case it (\<lambda>entry i (s, thrown).
                 case entry of
                   EntryPair k v \<Rightarrow> (case fn v k s of (s', stop) \<Rightarrow> ((s', thrown), stop))
                 | Hole \<Rightarrow> ((s, thrown), False)
                 | NotEntry \<Rightarrow> ((s, True), True))
             reverse (s, False) of
        ((s', thrown), n) \<Rightarrow> if thrown then Inr () else Inl (s', n))"

partial_function (option) FromEntries_next ::
  "(('k, 'v) entry_value, 'st) stepper \<Rightarrow> iter_type \<Rightarrow> 'st \<Rightarrow> (('k, 'v) item step \<times> 'st) option" where
  "FromEntries_next nxt type st =
     Option.bind (nxt st) (\<lambda>(step, st').
       if step_done step then Some (pass_done step, st')
       else (case step_value step of
               Some (EntryPair k v) \<Rightarrow> Some (iteratorReuse type k v step, st')
             | Some NotEntry \<Rightarrow> None
             | _ \<Rightarrow> FromEntries_next nxt type st'))"

declare FromEntries_next.simps [code]

section \<open>What the views deliver\<close>

lemma iteratorReuse_step [simp]: "iteratorReuse type k v (Step x False) = Step (Some (as_item type k v)) False"
  by (simp add: iteratorReuse_def)

definition down_keys :: "int \<Rightarrow> 'v list \<Rightarrow> (int \<times> 'v) list" where
  "down_keys n xs = map (\<lambda>(j, v). (n - 1 - int j, v)) (indexed xs)"

lemma funpow_pred: "((\<lambda>i. i - 1) ^^ n) (c::int) = c - int n"
  by (induction n) auto

lemma scan_down: "scan_map (\<lambda>ii x. f (ii - 1) x) (\<lambda>ii. ii - 1) n xs = map (\<lambda>(j, x). f (n - 1 - int j) x) (indexed xs)"
proof (induction xs arbitrary: n)
  case (Cons x xs)
  have "indexed (x # xs) = (0, x) # map (\<lambda>(j, y). (Suc j, y)) (indexed xs)"
    by (simp add: indexed_def upt_conv_Cons zip_map1 map_Suc_upt [symmetric] del: upt_Suc)
  then show ?case using Cons by (simp add: o_def case_prod_beta' algebra_simps)
qed simp

lemma scan_up_int: "scan_map (\<lambda>ii x. f ii x) (\<lambda>ii. ii + 1) n xs = map (\<lambda>(j, x). f (n + int j) x) (indexed xs)"
proof (induction xs arbitrary: n)
  case (Cons x xs)
  have "indexed (x # xs) = (0, x) # map (\<lambda>(j, y). (Suc j, y)) (indexed xs)"
    by (simp add: indexed_def upt_conv_Cons zip_map1 map_Suc_upt [symmetric] del: upt_Suc)
  then show ?case using Cons by (simp add: o_def case_prod_beta' algebra_simps)
qed simp

lemma map_indexed_map: "map (\<lambda>(j, x). h j (g x)) (indexed xs) = map (\<lambda>(j, y). h j y) (indexed (map g xs))"
  by (simp add: indexed_def zip_map2 o_def case_prod_beta')

lemma ToKeyed_indices_delivers:
  assumes "delivers it r es"
  shows "delivers (ToKeyed_iterate_indices n it) r
    (if r then down_keys n (map snd es) else map (\<lambda>(j, v). (int j, v)) (indexed (map snd es)))"
proof (rule deliversI)
  fix fn s
  show "ToKeyed_iterate_indices n it fn r s =
      visit (if r then down_keys n (map snd es) else map (\<lambda>(j, v). (int j, v)) (indexed (map snd es))) fn s"
  proof (cases r)
    case True
    have "scan_map (\<lambda>c (k, v). (c - 1, v)) (\<lambda>ii. ii - 1) n es = down_keys n (map snd es)"
      using scan_down [of "\<lambda>i x. (i, snd x)" n es] map_indexed_map [of "\<lambda>j v. (n - 1 - int j, v)" snd es]
      by (simp add: down_keys_def case_prod_beta')
    then show ?thesis using True deliversD [OF assms, of "\<lambda>v k (s, ii). case fn v (ii - 1) s of (s', stop) \<Rightarrow> ((s', ii - 1), stop)" "(s, n)"]
        visit_scan [where es = es and fn = fn and val = "\<lambda>c k v. v" and key = "\<lambda>c k v. c - 1" and g = "\<lambda>ii. ii - 1" and s = s and c = n]
      by (simp add: ToKeyed_iterate_indices_def case_prod_beta')
  next
    case False
    have "scan_map (\<lambda>c (k, v). (c, v)) (\<lambda>ii. ii + 1) 0 es = map (\<lambda>(j, v). (int j, v)) (indexed (map snd es))"
      using scan_up_int [of "\<lambda>i x. (i, snd x)" 0 es] map_indexed_map [of "\<lambda>j v. (int j, v)" snd es]
      by (simp add: case_prod_beta')
    then show ?thesis using False deliversD [OF assms, of "\<lambda>v k (s, ii). case fn v ii s of (s', stop) \<Rightarrow> ((s', ii + 1), stop)" "(s, 0)"]
        visit_scan [where es = es and fn = fn and val = "\<lambda>c k v. v" and key = "\<lambda>c k v. c" and g = "\<lambda>ii. ii + 1" and s = s and c = 0]
      by (simp add: ToKeyed_iterate_indices_def case_prod_beta')
  qed
qed

lemma ToKeyed_yields:
  assumes "yields nxt st xs"
  shows "yields (ToKeyed_next nxt type r) (st, if r then int (length xs) else 0)
    (items type (if r then down_keys (int (length xs)) xs else map (\<lambda>(j, v). (int j, v)) (indexed xs)))"
proof (cases r)
  case True
  have "yields (ToKeyed_next nxt type r) (st, int (length xs)) (scan_map (\<lambda>c v. as_item type (c - 1) v) (\<lambda>ii. ii - 1) (int (length xs)) xs)"
    by (rule yields_scan [OF assms]) (auto simp: ToKeyed_next_def True pass_done_def split: option.splits)
  then show ?thesis using True scan_down [of "\<lambda>i x. as_item type i x" "int (length xs)" xs]
    by (simp add: items_def down_keys_def o_def case_prod_beta')
next
  case False
  have "yields (ToKeyed_next nxt type r) (st, 0) (scan_map (\<lambda>c v. as_item type c v) (\<lambda>ii. ii + 1) 0 xs)"
    by (rule yields_scan [OF assms]) (auto simp: ToKeyed_next_def False pass_done_def split: option.splits)
  then show ?thesis using False scan_up_int [of "\<lambda>i x. as_item type i x" 0 xs]
    by (simp add: items_def o_def case_prod_beta')
qed

lemma ToIndexed_delivers:
  assumes "delivers it r es"
  shows "delivers (ToIndexed_iterate it) r (indexed (map snd es))"
proof (rule deliversI)
  fix fn s
  have "scan_map (\<lambda>c (k, v). (c, v)) Suc 0 es = indexed (map snd es)"
    using scan_map_up [of "\<lambda>i x. (i, snd x)" 0 es] map_indexed_map [of "\<lambda>j v. (j, v)" snd es]
    by (simp add: case_prod_beta')
  then show "ToIndexed_iterate it fn r s = visit (indexed (map snd es)) fn s"
    using deliversD [OF assms, of "\<lambda>v k (s, i). case fn v i s of (s', stop) \<Rightarrow> ((s', i + 1), stop)" "(s, 0)"]
      visit_scan [where es = es and fn = fn and val = "\<lambda>c k v. v" and key = "\<lambda>c k v. c" and g = Suc and s = s and c = 0]
    by (simp add: ToIndexed_iterate_def case_prod_beta')
qed

lemma ToIndexed_yields:
  assumes "yields nxt st xs"
  shows "yields (ToIndexed_next nxt type) (st, 0) (items type (indexed xs))"
proof -
  have "yields (ToIndexed_next nxt type) (st, 0) (scan_map (\<lambda>c v. as_item type c v) Suc 0 xs)"
    by (rule yields_scan [OF assms]) (auto simp: ToIndexed_next_def pass_done_def split: option.splits)
  then show ?thesis by (simp add: scan_map_up items_def)
qed

lemma visit_map:
  "visit es (\<lambda>v k s. fn (f v k) (g v k) s) s = visit (map (\<lambda>(k, v). (g v k, f v k)) es) fn s"
  by (induction es arbitrary: s) (auto split: prod.splits)

lemma ToSet_delivers: "delivers it r es \<Longrightarrow> delivers (ToSet_iterate it) r (map (\<lambda>(k, v). (v, v)) es)"
  by (auto simp: delivers_def ToSet_iterate_def visit_map [of es _ "\<lambda>v k. v" "\<lambda>v k. v"])

lemma flip_delivers: "delivers it r es \<Longrightarrow> delivers (flip_iterate it) r (map (\<lambda>(k, v). (v, k)) es)"
  by (auto simp: delivers_def flip_iterate_def visit_map [of es _ "\<lambda>v k. k" "\<lambda>v k. v"])

lemma map_seq_delivers: "delivers it r es \<Longrightarrow> delivers (map_seq_iterate f it) r (map (\<lambda>(k, v). (k, f v k)) es)"
  by (auto simp: delivers_def map_seq_iterate_def visit_map [of es _ f "\<lambda>v k. k"])

lemma reverse_delivers: "delivers it (\<not> r) es \<Longrightarrow> delivers (reverse_iterate it) r es"
  by (simp add: delivers_def reverse_iterate_def)

lemma ToSet_yields: "yields nxt st xs \<Longrightarrow> yields (ToSet_next nxt type) st (map (\<lambda>v. as_item type v v) xs)"
  by (erule yields_map [where R = "(=)"]) (auto simp: ToSet_next_def pass_done_def split: option.splits)

lemma flip_yields: "yields nxt st es \<Longrightarrow> yields (flip_next nxt) st (map (\<lambda>(k, v). (v, k)) es)"
  by (erule yields_map [where R = "(=)"]) (auto simp: flip_next_def pass_done_def split: option.splits)

lemma map_seq_yields: "yields nxt st es \<Longrightarrow> yields (map_seq_next f nxt type) st (items type (map (\<lambda>(k, v). (k, f v k)) es))"
  unfolding items_def map_map
  by (erule yields_map [where R = "(=)"]) (auto simp: map_seq_next_def pass_done_def split: option.splits)

definition pairs_of :: "('k, 'v) entry_value list \<Rightarrow> ('k \<times> 'v) list" where
  "pairs_of xs = concat (map (\<lambda>x. case x of EntryPair k v \<Rightarrow> [(k, v)] | _ \<Rightarrow> []) xs)"

definition entry_visitor :: "('k, 'v, 's) visitor \<Rightarrow> ('i, ('k, 'v) entry_value, 's \<times> bool) visitor" where
  "entry_visitor fn = (\<lambda>entry i (s, thrown).
     case entry of
       EntryPair k v \<Rightarrow> (case fn v k s of (s', stop) \<Rightarrow> ((s', thrown), stop))
     | Hole \<Rightarrow> ((s, thrown), False)
     | NotEntry \<Rightarrow> ((s, True), True))"

lemma entry_visitor_simps [simp]:
  "entry_visitor fn (EntryPair k v) i (s, t) = (case fn v k s of (s', stop) \<Rightarrow> ((s', t), stop))"
  "entry_visitor fn Hole i (s, t) = ((s, t), False)"
  by (simp_all add: entry_visitor_def)

lemma entry_visitor_visit:
  assumes "NotEntry \<notin> snd ` set es"
  shows "fst (visit es (entry_visitor fn) (s, t)) = (fst (visit (pairs_of (map snd es)) fn s), t)"
  using assms
proof (induction es arbitrary: s)
  case (Cons e es)
  obtain i x where e: "e = (i, x)" by force
  have IH: "fst (visit es (entry_visitor fn) (u, t)) = (fst (visit (pairs_of (map snd es)) fn u), t)" for u
    using Cons by simp
  show ?case
  proof (cases x)
    case (EntryPair k v)
    then show ?thesis using IH [of "fst (fn v k s)"] by (cases "fn v k s") (auto simp: e pairs_of_def split: prod.splits)
  next
    case Hole
    then show ?thesis using IH [of s] by (auto simp: e pairs_of_def split: prod.splits)
  qed (use Cons.prems e in simp)
qed (simp add: pairs_of_def)

lemma FromEntries_delivers:
  assumes "delivers it r es" "NotEntry \<notin> snd ` set es"
  shows "\<exists>n. FromEntries_iterate it fn r s = Inl (fst (visit (pairs_of (map snd es)) fn s), n)"
proof -
  have "it (entry_visitor fn) r (s, False) = visit es (entry_visitor fn) (s, False)" by (rule deliversD [OF assms(1)])
  then show ?thesis using entry_visitor_visit [OF assms(2), of fn s False]
    by (cases "visit es (entry_visitor fn) (s, False)") (simp add: FromEntries_iterate_def entry_visitor_def [symmetric])
qed

lemma FromEntries_yields:
  assumes "yields nxt st xs" "NotEntry \<notin> set xs"
  shows "yields (FromEntries_next nxt type) st (items type (pairs_of xs))"
  using assms
proof (induction xs arbitrary: st)
  case Nil
  have "exhausted (FromEntries_next nxt type) st"
  proof (rule exhaustedI [of "exhausted nxt"])
    fix s assume "exhausted nxt s"
    then obtain v s' where "nxt s = Some (Step v True, s')" "exhausted nxt s'" by (auto elim: exhausted_E)
    then show "\<exists>v s'. FromEntries_next nxt type s = Some (Step v True, s') \<and> exhausted nxt s'"
      by (subst FromEntries_next.simps) (simp add: pass_done_def)
  qed (use Nil in simp)
  then show ?case by (simp add: pairs_of_def)
next
  case (Cons x xs)
  then obtain st' where st': "nxt st = Some (Step (Some x) False, st')" "yields nxt st' xs" by auto
  have IH: "yields (FromEntries_next nxt type) st' (items type (pairs_of xs))" using Cons st' by auto
  show ?case
  proof (cases x)
    case (EntryPair k v)
    then have "FromEntries_next nxt type st = Some (iteratorReuse type k v (Step (Some x) False), st')"
      using st' by (subst FromEntries_next.simps) simp
    then show ?thesis using EntryPair IH by (simp add: pairs_of_def)
  next
    case Hole
    have "FromEntries_next nxt type st = FromEntries_next nxt type st'" using st' Hole by (subst FromEntries_next.simps) simp
    moreover have "items type (pairs_of (x # xs)) = items type (pairs_of xs)" using Hole by (simp add: pairs_of_def)
    ultimately show ?thesis using IH yields_at [of "FromEntries_next nxt type" st st'] by simp
  next
    case NotEntry
    then show ?thesis using Cons.prems by simp
  qed
qed

end
