(* ===== verification/Seq_Filters.thy ===== *)
theory Seq_Filters
  imports Seq_Views
begin

text \<open>
  The lazy sequences that choose among the entries of another iterable: \<open>filter\<close>, \<open>slice\<close>,
  \<open>takeWhile\<close> and \<open>skipWhile\<close>, in both protocols. An indexed result numbers its entries afresh
  (\<open>indexKey\<close> is then \<open>Some\<close>), a keyed one keeps the keys. A predicate of \<open>takeWhile\<close> answers a
  truthy value, \<open>false\<close>, or another falsy one: the code treats the last two differently.
\<close>

definition key_at :: "(nat \<Rightarrow> 'k) option \<Rightarrow> 'k \<Rightarrow> nat \<Rightarrow> 'k" where
  \<comment> \<open>\<open>useKeys ? k : iterations\<close>\<close>
  "key_at indexKey k i = (case indexKey of None \<Rightarrow> k | Some f \<Rightarrow> f i)"

lemma key_at_simps [simp]: "key_at None k i = k" "key_at (Some f) k i = f i"
  by (simp_all add: key_at_def)

fun rekey_from :: "(nat \<Rightarrow> 'k) option \<Rightarrow> nat \<Rightarrow> ('k \<times> 'v) list \<Rightarrow> ('k \<times> 'v) list" where
  "rekey_from indexKey i [] = []"
| "rekey_from indexKey i ((k, v) # es) = (key_at indexKey k i, v) # rekey_from indexKey (Suc i) es"

lemma rekey_from_None [simp]: "rekey_from None i es = es"
  by (induction es arbitrary: i) auto

lemma rekey_from_scan: "rekey_from indexKey i es = scan_map (\<lambda>i (k, v). (key_at indexKey k i, v)) Suc i es"
  by (induction indexKey i es rule: rekey_from.induct) auto

lemma rekey_from_rekeyed: "rekey_from indexKey 0 es = rekeyed indexKey es"
  by (cases indexKey) (auto simp: rekey_from_scan scan_map_up rekeyed_def case_prod_beta' scan_map_const [where h = id])

lemma length_rekey_from [simp]: "length (rekey_from indexKey i es) = length es"
  by (simp add: rekey_from_scan)

section \<open>filter\<close>

definition filter_visitor ::
  "('v \<Rightarrow> 'k \<Rightarrow> bool) \<Rightarrow> (nat \<Rightarrow> 'k) option \<Rightarrow> ('k, 'v, 's) visitor \<Rightarrow> ('k, 'v, 's \<times> nat) visitor" where
  "filter_visitor predicate indexKey fn = (\<lambda>v k (s, iterations).
     if predicate v k
     then (case fn v (key_at indexKey k iterations) s of (s', stop) \<Rightarrow> ((s', iterations + 1), stop))
     else ((s, iterations), False))"

definition filter_iterate ::
  "('v \<Rightarrow> 'k \<Rightarrow> bool) \<Rightarrow> (nat \<Rightarrow> 'k) option \<Rightarrow> ('k, 'v, 's \<times> nat) iterate \<Rightarrow> ('k, 'v, 's) iterate" where
  "filter_iterate predicate indexKey it fn reverse s =
     fst (it (filter_visitor predicate indexKey fn) reverse (s, 0))"

definition filter_get :: "('v \<Rightarrow> 'k \<Rightarrow> bool) \<Rightarrow> ('k \<Rightarrow> 'v option) \<Rightarrow> 'k \<Rightarrow> 'v option \<Rightarrow> 'v option" where
  "filter_get predicate get key notSet =
     (case get key of None \<Rightarrow> notSet | Some v \<Rightarrow> if predicate v key then Some v else notSet)"

definition filter_has :: "('v \<Rightarrow> 'k \<Rightarrow> bool) \<Rightarrow> ('k \<Rightarrow> 'v option) \<Rightarrow> 'k \<Rightarrow> bool" where
  "filter_has predicate get key = (case get key of None \<Rightarrow> False | Some v \<Rightarrow> predicate v key)"

partial_function (option) filter_next ::
  "('v \<Rightarrow> 'k \<Rightarrow> bool) \<Rightarrow> (nat \<Rightarrow> 'k) option \<Rightarrow> ('k \<times> 'v, 'st) stepper \<Rightarrow> iter_type \<Rightarrow> 'st \<times> nat \<Rightarrow> (('k, 'v) item step \<times> 'st \<times> nat) option" where
  "filter_next predicate indexKey nxt type p =
     Option.bind (nxt (fst p)) (\<lambda>(step, st').
       if step_done step then Some (pass_done step, (st', snd p))
       else (case step_value step of
               None \<Rightarrow> None
             | Some (k, v) \<Rightarrow>
                 if predicate v k
                 then Some (iteratorReuse type (key_at indexKey k (snd p)) v step, (st', snd p + 1))
                 else filter_next predicate indexKey nxt type (st', snd p)))"

declare filter_next.simps [code]

lemma filter_visit:
  "fst (visit es (filter_visitor p ik fn) (s, i)) =
     (case visit (rekey_from ik i (filter (\<lambda>(k, v). p v k) es)) fn s of (s', n) \<Rightarrow> (s', i + n))"
proof (induction es arbitrary: s i)
  case (Cons e es)
  obtain k v where e: "e = (k, v)" by force
  obtain s1 stop where f: "fn v (key_at ik k i) s = (s1, stop)" by force
  show ?case
  proof (cases "p v k")
    case True
    then have "filter_visitor p ik fn v k (s, i) = ((s1, i + 1), stop)" by (simp add: filter_visitor_def f)
    then show ?thesis using Cons.IH [of s1 "i + 1"] True by (cases stop) (auto simp: e f split: prod.splits)
  next
    case False
    then have "filter_visitor p ik fn v k (s, i) = ((s, i), False)" by (simp add: filter_visitor_def)
    then show ?thesis using Cons.IH [of s i] False by (auto simp: e split: prod.splits)
  qed
qed simp

lemma filter_delivers:
  assumes "delivers it r es"
  shows "delivers (filter_iterate p ik it) r (rekeyed ik (filter (\<lambda>(k, v). p v k) es))"
  by (rule deliversI)
    (simp add: filter_iterate_def deliversD [OF assms] filter_visit rekey_from_rekeyed case_prod_beta')

text \<open>The loops inside \<open>next\<close>: an iterator that skips some steps of another one.\<close>

lemma yields_skip:
  fixes nxt :: "('a, 'st) stepper" and nxt' :: "('b, 'st \<times> 'c) stepper"
  assumes "yields nxt st xs"
    and keep: "\<And>st c x st'. nxt st = Some (Step (Some x) False, st') \<Longrightarrow> keep x \<Longrightarrow>
      nxt' (st, c) = Some (Step (Some (f c x)) False, (st', g c))"
    and skip: "\<And>st c x st'. nxt st = Some (Step (Some x) False, st') \<Longrightarrow> \<not> keep x \<Longrightarrow> nxt' (st, c) = nxt' (st', c)"
    and stop: "\<And>st c v st'. nxt st = Some (Step v True, st') \<Longrightarrow> \<exists>v' c'. nxt' (st, c) = Some (Step v' True, (st', c'))"
  shows "yields nxt' (st, c) (scan_map f g c (filter keep xs))"
  using assms(1)
proof (induction xs arbitrary: st c)
  case Nil
  then have "exhausted nxt' (st, c)" by (intro exhausted_state [of nxt st nxt' c]) (simp, erule stop)
  then show ?case by simp
next
  case (Cons x xs)
  then obtain st' where st': "nxt st = Some (Step (Some x) False, st')" "yields nxt st' xs" by auto
  show ?case
  proof (cases "keep x")
    case True
    then show ?thesis using keep [OF st'(1)] Cons.IH [OF st'(2)] by simp
  next
    case False
    then have "yields nxt' (st, c) ys = yields nxt' (st', c) ys" for ys by (intro yields_at skip [OF st'(1)])
    then show ?thesis using False Cons.IH [OF st'(2)] by simp
  qed
qed

lemma items_scan: "items type (scan_map h g c xs) = scan_map (\<lambda>c x. as_item type (fst (h c x)) (snd (h c x))) g c xs"
  by (induction xs arbitrary: c) (auto simp: items_def case_prod_beta')

lemma filter_yields:
  assumes "yields nxt st es"
  shows "yields (filter_next p ik nxt type) (st, 0) (items type (rekeyed ik (filter (\<lambda>(k, v). p v k) es)))"
proof -
  have "yields (filter_next p ik nxt type) (st, 0)
      (scan_map (\<lambda>i (k, v). as_item type (key_at ik k i) v) Suc 0 (filter (\<lambda>(k, v). p v k) es))"
    by (rule yields_skip [OF assms]; subst filter_next.simps) (auto simp: pass_done_def split: option.splits)
  then show ?thesis
    by (simp add: rekey_from_rekeyed [symmetric] rekey_from_scan items_scan case_prod_beta')
qed

section \<open>Reading backwards from the cache\<close>

definition reversed_by_cache ::
  "(nat \<Rightarrow> 'k) option \<Rightarrow> (('k, 'v, ('k \<times> 'v) list) visitor \<Rightarrow> ('k \<times> 'v) list \<Rightarrow> ('k \<times> 'v) list \<times> nat) \<Rightarrow> ('k, 'v, 's) visitor \<Rightarrow> 's \<Rightarrow> 's \<times> nat" where
  \<comment> \<open>\<open>this.cacheResult().__iterate(fn, reverse)\<close> of a sequence that can only be read forwards\<close>
  "reversed_by_cache indexKey forward fn s =
     cached_iterate indexKey (cacheResult (\<lambda>fn r. forward fn) None) fn True s"

lemma reversed_by_cache_visit:
  assumes "\<And>fn s. forward fn s = visit es fn s"
  shows "reversed_by_cache ik forward fn s = visit (rekeyed ik (rev es)) fn s"
proof -
  have "cacheResult (\<lambda>fn r. forward fn) None = es"
    by (rule cacheResult_entries) (simp add: delivers_def assms)
  then show ?thesis using deliversD [OF cached_delivers [of ik es True]] by (simp add: reversed_by_cache_def)
qed

section \<open>slice\<close>

datatype slice_plan = WholeIterable | CacheFirst | SliceFrom nat "nat option"

definition num_nat :: "jsnum \<Rightarrow> nat" where
  \<comment> \<open>a resolved bound, which is a non-negative integer\<close>
  "num_nat n = (case n of Fin q \<Rightarrow> nat \<lfloor>q\<rfloor> | _ \<Rightarrow> 0)"

definition slice_bounds :: "jsnum option \<Rightarrow> jsnum option \<Rightarrow> jsnum option \<Rightarrow> slice_plan" where
  \<comment> \<open>the head of \<open>sliceFactory\<close>: bounds and the size of the source; an infinite size limits nothing\<close>
  "slice_bounds begin end' originalSize =
     (let begin = map_option (\<lambda>b. NumInt32 (ToInt32 b)) begin;
          end' = (case end' of None \<Rightarrow> None | Some e \<Rightarrow> if e = PosInf then originalSize else Some (NumInt32 (ToInt32 e)))
      in if wholeSlice begin end' originalSize then WholeIterable
         else (let resolvedBegin = resolveBegin begin originalSize; resolvedEnd = resolveEnd end' originalSize
               in if resolvedBegin = Some NaN \<or> resolvedEnd = Some NaN then CacheFirst
                  else SliceFrom (num_nat (the resolvedBegin))
                         (case resolvedEnd of
                            Some (Fin e) \<Rightarrow> Some (nat (\<lfloor>e\<rfloor> - int (num_nat (the resolvedBegin))))
                          | _ \<Rightarrow> None)))"

definition slice_visitor ::
  "nat \<Rightarrow> nat option \<Rightarrow> (nat \<Rightarrow> 'k) option \<Rightarrow> ('k, 'v, 's) visitor \<Rightarrow> ('k, 'v, 's \<times> nat \<times> bool \<times> nat) visitor" where
  \<comment> \<open>the state adds \<open>skipped\<close>, \<open>isSkipping\<close> and \<open>iterations\<close>\<close>
  "slice_visitor resolvedBegin sliceSize indexKey fn = (\<lambda>v k (s, skipped, isSkipping, iterations).
     let stillSkipping = (isSkipping \<and> skipped < resolvedBegin);
         skipped = (if isSkipping then skipped + 1 else skipped)
     in if stillSkipping then ((s, skipped, True, iterations), False)
        else (case fn v (key_at indexKey k iterations) s of
                (s', stop) \<Rightarrow> ((s', skipped, False, iterations + 1), stop \<or> sliceSize = Some (iterations + 1))))"

definition slice_forward ::
  "nat \<Rightarrow> nat option \<Rightarrow> (nat \<Rightarrow> 'k) option \<Rightarrow> ('k, 'v, 's \<times> nat \<times> bool \<times> nat) iterate \<Rightarrow> ('k, 'v, 's) visitor \<Rightarrow> 's \<Rightarrow> 's \<times> nat" where
  "slice_forward resolvedBegin sliceSize indexKey it fn s =
     (if sliceSize = Some 0 then (s, 0)
      else (case fst (it (slice_visitor resolvedBegin sliceSize indexKey fn) False (s, 0, True, 0)) of
              (s', skipped, isSkipping, iterations) \<Rightarrow> (s', iterations)))"

definition take_size :: "nat option \<Rightarrow> 'a list \<Rightarrow> 'a list" where
  "take_size n xs = (case n of None \<Rightarrow> xs | Some n \<Rightarrow> take n xs)"

lemma slice_visit_taking:
  "n \<noteq> Some i \<Longrightarrow> (case n of None \<Rightarrow> True | Some m \<Rightarrow> i \<le> m) \<Longrightarrow>
   (case fst (visit es (slice_visitor b n ik fn) (s, sk, False, i)) of (s', _, _, j) \<Rightarrow> (s', j)) =
   (case visit (rekey_from ik i (take_size (map_option (\<lambda>m. m - i) n) es)) fn s of (s', j) \<Rightarrow> (s', i + j))"
proof (induction es arbitrary: s i)
  case (Cons e es)
  obtain k v where e: "e = (k, v)" by force
  obtain s1 stop where f: "fn v (key_at ik k i) s = (s1, stop)" by force
  have F: "slice_visitor b n ik fn v k (s, sk, False, i) = ((s1, sk, False, i + 1), stop \<or> n = Some (i + 1))"
    by (simp add: slice_visitor_def f)
  have t: "take_size (map_option (\<lambda>m. m - i) n) (e # es) = e # take_size (map_option (\<lambda>m. m - (i + 1)) n) es"
    using Cons.prems by (cases n) (auto simp: take_size_def take_Cons' Suc_diff_Suc)
  show ?case
  proof (cases "stop \<or> n = Some (i + 1)")
    case True
    then show ?thesis unfolding t using F f by (auto simp: e take_size_def)
  next
    case False
    then show ?thesis unfolding t using F f Cons.IH [of "i + 1" s1] Cons.prems
      by (cases n) (auto simp: e split: prod.splits)
  qed
qed (auto simp: take_size_def split: option.splits)

lemma slice_visit_skipping:
  assumes "n \<noteq> Some 0" "sk \<le> b"
  shows "(case fst (visit es (slice_visitor b n ik fn) (s, sk, True, 0)) of (s', _, _, j) \<Rightarrow> (s', j)) =
   visit (rekey_from ik 0 (take_size n (drop (b - sk) es))) fn s"
  using assms(2)
proof (induction es arbitrary: sk)
  case (Cons e es)
  obtain k v where e: "e = (k, v)" by force
  show ?case
  proof (cases "sk < b")
    case True
    then have "slice_visitor b n ik fn v k (s, sk, True, 0) = ((s, sk + 1, True, 0), False)"
      by (simp add: slice_visitor_def)
    then show ?thesis using Cons.IH [of "sk + 1"] True by (simp add: e Suc_diff_Suc [symmetric] case_prod_beta' del: Suc_diff_Suc)
  next
    case False
    obtain s1 stop where f: "fn v (key_at ik k 0) s = (s1, stop)" by force
    have F: "slice_visitor b n ik fn v k (s, sk, True, 0) = ((s1, sk + 1, False, 1), stop \<or> n = Some 1)"
      using False by (simp add: slice_visitor_def f)
    have t: "take_size n (e # es) = e # take_size (map_option (\<lambda>m. m - 1) n) es"
      using assms(1) by (cases n) (auto simp: take_size_def take_Cons')
    have d: "drop (b - sk) (e # es) = e # es" using False by simp
    show ?thesis
    proof (cases "stop \<or> n = Some 1")
      case True
      then show ?thesis unfolding d t using F f by (auto simp: e take_size_def)
    next
      case False
      then show ?thesis unfolding d t using F f slice_visit_taking [of n 1 es b ik fn s1 "sk + 1"] assms(1)
        by (cases n) (auto simp: e split: prod.splits)
    qed
  qed
qed (auto simp: take_size_def split: option.splits)

lemma slice_forward_visit:
  assumes "delivers it False es"
  shows "slice_forward b n ik it fn s = visit (rekeyed ik (take_size n (drop b es))) fn s"
  using slice_visit_skipping [of n 0 b es ik fn s]
  by (cases "n = Some 0") (simp_all add: slice_forward_def deliversD [OF assms] rekey_from_rekeyed [symmetric] take_size_def)

fun skip_steps :: "nat \<Rightarrow> ('x, 'st) stepper \<Rightarrow> 'st \<Rightarrow> 'st option" where
  \<comment> \<open>\<open>while (skipped++ < resolvedBegin) iterator.next()\<close>\<close>
  "skip_steps 0 nxt st = Some st"
| "skip_steps (Suc n) nxt st = Option.bind (nxt st) (\<lambda>(step, st'). skip_steps n nxt st')"

definition slice_next ::
  "nat \<Rightarrow> nat option \<Rightarrow> bool \<Rightarrow> ((nat, 'v) item, 'st) stepper \<Rightarrow> iter_type \<Rightarrow> ((nat, 'v option) item, 'st \<times> nat \<times> nat) stepper" where
  \<comment> \<open>the state adds \<open>skipped\<close> and \<open>iterations\<close>; \<open>None\<close> on \<open>ENTRIES\<close> is the \<open>TypeError\<close> of reading
    \<open>step.value[1]\<close> of a step without a value\<close>
  "slice_next resolvedBegin sliceSize useKeys nxt type = (\<lambda>(st, skipped, iterations).
     Option.bind (skip_steps (resolvedBegin - skipped) nxt st) (\<lambda>st.
       let skipped = max skipped resolvedBegin + 1; iterations = iterations + 1
       in if (case sliceSize of None \<Rightarrow> False | Some n \<Rightarrow> iterations > n) then Some (iteratorDone, (st, skipped, iterations))
          else Option.bind (nxt st) (\<lambda>(step, st').
            let next' = (st', skipped, iterations)
            in if useKeys \<or> type = VALUES
               then Some (case step of
                            Step (Some (ValueItem v)) d \<Rightarrow> Step (Some (ValueItem (Some v))) d
                          | Step (Some (EntryItem k v)) d \<Rightarrow> Step (Some (EntryItem k (Some v))) d
                          | Step (Some (KeyItem k)) d \<Rightarrow> Step (Some (KeyItem k)) d
                          | Step None d \<Rightarrow> Step None d, next')
               else if type = KEYS then Some (iteratorReuse type (iterations - 1) None step, next')
               else (case step_value step of
                       Some (EntryItem k v) \<Rightarrow> Some (iteratorReuse type (iterations - 1) (Some v) step, next')
                     | _ \<Rightarrow> None))))"

section \<open>takeWhile\<close>

datatype verdict = Truthy | IsFalse | Falsy
  \<comment> \<open>what a predicate returned: a truthy value, \<open>false\<close> itself, or another falsy value\<close>

definition takeWhile_visitor :: "('v \<Rightarrow> 'k \<Rightarrow> verdict) \<Rightarrow> ('k, 'v, 's) visitor \<Rightarrow> ('k, 'v, 's \<times> nat) visitor" where
  \<comment> \<open>\<open>predicate(\<dots>) && ++iterations && fn(\<dots>)\<close>: a falsy value other than \<open>false\<close> does not stop\<close>
  "takeWhile_visitor predicate fn = (\<lambda>v k (s, iterations).
     case predicate v k of
       Truthy \<Rightarrow> (case fn v k s of (s', stop) \<Rightarrow> ((s', iterations + 1), stop))
     | IsFalse \<Rightarrow> ((s, iterations), True)
     | Falsy \<Rightarrow> ((s, iterations), False))"

definition takeWhile_forward ::
  "('v \<Rightarrow> 'k \<Rightarrow> verdict) \<Rightarrow> ('k, 'v, 's \<times> nat) iterate \<Rightarrow> ('k, 'v, 's) visitor \<Rightarrow> 's \<Rightarrow> 's \<times> nat" where
  "takeWhile_forward predicate it fn s = fst (it (takeWhile_visitor predicate fn) False (s, 0))"

definition takeWhile_next :: "('v \<Rightarrow> 'k \<Rightarrow> verdict) \<Rightarrow> ('k \<times> 'v, 'st) stepper \<Rightarrow> iter_type \<Rightarrow> (('k, 'v) item, 'st \<times> bool) stepper" where
  "takeWhile_next predicate nxt type = (\<lambda>(st, iterating).
     if \<not> iterating then Some (iteratorDone, (st, False))
     else Option.bind (nxt st) (\<lambda>(step, st').
       case step of
         Step (Some (k, v)) False \<Rightarrow>
           if predicate v k \<noteq> Truthy then Some (iteratorDone, (st', False))
           else Some (iteratorReuse type k v step, (st', True))
       | _ \<Rightarrow> Some (pass_done step, (st', True))))"

lemma takeWhile_visit:
  "fst (visit es (takeWhile_visitor p fn) (s, i)) =
     (case visit (filter (\<lambda>(k, v). p v k = Truthy) (takeWhile (\<lambda>(k, v). p v k \<noteq> IsFalse) es)) fn s of (s', n) \<Rightarrow> (s', i + n))"
proof (induction es arbitrary: s i)
  case (Cons e es)
  obtain k v where e: "e = (k, v)" by force
  obtain s1 stop where f: "fn v k s = (s1, stop)" by force
  show ?case
    using Cons.IH [of s1 "i + 1"] Cons.IH [of s i]
    by (cases "p v k"; cases stop) (auto simp: e f takeWhile_visitor_def [of p fn, THEN fun_cong, THEN fun_cong, of v k] split: prod.splits)
qed simp

lemma takeWhile_yields:
  assumes "yields nxt st es"
  shows "yields (takeWhile_next p nxt type) (st, True) (items type (takeWhile (\<lambda>(k, v). p v k = Truthy) es))"
proof -
  have done': "exhausted (takeWhile_next p nxt type) (st, False)" for st
    by (rule exhaustedI [of "\<lambda>q. \<not> snd q"]) (auto simp: takeWhile_next_def iteratorDone_def)
  show ?thesis
    using assms
  proof (induction es arbitrary: st)
    case Nil
    have "exhausted (takeWhile_next p nxt type) (st, True)"
    proof (rule exhaustedI [of "\<lambda>q. snd q \<and> exhausted nxt (fst q)"])
      fix q assume "snd q \<and> exhausted nxt (fst q)"
      then obtain s v s' where "q = (s, True)" "nxt s = Some (Step v True, s')" "exhausted nxt s'"
        by (cases q) (auto elim: exhausted_E)
      then show "\<exists>v q'. takeWhile_next p nxt type q = Some (Step v True, q') \<and> snd q' \<and> exhausted nxt (fst q')"
        by (auto simp: takeWhile_next_def pass_done_def split: option.splits)
    qed (use Nil in simp)
    then show ?case by simp
  next
    case (Cons e es)
    obtain k v where e: "e = (k, v)" by force
    obtain st' where st': "nxt st = Some (Step (Some (k, v)) False, st')" "yields nxt st' es" using Cons.prems e by auto
    show ?case
    proof (cases "p v k = Truthy")
      case True
      then show ?thesis using st' Cons.IH [OF st'(2)] by (simp add: e takeWhile_next_def)
    next
      case False
      then have "exhausted (takeWhile_next p nxt type) (st, True)"
        using st' done' [of st'] by (auto simp: takeWhile_next_def iteratorDone_def intro: exhausted_step)
      then show ?thesis using False by (simp add: e)
    qed
  qed
qed

section \<open>skipWhile\<close>

definition skipWhile_visitor ::
  "('v \<Rightarrow> 'k \<Rightarrow> bool) \<Rightarrow> (nat \<Rightarrow> 'k) option \<Rightarrow> ('k, 'v, 's) visitor \<Rightarrow> ('k, 'v, 's \<times> bool \<times> nat) visitor" where
  "skipWhile_visitor predicate indexKey fn = (\<lambda>v k (s, isSkipping, iterations).
     let isSkipping = (isSkipping \<and> predicate v k)
     in if isSkipping then ((s, isSkipping, iterations), False)
        else (case fn v (key_at indexKey k iterations) s of (s', stop) \<Rightarrow> ((s', isSkipping, iterations + 1), stop)))"

definition skipWhile_forward ::
  "('v \<Rightarrow> 'k \<Rightarrow> bool) \<Rightarrow> (nat \<Rightarrow> 'k) option \<Rightarrow> ('k, 'v, 's \<times> bool \<times> nat) iterate \<Rightarrow> ('k, 'v, 's) visitor \<Rightarrow> 's \<Rightarrow> 's \<times> nat" where
  "skipWhile_forward predicate indexKey it fn s =
     (case fst (it (skipWhile_visitor predicate indexKey fn) False (s, True, 0)) of (s', isSkipping, iterations) \<Rightarrow> (s', iterations))"

partial_function (option) skipWhile_next ::
  "('v \<Rightarrow> 'k \<Rightarrow> bool) \<Rightarrow> bool \<Rightarrow> (nat \<Rightarrow> 'k) \<Rightarrow> ('k \<times> 'v, 'st) stepper \<Rightarrow> iter_type \<Rightarrow> 'st \<times> bool \<times> nat \<Rightarrow> (('k, 'v option) item step \<times> 'st \<times> bool \<times> nat) option" where
  \<comment> \<open>the state adds \<open>skipping\<close> and \<open>iterations\<close>; at the end, without \<open>useKeys\<close>, the code reads
    \<open>step.value[1]\<close> for \<open>ENTRIES\<close>, a \<open>TypeError\<close>\<close>
  "skipWhile_next predicate useKeys indexKey nxt type p =
     (case p of (st, skipping, iterations) \<Rightarrow>
       Option.bind (nxt st) (\<lambda>(step, st').
         if step_done step
         then (if useKeys \<or> type = VALUES then Some (pass_done step, (st', skipping, iterations))
               else if type = KEYS then Some (iteratorReuse type (indexKey iterations) None step, (st', skipping, iterations + 1))
               else None)
         else (case step_value step of
                 None \<Rightarrow> None
               | Some (k, v) \<Rightarrow>
                   if skipping \<and> predicate v k then skipWhile_next predicate useKeys indexKey nxt type (st', True, iterations)
                   else Some (iteratorReuse type k (Some v) step, (st', False, iterations)))))"

declare skipWhile_next.simps [code]

lemma skipWhile_visit_taking:
  "(case fst (visit es (skipWhile_visitor p ik fn) (s, False, i)) of (s', _, j) \<Rightarrow> (s', j)) =
     (case visit (rekey_from ik i es) fn s of (s', n) \<Rightarrow> (s', i + n))"
proof (induction es arbitrary: s i)
  case (Cons e es)
  obtain k v where e: "e = (k, v)" by force
  obtain s1 stop where f: "fn v (key_at ik k i) s = (s1, stop)" by force
  have "skipWhile_visitor p ik fn v k (s, False, i) = ((s1, False, i + 1), stop)" by (simp add: skipWhile_visitor_def f)
  then show ?case using Cons.IH [of s1 "i + 1"] by (cases stop) (auto simp: e f split: prod.splits)
qed simp

lemma skipWhile_visit:
  "(case fst (visit es (skipWhile_visitor p ik fn) (s, True, 0)) of (s', _, j) \<Rightarrow> (s', j)) =
     visit (rekey_from ik 0 (dropWhile (\<lambda>(k, v). p v k) es)) fn s"
proof (induction es)
  case (Cons e es)
  obtain k v where e: "e = (k, v)" by force
  show ?case
  proof (cases "p v k")
    case True
    then have "skipWhile_visitor p ik fn v k (s, True, 0) = ((s, True, 0), False)" by (simp add: skipWhile_visitor_def)
    then show ?thesis using Cons True by (simp add: e case_prod_beta')
  next
    case False
    then have "visit (e # es) (skipWhile_visitor p ik fn) (s, True, 0) = visit (e # es) (skipWhile_visitor p ik fn) (s, False, 0)"
      by (simp add: e skipWhile_visitor_def)
    then show ?thesis using False skipWhile_visit_taking [of "e # es" p ik fn s 0] by (simp add: e case_prod_beta' del: visit.simps)
  qed
qed simp

lemma skipWhile_forward_visit:
  assumes "delivers it False es"
  shows "skipWhile_forward p ik it fn s = visit (rekeyed ik (dropWhile (\<lambda>(k, v). p v k) es)) fn s"
  using skipWhile_visit [of es p ik fn s]
  by (simp add: skipWhile_forward_def deliversD [OF assms] rekey_from_rekeyed)

end
