(* ===== verification/Seq_Flatten.thy ===== *)
theory Seq_Flatten
  imports Seq_Filters
begin

text \<open>
  \<open>flatten\<close> and \<open>concat\<close>. A value met by \<open>flatten\<close> is a plain value or an iterable, which is given
  by the entries it visits forwards and those it visits backwards. The depth \<open>0\<close> is any falsy
  argument (no limit), and \<open>true\<close>, which the code compares with the current depth, is \<open>1\<close>.
\<close>

datatype ('k, 'v) nest = Leaf 'v | Nested "('k \<times> ('k, 'v) nest) list" "('k \<times> ('k, 'v) nest) list"

fun nest_entries :: "bool \<Rightarrow> ('k, 'v) nest \<Rightarrow> ('k \<times> ('k, 'v) nest) list" where
  "nest_entries reverse (Leaf v) = []"
| "nest_entries reverse (Nested fw bw) = (if reverse then bw else fw)"

definition isNested :: "('k, 'v) nest \<Rightarrow> bool" where
  "isNested v = (case v of Leaf _ \<Rightarrow> False | Nested _ _ \<Rightarrow> True)"

lemma isNested_simps [simp]: "\<not> isNested (Leaf v)" "isNested (Nested fw bw)"
  by (simp_all add: isNested_def)

lemma size_entry: "(k, v) \<in> set es \<Longrightarrow> size v < Suc (size_list (size_prod (\<lambda>_. 0) size) es)"
  by (induction es) auto

lemma size_nested: "(k, v) \<in> set (nest_entries r it) \<Longrightarrow> size v < size it"
  using size_entry [of k v] by (cases it) (fastforce split: if_splits)+

section \<open>flatten: visiting\<close>

definition flat_leaf ::
  "(nat \<Rightarrow> 'k) option \<Rightarrow> ('k, ('k, 'v) nest, 's) visitor \<Rightarrow> ('k, ('k, 'v) nest, 's \<times> nat \<times> bool) visitor" where
  \<comment> \<open>\<open>fn(v, useKeys ? k : iterations++, \<dots>) === false\<close>; the state adds \<open>iterations\<close> and \<open>stopped\<close>\<close>
  "flat_leaf indexKey fn = (\<lambda>v k (s, iterations, stopped).
     case fn v (key_at indexKey k iterations) s of
       (s', stop) \<Rightarrow>
         ((s', if indexKey = None then iterations else iterations + 1, stopped \<or> stop), stopped \<or> stop))"

function (sequential) flatDeep ::
  "nat \<Rightarrow> (nat \<Rightarrow> 'k) option \<Rightarrow> bool \<Rightarrow> ('k, ('k, 'v) nest, 's) visitor \<Rightarrow> ('k, 'v) nest \<Rightarrow> nat \<Rightarrow>
     's \<times> nat \<times> bool \<Rightarrow> 's \<times> nat \<times> bool" where
  "flatDeep depth indexKey reverse fn iter currentDepth st =
     fst (visit (nest_entries reverse iter)
            (\<lambda>v k st.
               if (depth = 0 \<or> currentDepth < depth) \<and> isNested v
               then (let st' = flatDeep depth indexKey reverse fn v (currentDepth + 1) st in (st', snd (snd st')))
               else flat_leaf indexKey fn v k st) st)"
  by pat_completeness auto
termination
  by (relation "measure (\<lambda>(depth, ik, r, fn, iter, d, st). size iter)") (auto simp: size_nested)

declare flatDeep.simps [simp del]

definition flatten_iterate ::
  "nat \<Rightarrow> (nat \<Rightarrow> 'k) option \<Rightarrow> ('k, 'v) nest \<Rightarrow> ('k, ('k, 'v) nest, 's) iterate" where
  "flatten_iterate depth indexKey iterable fn reverse s =
     (case flatDeep depth indexKey reverse fn iterable 0 (s, 0, False) of (s', iterations, stopped) \<Rightarrow> (s', iterations))"

text \<open>The entries a flattened iterable has.\<close>

function (sequential) flat :: "nat \<Rightarrow> bool \<Rightarrow> nat \<Rightarrow> 'k \<times> ('k, 'v) nest \<Rightarrow> ('k \<times> ('k, 'v) nest) list" where
  "flat depth r d (k, v) =
     (if (depth = 0 \<or> d < depth) \<and> isNested v
      then concat (map (\<lambda>e. flat depth r (d + 1) e) (nest_entries r v)) else [(k, v)])"
  by pat_completeness auto
termination
  by (relation "measure (\<lambda>(depth, r, d, e). size (snd e))") (auto simp: size_nested)

declare flat.simps [simp del]

definition flat_entries :: "nat \<Rightarrow> bool \<Rightarrow> nat \<Rightarrow> ('k, 'v) nest \<Rightarrow> ('k \<times> ('k, 'v) nest) list" where
  "flat_entries depth r d it = concat (map (flat depth r d) (nest_entries r it))"

lemma flat_unfold:
  "flat depth r d (k, v) = (if (depth = 0 \<or> d < depth) \<and> isNested v then flat_entries depth r (d + 1) v else [(k, v)])"
  by (simp add: flat.simps [of depth r d k v] flat_entries_def)

abbreviation leaf_step ::
  "(nat \<Rightarrow> 'k) option \<Rightarrow> ('k, ('k, 'v) nest, 's) visitor \<Rightarrow> 'k \<times> ('k, 'v) nest \<Rightarrow> 's \<times> nat \<times> bool \<Rightarrow> ('s \<times> nat \<times> bool) \<times> bool" where
  "leaf_step ik fn \<equiv> \<lambda>(k, v). flat_leaf ik fn v k"

lemma leaf_run_stopped:
  "\<not> snd (snd st) \<Longrightarrow> snd (run_until (leaf_step ik fn) es st) = snd (snd (fst (run_until (leaf_step ik fn) es st)))"
  by (induction es arbitrary: st) (auto simp: flat_leaf_def split: prod.splits)

lemma leaf_run:
  "fst (run_until (leaf_step ik fn) es (s, i, False)) =
     (case visit (rekey_from ik i es) fn s of
        (s', n) \<Rightarrow> (s', if ik = None then i else i + n, snd (run_until (leaf_step ik fn) es (s, i, False))))"
proof (induction es arbitrary: s i)
  case (Cons e es)
  obtain k v where e: "e = (k, v)" by force
  obtain s1 stop where f: "fn v (key_at ik k i) s = (s1, stop)" by force
  have r: "rekey_from ik (if ik = None then i else i + 1) es = rekey_from ik (Suc i) es" by (cases ik) simp_all
  have F: "flat_leaf ik fn v k (s, i, False) = ((s1, if ik = None then i else i + 1, stop), stop)"
    by (simp add: flat_leaf_def f)
  show ?case using Cons.IH [of s1 "if ik = None then i else i + 1"]
    by (cases stop) (auto simp: e F f r split: prod.splits)
qed simp

lemma flat_visit:
  assumes "\<And>k v st. (k, v) \<in> set es \<Longrightarrow> \<not> snd (snd st) \<Longrightarrow> body v k st = run_until (leaf_step ik fn) (g (k, v)) st"
  shows "\<not> snd (snd st) \<Longrightarrow> fst (visit es body st) = fst (run_until (leaf_step ik fn) (concat (map g es)) st)"
  using assms
proof (induction es arbitrary: st)
  case (Cons e es)
  obtain k v where e: "e = (k, v)" by force
  obtain st1 stop where b: "body v k st = (st1, stop)" by (rule prod.exhaust)
  have run: "run_until (leaf_step ik fn) (g (k, v)) st = (st1, stop)" using Cons.prems b e by simp
  show ?case
  proof (cases stop)
    case True
    then show ?thesis using b run by (simp add: e run_until_append)
  next
    case False
    then have "\<not> snd (snd st1)" using leaf_run_stopped [OF Cons.prems(1), of ik fn "g (k, v)"] run by simp
    then show ?thesis using Cons.IH [of st1] Cons.prems(2) b run False
      by (simp add: e run_until_append case_prod_beta')
  qed
qed simp

lemma flatDeep_run:
  "\<not> snd (snd st) \<Longrightarrow>
   flatDeep depth ik r fn it d st = fst (run_until (leaf_step ik fn) (flat_entries depth r d it) st)"
proof (induction depth ik r fn it d st rule: flatDeep.induct)
  case (1 depth ik r fn it d st)
  show ?case unfolding flat_entries_def
  proof (subst flatDeep.simps, rule flat_visit [OF _ 1(2)])
    fix k v and u :: "'a \<times> nat \<times> bool"
    assume kv: "(k, v) \<in> set (nest_entries r it)" "\<not> snd (snd u)"
    show "(if (depth = 0 \<or> d < depth) \<and> isNested v
           then (let st' = flatDeep depth ik r fn v (d + 1) u in (st', snd (snd st'))) else flat_leaf ik fn v k u) =
        run_until (leaf_step ik fn) (flat depth r d (k, v)) u"
      using 1(1) [OF kv(1)] kv(2) leaf_run_stopped [OF kv(2), of ik fn "flat_entries depth r (d + 1) v"]
      by (auto simp: flat_unfold Let_def prod_eq_iff split: prod.splits)
  qed
qed

lemma flatten_iterate_entries:
  "flatten_iterate depth ik it fn r s =
     (case visit (rekeyed ik (flat_entries depth r 0 it)) fn s of (s', n) \<Rightarrow> (s', if ik = None then 0 else n))"
proof -
  have "flatDeep depth ik r fn it 0 (s, 0, False) = fst (run_until (leaf_step ik fn) (flat_entries depth r 0 it) (s, 0, False))"
    by (rule flatDeep_run) simp
  then show ?thesis unfolding flatten_iterate_def leaf_run by (simp add: rekey_from_rekeyed case_prod_beta')
qed

section \<open>flatten: stepping\<close>

fun flat_item :: "(nat \<Rightarrow> 'k) option \<Rightarrow> nat \<Rightarrow> ('k, 'v) item \<Rightarrow> ('k, 'v) item" where
  \<comment> \<open>\<open>useKeys ? step : iteratorValue(type, iterations++, v, step)\<close>\<close>
  "flat_item None i item = item"
| "flat_item (Some f) i (KeyItem k) = KeyItem (f i)"
| "flat_item (Some f) i (ValueItem v) = ValueItem v"
| "flat_item (Some f) i (EntryItem k v) = EntryItem (f i) v"

lemma flat_item_as [simp]: "flat_item ik i (as_item type k v) = as_item type (key_at ik k i) v"
  by (cases ik; cases type) simp_all

partial_function (option) flatten_next ::
  "nat \<Rightarrow> (nat \<Rightarrow> 'k) option \<Rightarrow> (('k, 'v) item, 'st) stepper \<Rightarrow> (('k, 'v) item \<Rightarrow> 'st option) \<Rightarrow>
     'st option \<times> 'st list \<times> nat \<Rightarrow> (('k, 'v) item step \<times> 'st option \<times> 'st list \<times> nat) option" where
  \<comment> \<open>the state is \<open>iterator\<close>, \<open>stack\<close> (its top first) and \<open>iterations\<close>; \<open>opens\<close> tests whether what the step
    holds in the place of a value is an iterable, and gives its iterator. For \<open>KEYS\<close> that is the key.\<close>
  "flatten_next depth indexKey nxt opens p =
     (case p of (iterator, stack, iterations) \<Rightarrow>
        case iterator of
          None \<Rightarrow> Some (iteratorDone, (None, stack, iterations))
        | Some st \<Rightarrow>
            Option.bind (nxt st) (\<lambda>(step, st').
              if step_done step
              then flatten_next depth indexKey nxt opens (nth_opt stack 0, tl stack, iterations)
              else (case step_value step of
                      None \<Rightarrow> None
                    | Some item \<Rightarrow>
                        (case (if depth = 0 \<or> length stack < depth then opens item else None) of
                           Some inner \<Rightarrow> flatten_next depth indexKey nxt opens (Some inner, st' # stack, iterations)
                         | None \<Rightarrow>
                             Some (Step (Some (flat_item indexKey iterations item)) False,
                               (Some st', stack, if indexKey = None then iterations else iterations + 1))))))"

declare flatten_next.simps [code]

definition opens_nested ::
  "(('k, ('k, 'v) nest) item, 'st) stepper \<Rightarrow> (('k, ('k, 'v) nest) item \<Rightarrow> 'st option) \<Rightarrow> iter_type \<Rightarrow> bool \<Rightarrow> bool" where
  \<comment> \<open>the iterators of the iterable values deliver their entries\<close>
  "opens_nested nxt opens type r \<longleftrightarrow>
     (\<forall>k v. opens (as_item type k (Leaf v)) = None) \<and>
     (\<forall>k fw bw. \<exists>st. opens (as_item type k (Nested fw bw)) = Some st \<and> yields nxt st (items type (if r then bw else fw)))"

fun pending_flat :: "nat \<Rightarrow> bool \<Rightarrow> ('k \<times> ('k, 'v) nest) list list \<Rightarrow> ('k \<times> ('k, 'v) nest) list" where
  "pending_flat depth r [] = []"
| "pending_flat depth r (es # ess) = concat (map (flat depth r (length ess)) es) @ pending_flat depth r ess"

definition flat_weight :: "('k \<times> ('k, 'v) nest) list list \<Rightarrow> nat" where
  "flat_weight ess = sum_list (map (\<lambda>es. Suc (size_list (size_prod (\<lambda>_. 0) size) es)) ess)"

lemma opened:
  assumes "opens_nested nxt opens type r"
  shows "isNested v \<Longrightarrow> \<exists>st. opens (as_item type k v) = Some st \<and> yields nxt st (items type (nest_entries r v))"
    and "\<not> isNested v \<Longrightarrow> opens (as_item type k v) = None"
  using assms by (cases v; simp add: opens_nested_def)+

lemma size_nest_entries: "isNested v \<Longrightarrow> size_list (size_prod (\<lambda>_. 0) size) (nest_entries r v) < size v"
  by (cases v) auto

definition flat_state :: "'st list \<Rightarrow> nat \<Rightarrow> 'st option \<times> 'st list \<times> nat" where
  "flat_state sts i = (nth_opt sts 0, tl sts, i)"

lemma yields_same: "nxt st = nxt st' \<Longrightarrow> yields nxt st' xs \<Longrightarrow> yields nxt st xs"
  using yields_at [of nxt st st' xs] by iprover

lemma flatten_yields:
  assumes "opens_nested nxt opens type r"
    and "list_all2 (\<lambda>st es. yields nxt st (items type es)) sts ess"
  shows "yields (flatten_next depth ik nxt opens) (flat_state sts i) (items type (rekey_from ik i (pending_flat depth r ess)))"
  using assms(2)
proof (induction "flat_weight ess" arbitrary: ess sts i rule: less_induct)
  case less
  let ?nx = "flatten_next depth ik nxt opens"
  show ?case
  proof (cases ess)
    case Nil
    have "exhausted ?nx (None, [], i)"
      by (rule exhaustedI [of "\<lambda>p. fst p = None"]) (auto simp: flatten_next.simps iteratorDone_def)
    then show ?thesis using less.prems Nil by (simp add: flat_state_def nth_opt_def)
  next
    case (Cons es rest)
    then obtain st stack where sts: "sts = st # stack" "yields nxt st (items type es)"
        "list_all2 (\<lambda>st es. yields nxt st (items type es)) stack rest"
      using less.prems by (auto simp: list_all2_Cons2)
    note ess = Cons
    have len: "length stack = length rest" using sts(3) by (rule list_all2_lengthD)
    show ?thesis
    proof (cases es)
      case Nil
      then obtain v st' where st': "nxt st = Some (Step v True, st')" using sts(2) by (auto elim: exhausted_E)
      have "?nx (flat_state sts i) = ?nx (flat_state stack i)"
        by (subst flatten_next.simps) (simp add: flat_state_def sts(1) nth_opt_def st')
      moreover have "yields ?nx (flat_state stack i) (items type (rekey_from ik i (pending_flat depth r rest)))"
        by (rule less.hyps) (use Cons sts(3) in \<open>simp_all add: flat_weight_def\<close>)
      ultimately have "yields ?nx (flat_state sts i) (items type (rekey_from ik i (pending_flat depth r rest)))"
        by (rule yields_same)
      then show ?thesis by (simp add: ess Nil)
    next
      case (Cons e es')
      obtain k v where e: "e = (k, v)" by force
      obtain st' where st': "nxt st = Some (Step (Some (as_item type k v)) False, st')" "yields nxt st' (items type es')"
        using sts(2) by (auto simp: Cons e)
      show ?thesis
      proof (cases "(depth = 0 \<or> length rest < depth) \<and> isNested v")
        case True
        then obtain inner where inner: "opens (as_item type k v) = Some inner" "yields nxt inner (items type (nest_entries r v))"
          using opened(1) [OF assms(1)] by blast
        have "?nx (flat_state sts i) = ?nx (flat_state (inner # st' # stack) i)"
          using True by (subst flatten_next.simps) (simp add: flat_state_def sts(1) nth_opt_def st' inner len)
        moreover have "yields ?nx (flat_state (inner # st' # stack) i)
            (items type (rekey_from ik i (pending_flat depth r (nest_entries r v # es' # rest))))"
          by (rule less.hyps)
            (use True size_nest_entries [of v r] sts(3) st' inner in \<open>simp_all add: flat_weight_def ess Cons e\<close>)
        ultimately have "yields ?nx (flat_state sts i)
            (items type (rekey_from ik i (pending_flat depth r (nest_entries r v # es' # rest))))"
          by (rule yields_same)
        moreover have "pending_flat depth r (nest_entries r v # es' # rest) = pending_flat depth r ess"
          using True by (simp add: ess Cons e flat_unfold flat_entries_def)
        ultimately show ?thesis by simp
      next
        case False
        then have "(if depth = 0 \<or> length stack < depth then opens (as_item type k v) else None) = None"
          using opened(2) [OF assms(1)] len by auto
        then have "?nx (flat_state sts i) = Some (Step (Some (as_item type (key_at ik k i) v)) False,
            flat_state (st' # stack) (if ik = None then i else i + 1))"
          by (subst flatten_next.simps) (simp add: flat_state_def sts(1) nth_opt_def st')
        moreover have "yields ?nx (flat_state (st' # stack) j) (items type (rekey_from ik j (pending_flat depth r (es' # rest))))" for j
          by (rule less.hyps) (use sts(3) st' in \<open>simp_all add: flat_weight_def ess Cons e\<close>)
        moreover have "pending_flat depth r ess = (k, v) # pending_flat depth r (es' # rest)"
          using False by (auto simp: ess Cons e flat_unfold)
        ultimately show ?thesis by (cases ik) simp_all
      qed
    qed
  qed
qed

lemma flatten_next_yields:
  assumes "opens_nested nxt opens type r" "yields nxt st (items type (nest_entries r it))"
  shows "yields (flatten_next depth ik nxt opens) (Some st, [], 0) (items type (rekeyed ik (flat_entries depth r 0 it)))"
  using flatten_yields [OF assms(1), of "[st]" "[nest_entries r it]" depth ik 0] assms(2)
  by (simp add: flat_state_def nth_opt_def rekey_from_rekeyed flat_entries_def)

end
