(* ===== verification/Seq_Combine.thy ===== *)
theory Seq_Combine
  imports Seq_Flatten
begin

text \<open>
  Sequences made of several sources, or of more than the source's own entries: \<open>concat\<close> and
  \<open>flatMap\<close> (by \<open>flatten(true)\<close>), \<open>interpose\<close> and \<open>zipWith\<close>.
\<close>

section \<open>concat and flatMap\<close>

datatype iter_kind = KeyedKind | IndexedKind | SetKind

record ('k, 'v) seqv =
  seq_kind :: iter_kind
  seq_size :: "nat option"   \<comment> \<open>\<open>None\<close> is \<open>undefined\<close>\<close>
  seq_fw :: "('k \<times> 'v) list"  \<comment> \<open>what it visits forwards\<close>
  seq_bw :: "('k \<times> 'v) list"  \<comment> \<open>what it visits backwards\<close>

datatype ('k, 'v) concat_result = SameIterable | Singleton "('k, 'v) seqv" | Concatenated "('k, 'v) seqv list" "nat option"

definition sum_sizes :: "('k, 'v) seqv list \<Rightarrow> nat option" where
  \<comment> \<open>the \<open>reduce\<close>: one unknown size makes the sum unknown\<close>
  "sum_sizes iters = fold (\<lambda>seq sum. Option.bind sum (\<lambda>n. map_option ((+) n) (seq_size seq))) iters (Some 0)"

definition concatFactory :: "('k, 'v) seqv \<Rightarrow> ('k, 'v) seqv list \<Rightarrow> ('k, 'v) concat_result" where
  \<comment> \<open>the values are already coerced to iterables\<close>
  "concatFactory iterable values =
     (let others = filter (\<lambda>v. seq_size v \<noteq> Some 0) values;
          kept = seq_size iterable \<noteq> Some 0;
          iters = (if kept then iterable # others else others)
      in if iters = [] then SameIterable
         else if length iters = 1 \<and> kept then SameIterable
         else if length iters = 1 \<and>
              (seq_kind iterable = KeyedKind \<and> seq_kind (hd iters) = KeyedKind \<or>
               seq_kind iterable = IndexedKind \<and> seq_kind (hd iters) = IndexedKind) then Singleton (hd iters)
         else Concatenated iters (sum_sizes iters))"

definition nest_seq :: "('k, 'v) seqv \<Rightarrow> ('k, 'v) nest" where
  "nest_seq seq = Nested (map (\<lambda>(k, v). (k, Leaf v)) (seq_fw seq)) (map (\<lambda>(k, v). (k, Leaf v)) (seq_bw seq))"

definition array_of_seqs :: "(nat \<Rightarrow> 'k) \<Rightarrow> ('k, 'v) seqv list \<Rightarrow> ('k, 'v) nest" where
  \<comment> \<open>\<open>new ArraySeq(iters)\<close>\<close>
  "array_of_seqs key iters =
     Nested (map (\<lambda>(i, seq). (key i, nest_seq seq)) (indexed iters)) (map (\<lambda>(i, seq). (key i, nest_seq seq)) (indexed (rev iters)))"

definition concat_iterate ::
  "(nat \<Rightarrow> 'k) \<Rightarrow> iter_kind \<Rightarrow> ('k, 'v) seqv list \<Rightarrow> ('k, ('k, 'v) nest, 's) iterate" where
  \<comment> \<open>\<open>concatSeq.flatten(true)\<close>, which numbers the entries of an indexed sequence\<close>
  "concat_iterate key kind iters =
     flatten_iterate 1 (if kind = IndexedKind then Some key else None) (array_of_seqs key iters)"

definition flatMap_iterate ::
  "(nat \<Rightarrow> 'k) option \<Rightarrow> ('v \<Rightarrow> 'k \<Rightarrow> ('k, 'w) seqv) \<Rightarrow> ('k, 'v) seqv \<Rightarrow> ('k, ('k, 'w) nest, 's) iterate" where
  "flatMap_iterate indexKey mapper seq =
     flatten_iterate 1 indexKey
       (Nested (map (\<lambda>(k, v). (k, nest_seq (mapper v k))) (seq_fw seq)) (map (\<lambda>(k, v). (k, nest_seq (mapper v k))) (seq_bw seq)))"

lemma flat_depth1: "flat (Suc 0) r 0 (k, nest_seq seq) = map (\<lambda>(k, v). (k, Leaf v)) (if r then seq_bw seq else seq_fw seq)"
proof -
  have "concat (map (flat (Suc 0) r (Suc 0)) (map (\<lambda>(k, v). (k, Leaf v)) es)) = map (\<lambda>(k, v). (k, Leaf v)) es"
    for es :: "('a \<times> 'b) list"
    by (induction es) (auto simp: flat_unfold)
  then show ?thesis by (auto simp: flat_unfold flat_entries_def nest_seq_def simp del: map_map)
qed

lemma map_indexed_snd: "map (\<lambda>(i, x). f x) (indexed xs) = map f xs"
proof -
  have "map (\<lambda>(i, x). f x) (indexed xs) = map f (map snd (indexed xs))" by (simp only: map_map o_def case_prod_beta')
  then show ?thesis by simp
qed

lemma concat_entries:
  fixes iters :: "('k, 'v) seqv list"
  shows "flat_entries (Suc 0) r 0 (array_of_seqs key iters) =
     map (\<lambda>(k, v). (k, Leaf v)) (concat (map (\<lambda>seq. if r then seq_bw seq else seq_fw seq) (directed r iters)))"
  using map_indexed_snd [of "\<lambda>seq. map (\<lambda>(k, v). (k, Leaf v :: ('k, 'v) nest)) (if r then seq_bw seq else seq_fw seq)" "directed r iters"]
  by (cases r) (simp_all add: flat_entries_def array_of_seqs_def o_def case_prod_beta' flat_depth1 map_concat)

lemma flatMap_entries:
  "flat_entries (Suc 0) r 0 (Nested (map (\<lambda>(k, v). (k, nest_seq (f v k))) fw) (map (\<lambda>(k, v). (k, nest_seq (f v k))) bw)) =
     map (\<lambda>(k, v). (k, Leaf v)) (concat (map (\<lambda>(k, v). if r then seq_bw (f v k) else seq_fw (f v k)) (if r then bw else fw)))"
  by (simp add: flat_entries_def o_def case_prod_beta' flat_depth1 map_concat)

lemma sum_sizes_None: "fold (\<lambda>seq sum. Option.bind sum (\<lambda>n. map_option ((+) n) (seq_size seq))) iters None = None"
  by (induction iters) simp_all

lemma sum_sizes_known:
  assumes "\<And>seq. seq \<in> set iters \<Longrightarrow> seq_size seq = Some (length (seq_fw seq))"
  shows "sum_sizes iters = Some (length (concat (map seq_fw iters)))"
proof -
  have "fold (\<lambda>seq sum. Option.bind sum (\<lambda>n. map_option ((+) n) (seq_size seq))) iters (Some n) =
      Some (n + length (concat (map seq_fw iters)))" for n
    using assms by (induction iters arbitrary: n) (auto simp: add.assoc)
  then show ?thesis by (simp add: sum_sizes_def)
qed

lemma sum_sizes_unknown:
  assumes "seq \<in> set iters" "seq_size seq = None"
  shows "sum_sizes iters = None"
proof -
  have "fold (\<lambda>seq sum. Option.bind sum (\<lambda>n. map_option ((+) n) (seq_size seq))) iters sum = None" for sum
    using assms by (induction iters arbitrary: sum) (auto simp: sum_sizes_None)
  then show ?thesis by (simp add: sum_sizes_def)
qed

section \<open>interpose\<close>

definition interpose_visitor :: "'v \<Rightarrow> (nat, 'v, 's) visitor \<Rightarrow> ('k, 'v, 's \<times> nat) visitor" where
  "interpose_visitor separator fn = (\<lambda>v k (s, iterations).
     let ((s1, i1), stop1) =
           (if iterations = 0 then ((s, iterations), False)
            else (case fn separator iterations s of (s', stop) \<Rightarrow> ((s', iterations + 1), stop)))
     in if stop1 then ((s1, i1), True)
        else (case fn v i1 s1 of (s', stop) \<Rightarrow> ((s', i1 + 1), stop)))"

definition interpose_iterate :: "'v \<Rightarrow> ('k, 'v, 's \<times> nat) iterate \<Rightarrow> (nat, 'v, 's) iterate" where
  "interpose_iterate separator it fn reverse s = fst (it (interpose_visitor separator fn) reverse (s, 0))"

definition interpose_size :: "nat option \<Rightarrow> nat option" where
  \<comment> \<open>\<open>size && size * 2 - 1\<close>\<close>
  "interpose_size n = (case n of None \<Rightarrow> None | Some n \<Rightarrow> if n = 0 then Some 0 else Some (n * 2 - 1))"

definition interpose_next ::
  "'v \<Rightarrow> ('v, 'st) stepper \<Rightarrow> iter_type \<Rightarrow> ((nat, 'v) item, 'st \<times> 'v step option \<times> nat) stepper" where
  \<comment> \<open>the state adds the held \<open>step\<close> and \<open>iterations\<close>; a held step may be the
    last one of an empty source, and is then handed out again, still \<open>done\<close>\<close>
  "interpose_next separator nxt type = (\<lambda>(st, held, iterations).
     let emit = (\<lambda>step st.
           if iterations mod 2 = 1 then Some (iteratorValue type iterations separator, (st, Some step, iterations + 1))
           else (case step_value step of
                   None \<Rightarrow> if step_done step then Some (pass_done step, (st, Some step, iterations + 1)) else None
                 | Some v \<Rightarrow> Some (iteratorReuse type iterations v step, (st, Some step, iterations + 1))))
     in case held of
          Some step \<Rightarrow>
            if iterations mod 2 = 1
            then Option.bind (nxt st) (\<lambda>(step, st'). if step_done step then Some (pass_done step, (st', Some step, iterations)) else emit step st')
            else emit step st
        | None \<Rightarrow>
            Option.bind (nxt st) (\<lambda>(step, st'). if step_done step then Some (pass_done step, (st', Some step, iterations)) else emit step st'))"

fun interposed :: "'v \<Rightarrow> 'v list \<Rightarrow> 'v list" where
  "interposed sep [] = []"
| "interposed sep [x] = [x]"
| "interposed sep (x # y # xs) = x # sep # interposed sep (y # xs)"

definition sep_before :: "'v \<Rightarrow> 'v list \<Rightarrow> 'v list" where
  "sep_before sep xs = concat (map (\<lambda>x. [sep, x]) xs)"

lemma interposed_Cons: "interposed sep (x # xs) = x # sep_before sep xs"
  by (induction xs arbitrary: x) (simp_all add: sep_before_def)

lemma length_interposed: "length (interposed sep xs) = (if xs = [] then 0 else 2 * length xs - 1)"
  by (induction sep xs rule: interposed.induct) auto

definition numbered :: "nat \<Rightarrow> 'v list \<Rightarrow> (nat \<times> 'v) list" where
  "numbered i xs = zip [i..<i + length xs] xs"

lemma numbered_simps [simp]: "numbered i [] = []" "numbered i (x # xs) = (i, x) # numbered (Suc i) xs"
  by (simp_all add: numbered_def upt_conv_Cons del: upt_Suc)

lemma numbered_0: "numbered 0 xs = indexed xs"
  by (simp add: numbered_def indexed_def)

lemma interpose_visit_after:
  "0 < i \<Longrightarrow> fst (visit es (interpose_visitor sep fn) (s, i)) =
     (case visit (numbered i (sep_before sep (map snd es))) fn s of (s', n) \<Rightarrow> (s', i + n))"
proof (induction es arbitrary: s i)
  case (Cons e es)
  obtain k v where e: "e = (k, v)" by force
  obtain s1 b1 where f1: "fn sep i s = (s1, b1)" by force
  obtain s2 b2 where f2: "fn v (Suc i) s1 = (s2, b2)" by force
  have F: "interpose_visitor sep fn v k (s, i) = (if b1 then ((s1, i + 1), True) else ((s2, i + 2), b2))"
    using Cons.prems by (simp add: interpose_visitor_def f1 f2)
  show ?case using Cons.IH [of "i + 2" s2]
    by (cases b1; cases b2) (auto simp: e F f1 f2 sep_before_def split: prod.splits)
qed (simp add: sep_before_def)

lemma interpose_delivers:
  assumes "delivers it r es"
  shows "delivers (interpose_iterate sep it) r (indexed (interposed sep (map snd es)))"
proof (rule deliversI)
  fix fn s
  show "interpose_iterate sep it fn r s = visit (indexed (interposed sep (map snd es))) fn s"
  proof (cases es)
    case (Cons e es')
    obtain k v where e: "e = (k, v)" by force
    obtain s1 b1 where f1: "fn v 0 s = (s1, b1)" by force
    have F: "interpose_visitor sep fn v k (s, 0) = ((s1, 1), b1)" by (simp add: interpose_visitor_def f1)
    have ix: "indexed (interposed sep (map snd es)) = (0, v) # numbered 1 (sep_before sep (map snd es'))"
      by (simp add: Cons e interposed_Cons numbered_0 [symmetric])
    show ?thesis unfolding ix using interpose_visit_after [of 1 es' sep fn s1]
      by (cases b1) (auto simp: interpose_iterate_def deliversD [OF assms] Cons e F f1 split: prod.splits)
  qed (simp add: interpose_iterate_def deliversD [OF assms])
qed

lemma interpose_yields_after:
  "yields nxt st xs \<Longrightarrow> odd i \<Longrightarrow>
   yields (interpose_next sep nxt type) (st, Some h, i) (items type (numbered i (sep_before sep xs)))"
proof (induction xs arbitrary: st h i)
  case Nil
  have "exhausted (interpose_next sep nxt type) (st, Some h, i)"
  proof (rule exhaustedI [of "\<lambda>(st, held, i). exhausted nxt st \<and> held \<noteq> None \<and> odd i"])
    fix p :: "'a \<times> 'b step option \<times> nat" assume "case p of (st, held, i) \<Rightarrow> exhausted nxt st \<and> held \<noteq> None \<and> odd i"
    then obtain s h' j v s' where "p = (s, Some h', j)" "odd j" "nxt s = Some (Step v True, s')" "exhausted nxt s'"
      by (auto elim: exhausted_E)
    then show "\<exists>v p'. interpose_next sep nxt type p = Some (Step v True, p') \<and>
        (case p' of (st, held, i) \<Rightarrow> exhausted nxt st \<and> held \<noteq> None \<and> odd i)"
      by (simp add: interpose_next_def pass_done_def odd_iff_mod_2_eq_one)
  qed (use Nil in simp)
  then show ?case by (simp add: sep_before_def)
next
  case (Cons x xs)
  then obtain st' where st': "nxt st = Some (Step (Some x) False, st')" "yields nxt st' xs" by auto
  have 1: "interpose_next sep nxt type (st, Some h, i) =
      Some (Step (Some (as_item type i sep)) False, (st', Some (Step (Some x) False), i + 1))"
    using Cons.prems st' by (simp add: interpose_next_def odd_iff_mod_2_eq_one iteratorValue_def)
  have 2: "interpose_next sep nxt type (st', Some (Step (Some x) False), i + 1) =
      Some (Step (Some (as_item type (i + 1) x)) False, (st', Some (Step (Some x) False), i + 2))"
    using Cons.prems by (auto simp: interpose_next_def odd_iff_mod_2_eq_one)
  have 3: "yields (interpose_next sep nxt type) (st', Some (Step (Some x) False), i + 2)
      (items type (numbered (i + 2) (sep_before sep xs)))"
    using Cons.prems by (intro Cons.IH st') simp
  have n: "numbered i (sep_before sep (x # xs)) = (i, sep) # (i + 1, x) # numbered (i + 2) (sep_before sep xs)"
    by (simp add: sep_before_def)
  show ?case unfolding n using 1 2 3 by simp
qed

lemma interpose_yields:
  assumes "yields nxt st xs"
  shows "yields (interpose_next sep nxt type) (st, None, 0) (items type (indexed (interposed sep xs)))"
proof (cases xs)
  case Nil
  then obtain v st' where st': "nxt st = Some (Step v True, st')" "exhausted nxt st'" using assms by (auto elim: exhausted_E)
  have "exhausted (interpose_next sep nxt type) (st, None, 0)"
  proof (rule exhaustedI [of "\<lambda>(st, held, i). exhausted nxt st \<and> (case held of None \<Rightarrow> True | Some h \<Rightarrow> odd i \<or> step_done h)"])
    show "case (st, None, 0) of (st, held, i) \<Rightarrow> exhausted nxt st \<and> (case held of None \<Rightarrow> True | Some h \<Rightarrow> odd i \<or> step_done h)"
      using assms Nil by simp
    fix p :: "'a \<times> 'b step option \<times> nat"
    assume "case p of (st, held, i) \<Rightarrow> exhausted nxt st \<and> (case held of None \<Rightarrow> True | Some h \<Rightarrow> odd i \<or> step_done h)"
    then obtain s held j where p: "p = (s, held, j)" "exhausted nxt s" "case held of None \<Rightarrow> True | Some h \<Rightarrow> odd j \<or> step_done h"
      by auto
    obtain v s' where "nxt s = Some (Step v True, s')" "exhausted nxt s'" using p(2) by (auto elim: exhausted_E)
    with p show "\<exists>v p'. interpose_next sep nxt type p = Some (Step v True, p') \<and>
        (case p' of (st, held, i) \<Rightarrow> exhausted nxt st \<and> (case held of None \<Rightarrow> True | Some h \<Rightarrow> odd i \<or> step_done h))"
      by (cases held) (auto simp: interpose_next_def pass_done_def iteratorReuse_def odd_iff_mod_2_eq_one split: option.splits)
  qed
  then show ?thesis using Nil by simp
next
  case (Cons x xs')
  then obtain st' where st': "nxt st = Some (Step (Some x) False, st')" "yields nxt st' xs'" using assms by auto
  have "interpose_next sep nxt type (st, None, 0) = Some (Step (Some (as_item type 0 x)) False, (st', Some (Step (Some x) False), 1))"
    by (simp add: interpose_next_def st')
  then show ?thesis using interpose_yields_after [OF st'(2), of 1 sep type "Step (Some x) False"]
    by (simp add: Cons interposed_Cons numbered_0 [symmetric])
qed

section \<open>zipWith\<close>

fun next_all :: "('x, 'st) stepper \<Rightarrow> 'st list \<Rightarrow> ('x step list \<times> 'st list) option" where
  \<comment> \<open>\<open>iterators.map(i => i.next())\<close>: every iterator is moved, also when an earlier one is done\<close>
  "next_all nxt [] = Some ([], [])"
| "next_all nxt (st # sts) =
     Option.bind (nxt st) (\<lambda>(step, st').
       Option.bind (next_all nxt sts) (\<lambda>(steps, sts'). Some (step # steps, st' # sts')))"

definition zipWith_next ::
  "('v option list \<Rightarrow> 'w) \<Rightarrow> ('v, 'st) stepper \<Rightarrow> iter_type \<Rightarrow> ((nat, 'w) item, 'st list \<times> nat \<times> bool) stepper" where
  \<comment> \<open>the state is \<open>iterators\<close>, \<open>iterations\<close> and \<open>isDone\<close>\<close>
  "zipWith_next zipper nxt type = (\<lambda>(iterators, iterations, isDone).
     if isDone then Some (iteratorDone, (iterators, iterations, True))
     else Option.bind (next_all nxt iterators) (\<lambda>(steps, iterators').
       if list_ex step_done steps then Some (iteratorDone, (iterators', iterations, True))
       else Some (iteratorValue type iterations (zipper (map step_value steps)), (iterators', iterations + 1, False))))"

definition zipWith_iterate ::
  "('v option list \<Rightarrow> 'w) \<Rightarrow> ('v, 'st) stepper \<Rightarrow> 'st list \<Rightarrow> (nat, 'w, 's) visitor \<Rightarrow> 's \<Rightarrow> ('s \<times> nat) option" where
  \<comment> \<open>\<open>__iterate\<close> is the loop over the sequence's own iterator of values\<close>
  "zipWith_iterate zipper nxt iterators fn s =
     iterator_loop (zipWith_next zipper nxt VALUES)
       (\<lambda>item i s. case item of Some (ValueItem v) \<Rightarrow> fn v i s | _ \<Rightarrow> (s, True)) (iterators, 0, False) 0 s"

function zip_rows :: "'v list list \<Rightarrow> 'v option list list" where
  "zip_rows xss = (if xss = [] \<or> [] \<in> set xss then [] else map (\<lambda>xs. Some (hd xs)) xss # zip_rows (map tl xss))"
  by pat_completeness auto
termination
proof (relation "measure (\<lambda>xss. length (hd xss))")
  fix xss :: "'v list list" assume "\<not> (xss = [] \<or> [] \<in> set xss)"
  then show "(map tl xss, xss) \<in> measure (\<lambda>xss. length (hd xss))" by (cases xss) auto
qed simp

declare zip_rows.simps [simp del]

lemma zip_rows_nth: "i < length (zip_rows xss) \<Longrightarrow> zip_rows xss ! i = map (\<lambda>xs. Some (xs ! i)) xss"
proof (induction xss arbitrary: i rule: zip_rows.induct)
  case (1 xss)
  show ?case
  proof (cases "xss = [] \<or> [] \<in> set xss")
    case False
    have "tl xs ! j = xs ! Suc j" if "xs \<in> set xss" for xs j using that False by (metis list.exhaust list.sel(3) nth_Cons_Suc)
    moreover have "hd xs = xs ! 0" if "xs \<in> set xss" for xs using that False by (metis hd_conv_nth)
    ultimately show ?thesis using 1 False
      by (cases i) (auto simp: zip_rows.simps [of xss])
  qed (use 1(2) in \<open>simp add: zip_rows.simps\<close>)
qed

lemma next_all_values:
  assumes "list_all2 (yields nxt) sts xss" "[] \<notin> set xss"
  shows "\<exists>sts'. next_all nxt sts = Some (map (\<lambda>xs. Step (Some (hd xs)) False) xss, sts') \<and> list_all2 (yields nxt) sts' (map tl xss)"
  using assms
proof (induction sts xss rule: list_all2_induct)
  case (Cons st sts xs xss)
  then obtain x xs' st' where "xs = x # xs'" "nxt st = Some (Step (Some x) False, st')" "yields nxt st' xs'"
    by (cases xs) auto
  then show ?case using Cons by auto
qed simp

lemma next_all_done:
  assumes "list_all2 (yields nxt) sts xss" "[] \<in> set xss"
  shows "\<exists>steps sts'. next_all nxt sts = Some (steps, sts') \<and> list_ex step_done steps"
proof -
  have step: "\<exists>step st'. nxt st = Some (step, st') \<and> (xs = [] \<longrightarrow> step_done step)" if "yields nxt st xs" for st xs
    using that by (cases xs) (auto elim: exhausted_E)
  show ?thesis using assms(1) assms(2)
  proof (induction sts xss rule: list_all2_induct)
    case (Cons st sts xs xss)
    have "\<exists>steps sts'. next_all nxt sts = Some (steps, sts')"
      using Cons.hyps(2)
    proof (induction sts xss rule: list_all2_induct)
      case (Cons st sts xs xss)
      then show ?case using step [of st xs] by auto
    qed simp
    then show ?case using step [OF Cons.hyps(1)] Cons.IH Cons.prems by fastforce
  qed simp
qed

lemma zipWith_yields:
  assumes "list_all2 (yields nxt) sts xss" "xss \<noteq> []"
  shows "yields (zipWith_next zipper nxt type) (sts, i, False) (items type (numbered i (map zipper (zip_rows xss))))"
  using assms
proof (induction xss arbitrary: sts i rule: zip_rows.induct)
  case (1 xss)
  have done': "exhausted (zipWith_next zipper nxt type) (ss, j, True)" for ss j
    by (rule exhaustedI [of "\<lambda>p. snd (snd p)"]) (auto simp: zipWith_next_def iteratorDone_def)
  show ?case
  proof (cases "[] \<in> set xss")
    case True
    then obtain steps sts' where "next_all nxt sts = Some (steps, sts')" "list_ex step_done steps"
      using next_all_done [OF 1(2)] by blast
    then have "exhausted (zipWith_next zipper nxt type) (sts, i, False)"
      by (intro exhausted_step [OF _ done']) (auto simp: zipWith_next_def iteratorDone_def)
    then show ?thesis using True by (simp add: zip_rows.simps)
  next
    case False
    then obtain sts' where n: "next_all nxt sts = Some (map (\<lambda>xs. Step (Some (hd xs)) False) xss, sts')"
        "list_all2 (yields nxt) sts' (map tl xss)"
      using next_all_values [OF 1(2)] by blast
    have "\<not> list_ex step_done (map (\<lambda>xs. Step (Some (hd xs)) False) xss)" by (simp add: list_ex_iff)
    then have "zipWith_next zipper nxt type (sts, i, False) =
        Some (Step (Some (as_item type i (zipper (map (\<lambda>xs. Some (hd xs)) xss)))) False, (sts', Suc i, False))"
      using n(1) by (simp add: zipWith_next_def iteratorValue_def o_def)
    moreover have "yields (zipWith_next zipper nxt type) (sts', Suc i, False) (items type (numbered (Suc i) (map zipper (zip_rows (map tl xss)))))"
      using False 1(3) by (intro 1(1) n(2)) auto
    moreover have "zip_rows xss = map (\<lambda>xs. Some (hd xs)) xss # zip_rows (map tl xss)"
      using False 1(3) by (simp add: zip_rows.simps [of xss])
    ultimately show ?thesis by simp
  qed
qed

end
