(* ===== verification/Seq_Reads.thy ===== *)
theory Seq_Reads
  imports Seq_Combine JS_Value "HOL-Library.Multiset"
begin

text \<open>
  The methods that \<open>mixin\<close> gives every iterable of \<open>static/drf-yasg/immutable.js\<close>: what they read
  with \<open>__iterate\<close>, and the slices they are made of. A method takes the \<open>__iterate\<close> of its
  receiver at the state its visitor needs. \<open>is'\<close> stands for the equality \<open>is\<close> of \<open>JS_Value\<close>.
  \<open>assertNotInfinite\<close> rejects an infinite receiver before the iteration.
\<close>

section \<open>Quantifiers and folds\<close>

definition assertNotInfinite :: "jsnum option \<Rightarrow> 'a \<Rightarrow> 'a option" where
  \<comment> \<open>\<open>None\<close> is the thrown error\<close>
  "assertNotInfinite size' a = (if size' = Some PosInf then None else Some a)"

definition iter_every :: "('v \<Rightarrow> 'k \<Rightarrow> bool) \<Rightarrow> ('k, 'v, bool) iterate \<Rightarrow> bool" where
  "iter_every predicate it = fst (it (\<lambda>v k returnValue. if \<not> predicate v k then (False, True) else (returnValue, False)) False True)"

definition iter_some :: "('v \<Rightarrow> 'k \<Rightarrow> bool) \<Rightarrow> ('k, 'v, bool) iterate \<Rightarrow> bool" where
  "iter_some predicate it = (\<not> iter_every (\<lambda>v k. \<not> predicate v k) it)"

definition iter_includes :: "('v \<Rightarrow> 'v \<Rightarrow> bool) \<Rightarrow> 'v \<Rightarrow> ('k, 'v, bool) iterate \<Rightarrow> bool" where
  "iter_includes is' searchValue it = iter_some (\<lambda>v _. is' v searchValue) it"

definition iter_isSubset :: "('v \<Rightarrow> bool) \<Rightarrow> ('k, 'v, bool) iterate \<Rightarrow> bool" where
  \<comment> \<open>the first argument is \<open>includes\<close> of the other iterable\<close>
  "iter_isSubset includes it = iter_every (\<lambda>v _. includes v) it"

definition iter_reduce :: "('v \<Rightarrow> 'v \<Rightarrow> 'k \<Rightarrow> 'v) \<Rightarrow> ('k, 'v, 'v option) iterate \<Rightarrow> 'v option" where
  \<comment> \<open>without an initial reduction: \<open>useFirst\<close> holds as long as the state is \<open>None\<close>\<close>
  "iter_reduce reducer it =
     fst (it (\<lambda>v k red. (case red of None \<Rightarrow> Some v | Some reduction \<Rightarrow> Some (reducer reduction v k), False)) False None)"

definition iter_reduce_from :: "('r \<Rightarrow> 'v \<Rightarrow> 'k \<Rightarrow> 'r) \<Rightarrow> 'r \<Rightarrow> ('k, 'v, 'r) iterate \<Rightarrow> 'r" where
  "iter_reduce_from reducer initialReduction it = fst (it (\<lambda>v k reduction. (reducer reduction v k, False)) False initialReduction)"

definition iter_reduceRight :: "('v \<Rightarrow> 'v \<Rightarrow> 'k \<Rightarrow> 'v) \<Rightarrow> ('k, 'v, 'v option) iterate \<Rightarrow> 'v option" where
  "iter_reduceRight reducer it = iter_reduce reducer (reverse_iterate it)"

definition iter_join :: "('v \<Rightarrow> jsstring option) \<Rightarrow> jsstring option \<Rightarrow> ('k, 'v, jsstring \<times> bool) iterate \<Rightarrow> jsstring" where
  \<comment> \<open>the first argument gives \<open>v.toString()\<close>, \<open>None\<close> for \<open>null\<close> and \<open>undefined\<close>\<close>
  "iter_join str separator it =
     (let separator = (case separator of None \<Rightarrow> js_str '','' | Some s \<Rightarrow> s)
      in fst (fst (it (\<lambda>v _ (joined, isFirst).
           (((if isFirst then joined else joined @ separator) @ (case str v of None \<Rightarrow> [] | Some s \<Rightarrow> s), False), False)) False ([], True))))"

definition iter_count :: "nat option \<Rightarrow> ('k, 'v, unit) iterate \<Rightarrow> nat" where
  \<comment> \<open>\<open>ensureSize\<close>: a known size is answered, otherwise the number of calls of \<open>returnTrue\<close>\<close>
  "iter_count size' it = (case size' of Some n \<Rightarrow> n | None \<Rightarrow> snd (it (\<lambda>_ _ u. (u, False)) False ()))"

definition iter_isEmpty :: "nat option \<Rightarrow> ('k, 'v, bool) iterate \<Rightarrow> bool" where
  "iter_isEmpty size' it = (case size' of Some n \<Rightarrow> n = 0 | None \<Rightarrow> \<not> iter_some (\<lambda>_ _. True) it)"

section \<open>Searches\<close>

definition iter_findEntry :: "('v \<Rightarrow> 'k \<Rightarrow> bool) \<Rightarrow> ('k \<times> 'v) option \<Rightarrow> ('k, 'v, ('k \<times> 'v) option) iterate \<Rightarrow> ('k \<times> 'v) option" where
  "iter_findEntry predicate notSet it =
     fst (it (\<lambda>v k found. if predicate v k then (Some (k, v), True) else (found, False)) False notSet)"

definition iter_find :: "('v \<Rightarrow> 'k \<Rightarrow> bool) \<Rightarrow> 'v option \<Rightarrow> ('k, 'v, ('k \<times> 'v) option) iterate \<Rightarrow> 'v option" where
  "iter_find predicate notSet it = (case iter_findEntry predicate None it of Some entry \<Rightarrow> Some (snd entry) | None \<Rightarrow> notSet)"

definition iter_findKey :: "('v \<Rightarrow> 'k \<Rightarrow> bool) \<Rightarrow> ('k, 'v, ('k \<times> 'v) option) iterate \<Rightarrow> 'k option" where
  "iter_findKey predicate it = map_option fst (iter_findEntry predicate None it)"

definition iter_findLastEntry :: "('v \<Rightarrow> 'k \<Rightarrow> bool) \<Rightarrow> ('k \<times> 'v) option \<Rightarrow> ('k, 'v, ('k \<times> 'v) option) iterate \<Rightarrow> ('k \<times> 'v) option" where
  "iter_findLastEntry predicate notSet it = iter_findEntry predicate notSet (reverse_iterate it)"

definition iter_findLast :: "('v \<Rightarrow> 'k \<Rightarrow> bool) \<Rightarrow> 'v option \<Rightarrow> ('k, 'v, ('k \<times> 'v) option) iterate \<Rightarrow> 'v option" where
  "iter_findLast predicate notSet it = iter_find predicate notSet (reverse_iterate it)"

definition iter_findLastKey :: "('v \<Rightarrow> 'k \<Rightarrow> bool) \<Rightarrow> ('k, 'v, ('k \<times> 'v) option) iterate \<Rightarrow> 'k option" where
  "iter_findLastKey predicate it = iter_findKey predicate (reverse_iterate it)"

definition iter_keyOf :: "('v \<Rightarrow> 'v \<Rightarrow> bool) \<Rightarrow> 'v \<Rightarrow> ('k, 'v, ('k \<times> 'v) option) iterate \<Rightarrow> 'k option" where
  "iter_keyOf is' searchValue it = iter_findKey (\<lambda>v _. is' v searchValue) it"

definition iter_lastKeyOf :: "('v \<Rightarrow> 'v \<Rightarrow> bool) \<Rightarrow> 'v \<Rightarrow> ('k, 'v, ('k \<times> 'v) option) iterate \<Rightarrow> 'k option" where
  "iter_lastKeyOf is' searchValue it = iter_keyOf is' searchValue (reverse_iterate it)"

definition iter_first :: "('k, 'v, ('k \<times> 'v) option) iterate \<Rightarrow> 'v option" where
  "iter_first it = iter_find (\<lambda>_ _. True) None it"

definition iter_last :: "('k, 'v, ('k \<times> 'v) option) iterate \<Rightarrow> 'v option" where
  "iter_last it = iter_first (reverse_iterate it)"

definition iter_get :: "('k \<Rightarrow> 'k \<Rightarrow> bool) \<Rightarrow> 'k \<Rightarrow> 'v option \<Rightarrow> ('k, 'v, ('k \<times> 'v) option) iterate \<Rightarrow> 'v option" where
  "iter_get is' searchKey notSet it = iter_find (\<lambda>_ key. is' key searchKey) notSet it"

definition iter_has :: "('k \<Rightarrow> 'k \<Rightarrow> bool) \<Rightarrow> 'k \<Rightarrow> ('k, 'v, ('k \<times> 'v) option) iterate \<Rightarrow> bool" where
  "iter_has is' searchKey it = (iter_get is' searchKey None it \<noteq> None)"

section \<open>Indexed iterables\<close>

definition indexed_findIndex :: "('v \<Rightarrow> nat \<Rightarrow> bool) \<Rightarrow> (nat, 'v, (nat \<times> 'v) option) iterate \<Rightarrow> int" where
  "indexed_findIndex predicate it = (case iter_findEntry predicate None it of Some entry \<Rightarrow> int (fst entry) | None \<Rightarrow> -1)"

definition indexed_indexOf :: "('v \<Rightarrow> 'v \<Rightarrow> bool) \<Rightarrow> 'v \<Rightarrow> (nat, 'v, (nat \<times> 'v) option) iterate \<Rightarrow> int" where
  "indexed_indexOf is' searchValue it = (case iter_keyOf is' searchValue it of Some key \<Rightarrow> int key | None \<Rightarrow> -1)"

definition indexed_get :: "nat option \<Rightarrow> (nat, 'v, unit) iterate \<Rightarrow> int \<Rightarrow> 'v option \<Rightarrow> (nat, 'v, (nat \<times> 'v) option) iterate \<Rightarrow> 'v option" where
  \<comment> \<open>on an iterable of finite or unknown size; a negative index counts the entries\<close>
  "indexed_get size' counting index notSet it =
     (let known = (if index < 0 then Some (iter_count size' counting) else size');
          index = (if index < 0 then int (iter_count size' counting) + index else index)
      in if index < 0 \<or> (case known of None \<Rightarrow> False | Some n \<Rightarrow> index > int n) then notSet
         else iter_find (\<lambda>_ key. int key = index) notSet it)"

definition indexed_has ::
  "('v \<Rightarrow> 'v \<Rightarrow> bool) \<Rightarrow> (int \<Rightarrow> 'v) \<Rightarrow> nat option \<Rightarrow> (nat, 'v, (nat \<times> 'v) option) iterate \<Rightarrow> int \<Rightarrow> bool" where
  \<comment> \<open>for a non-negative index (a negative one makes the size known first). When the size is unknown the
    code looks for the index among the \<^emph>\<open>values\<close>; \<open>num\<close> injects the index into them.\<close>
  "indexed_has is' num size' it index =
     (0 \<le> index \<and> (case size' of Some n \<Rightarrow> index < int n | None \<Rightarrow> indexed_indexOf is' (num index) it \<noteq> -1))"

section \<open>Conversions\<close>

definition array_assign :: "'a option list \<Rightarrow> nat \<Rightarrow> 'a \<Rightarrow> 'a option list" where
  \<comment> \<open>\<open>array[i] = v\<close>; a hole is \<open>None\<close>\<close>
  "array_assign arr i v = (if i < length arr then arr[i := Some v] else arr @ replicate (i - length arr) None @ [Some v])"

definition iter_toArray :: "nat option \<Rightarrow> ('k, 'v, 'v option list \<times> nat) iterate \<Rightarrow> 'v option list" where
  \<comment> \<open>through \<open>valueSeq\<close>, which numbers the values\<close>
  "iter_toArray size' it =
     fst (ToIndexed_iterate it (\<lambda>v i arr. (array_assign arr i v, False)) False
       (replicate (case size' of None \<Rightarrow> 0 | Some n \<Rightarrow> n) None))"

definition iter_toObject :: "('k \<Rightarrow> 'p) \<Rightarrow> ('k, 'v, 'p \<Rightarrow> 'v option) iterate \<Rightarrow> 'p \<Rightarrow> 'v option" where
  \<comment> \<open>the first argument converts a key to a property key\<close>
  "iter_toObject property it = fst (it (\<lambda>v k object'. (object'(property k \<mapsto> v), False)) False Map.empty)"

definition iter_keySeq :: "('k, 'v) seqv \<Rightarrow> (nat \<times> 'k) list" where
  \<comment> \<open>\<open>toSeq().map(keyMapper).toIndexedSeq()\<close>, forwards\<close>
  "iter_keySeq seq = indexed (map (\<lambda>(k, v). k) (seq_fw seq))"

definition iter_entrySeq :: "('k, 'v) seqv \<Rightarrow> (nat \<times> ('k \<times> 'v)) list" where
  "iter_entrySeq seq = indexed (map (\<lambda>(k, v). (k, v)) (seq_fw seq))"

section \<open>The hash of a collection\<close>

definition hash_entry :: "bool \<Rightarrow> bool \<Rightarrow> ('v \<Rightarrow> int32) \<Rightarrow> ('k \<Rightarrow> int32) \<Rightarrow> ('k, 'v, int32) visitor" where
  "hash_entry ordered keyed hash_v hash_k v k h =
     ((if keyed
       then (if ordered then 31 * h + hashMerge (hash_v v) (hash_k k) else h + hashMerge (hash_v v) (hash_k k))
       else (if ordered then 31 * h + hash_v v else h + hash_v v)), False)"

definition hashIterable ::
  "bool \<Rightarrow> bool \<Rightarrow> ('v \<Rightarrow> int32) \<Rightarrow> ('k \<Rightarrow> int32) \<Rightarrow> jsnum option \<Rightarrow> ('k, 'v, int32) iterate \<Rightarrow> int32" where
  "hashIterable ordered keyed hash_v hash_k size' it =
     (if size' = Some PosInf then 0
      else (case it (hash_entry ordered keyed hash_v hash_k) False (if ordered then 1 else 0) of
              (h, n) \<Rightarrow> murmurHashOfSize (of_nat n) h))"

section \<open>Slices by name\<close>

type_synonym slice_args = "jsnum option \<times> jsnum option"

definition butLast_args :: slice_args where "butLast_args = (Some (NumInt 0), Some (NumInt (-1)))"
definition rest_args :: slice_args where "rest_args = (Some (NumInt 1), None)"
definition skip_args :: "jsnum \<Rightarrow> slice_args" where "skip_args amount = (Some (num_max (NumInt 0) amount), None)"
definition take_args :: "jsnum \<Rightarrow> slice_args" where
  "take_args amount = (Some (NumInt 0), Some (num_max (NumInt 0) amount))"

definition slice_values :: "slice_args \<Rightarrow> 'v list \<Rightarrow> 'v list" where
  \<comment> \<open>the values of \<open>slice(begin, end)\<close> of an indexed sequence of known size\<close>
  "slice_values args xs =
     (case slice_bounds (fst args) (snd args) (Some (NumInt (int (length xs)))) of
        SliceFrom b n \<Rightarrow> take_size n (drop b xs)
      | _ \<Rightarrow> xs)"

definition takeLast_values :: "jsnum \<Rightarrow> 'v list \<Rightarrow> 'v list" where
  "takeLast_values amount xs = rev (slice_values (take_args amount) (rev xs))"

definition skipLast_values :: "jsnum \<Rightarrow> 'v list \<Rightarrow> 'v list" where
  "skipLast_values amount xs = rev (slice_values (skip_args amount) (rev xs))"

definition splice_values :: "nat \<Rightarrow> jsnum option \<Rightarrow> jsnum \<Rightarrow> 'v list \<Rightarrow> 'v list \<Rightarrow> 'v list" where
  \<comment> \<open>\<open>numArgs\<close>, \<open>index\<close>, \<open>removeNum\<close> and the inserted values, on a sequence of known size\<close>
  "splice_values numArgs index removeNum values xs =
     (let removeNum = num_max (NumInt32 (ToInt32 removeNum)) (NumInt 0)
      in if numArgs = 0 \<or> (numArgs = 2 \<and> removeNum = NumInt 0) then xs
         else (let index = resolveBegin index (Some (NumInt (int (length xs))));
                   spliced = slice_values (Some (NumInt 0), index) xs
               in if numArgs = 1 then spliced
                  else spliced @ values @ slice_values (map_option (\<lambda>i. num_add i removeNum) index, None) xs))"

section \<open>What the reads answer\<close>

lemma fst_visit_Cons:
  "fst (visit ((k, v) # es) fn s) = (if snd (fn v k s) then fst (fn v k s) else fst (visit es fn (fst (fn v k s))))"
  by (simp add: case_prod_beta')

lemma every_iff:
  assumes "delivers it False es"
  shows "iter_every p it = list_all (\<lambda>(k, v). p v k) es"
proof -
  have "fst (visit es (\<lambda>v k b. if \<not> p v k then (False, True) else (b, False)) True) = list_all (\<lambda>(k, v). p v k) es"
  proof (induction es)
    case (Cons e es)
    then show ?case by (cases e) (simp add: fst_visit_Cons del: visit.simps)
  qed simp
  then show ?thesis by (simp add: iter_every_def deliversD [OF assms])
qed

lemma some_iff: "delivers it False es \<Longrightarrow> iter_some p it = list_ex (\<lambda>(k, v). p v k) es"
  by (simp add: iter_some_def every_iff list_all_iff list_ex_iff case_prod_beta')

lemma includes_iff: "delivers it False es \<Longrightarrow> iter_includes is' x it = list_ex (\<lambda>v. is' v x) (map snd es)"
  by (simp add: iter_includes_def some_iff list_ex_iff case_prod_beta')

lemma findEntry_eq:
  assumes "delivers it False es"
  shows "iter_findEntry p notSet it = (case find (\<lambda>(k, v). p v k) es of Some e \<Rightarrow> Some e | None \<Rightarrow> notSet)"
proof -
  have "fst (visit es (\<lambda>v k found. if p v k then (Some (k, v), True) else (found, False)) notSet) =
      (case find (\<lambda>(k, v). p v k) es of Some e \<Rightarrow> Some e | None \<Rightarrow> notSet)"
  proof (induction es)
    case (Cons e es)
    then show ?case by (cases e) (simp add: fst_visit_Cons del: visit.simps)
  qed simp
  then show ?thesis by (simp add: iter_findEntry_def deliversD [OF assms])
qed

lemma find_eq:
  "delivers it False es \<Longrightarrow> iter_find p notSet it = (case find (\<lambda>(k, v). p v k) es of Some e \<Rightarrow> Some (snd e) | None \<Rightarrow> notSet)"
  by (simp add: iter_find_def findEntry_eq split: option.splits)

lemma findKey_eq: "delivers it False es \<Longrightarrow> iter_findKey p it = map_option fst (find (\<lambda>(k, v). p v k) es)"
  by (simp add: iter_findKey_def findEntry_eq split: option.splits)

lemma find_snd: "map_option snd (find (\<lambda>(k, v). p v) es) = find p (map snd es)"
  by (induction es) auto

lemma first_eq: "delivers it False es \<Longrightarrow> iter_first it = (case es of [] \<Rightarrow> None | e # _ \<Rightarrow> Some (snd e))"
  by (cases es) (auto simp: iter_first_def find_eq)

lemma last_eq: "delivers it True es \<Longrightarrow> iter_last it = (case es of [] \<Rightarrow> None | e # _ \<Rightarrow> Some (snd e))"
  unfolding iter_last_def by (rule first_eq) (simp add: reverse_delivers)

lemma find_mapped: "find P (map f xs) = map_option f (find (\<lambda>x. P (f x)) xs)"
  by (induction xs) auto

lemma indexed_map: "indexed xs = map (\<lambda>i. (i, xs ! i)) [0..<length xs]"
  by (rule nth_equalityI) (simp_all add: indexed_def)

lemma keyOf_indexed:
  "delivers it False (indexed xs) \<Longrightarrow> iter_keyOf is' x it = find (\<lambda>i. is' (xs ! i) x) [0..<length xs]"
  by (simp add: iter_keyOf_def findKey_eq indexed_map find_mapped option.map_comp o_def option.map_ident)

lemma reduce_eq: "delivers it False es \<Longrightarrow>
  iter_reduce f it = (case es of [] \<Rightarrow> None | e # es \<Rightarrow> Some (fold (\<lambda>(k, v) r. f r v k) es (snd e)))"
proof -
  assume "delivers it False es"
  moreover have "fold (\<lambda>(k, v) red. case red of None \<Rightarrow> Some v | Some r \<Rightarrow> Some (f r v k)) es (Some r) = Some (fold (\<lambda>(k, v) r. f r v k) es r)" for es r
    by (induction es arbitrary: r) auto
  ultimately show ?thesis
    by (cases es) (auto simp: iter_reduce_def deliversD visit_never case_prod_beta')
qed

lemma reduce_from_eq: "delivers it False es \<Longrightarrow> iter_reduce_from f r it = fold (\<lambda>(k, v) r. f r v k) es r"
  by (simp add: iter_reduce_from_def deliversD visit_never)

lemma count_eq: "delivers it False es \<Longrightarrow> iter_count None it = length es"
  by (simp add: iter_count_def deliversD visit_never)

lemma isEmpty_iff: "delivers it False es \<Longrightarrow> iter_isEmpty None it \<longleftrightarrow> es = []"
  by (cases es) (auto simp: iter_isEmpty_def some_iff)

lemma join_eq:
  assumes "delivers it False es"
  shows "iter_join str sep it =
    concat (interposed (case sep of None \<Rightarrow> js_str '','' | Some s \<Rightarrow> s) (map (\<lambda>(k, v). case str v of None \<Rightarrow> [] | Some s \<Rightarrow> s) es))"
proof -
  let ?sep = "case sep of None \<Rightarrow> js_str '','' | Some s \<Rightarrow> s" and ?str = "\<lambda>v. case str v of None \<Rightarrow> [] | Some s \<Rightarrow> s"
  let ?f = "\<lambda>(k, v) (joined, isFirst). ((if isFirst then joined else joined @ ?sep) @ ?str v, False)"
  have tail: "fst (fold ?f xs (acc, False)) = acc @ concat (sep_before ?sep (map (\<lambda>(k, v). ?str v) xs))" for acc xs
    by (induction xs arbitrary: acc) (auto simp: sep_before_def)
  have "fst (fold ?f es ([], True)) = concat (interposed ?sep (map (\<lambda>(k, v). ?str v) es))"
    by (cases es) (auto simp: tail interposed_Cons)
  then show ?thesis
    by (simp add: iter_join_def Let_def deliversD [OF assms] visit_never case_prod_beta')
qed

text \<open>The loop of \<open>toArray\<close> fills the places from 0 on.\<close>

lemma fill_array:
  "m = 0 \<or> m = length vs \<Longrightarrow>
   fold (\<lambda>(i, v) arr. array_assign arr i v) (numbered (length arr) vs) (arr @ replicate m None) = arr @ map Some vs"
proof (induction vs arbitrary: arr m)
  case (Cons v vs)
  have "array_assign (arr @ replicate m None) (length arr) v = (arr @ [Some v]) @ replicate (m - 1) None"
    using Cons.prems by (cases m) (auto simp: array_assign_def)
  then show ?case using Cons.IH [of "m - 1" "arr @ [Some v]"] Cons.prems by auto
qed simp

lemma toArray_eq:
  assumes "delivers it False es" "size' = None \<or> size' = Some (length es)"
  shows "iter_toArray size' it = map (\<lambda>(k, v). Some v) es"
proof -
  have "iter_toArray size' it = fold (\<lambda>(i, v) arr. array_assign arr i v) (indexed (map snd es))
      (replicate (case size' of None \<Rightarrow> 0 | Some n \<Rightarrow> n) None)"
    by (simp add: iter_toArray_def deliversD [OF ToIndexed_delivers [OF assms(1)]] visit_never)
  then show ?thesis
    using fill_array [of "case size' of None \<Rightarrow> 0 | Some n \<Rightarrow> n" "map snd es" "[]"] assms(2)
    by (auto simp: numbered_0 case_prod_beta' o_def)
qed

lemma toObject_eq:
  assumes "delivers it False es"
  shows "iter_toObject property it = map_of (rev (map (\<lambda>(k, v). (property k, v)) es))"
proof -
  have "fold (\<lambda>(k, v) m. m(property k \<mapsto> v)) es m = m ++ map_of (rev (map (\<lambda>(k, v). (property k, v)) es))" for m
    by (induction es arbitrary: m) (auto simp: fun_eq_iff map_add_def split: option.splits)
  from this [of Map.empty] show ?thesis by (simp add: iter_toObject_def deliversD [OF assms] visit_never case_prod_beta')
qed

section \<open>The hash does not depend on an order the collection does not have\<close>

lemma hash_sum:
  "hashIterable False keyed hash_v hash_k size' it =
     (if size' = Some PosInf then 0
      else murmurHashOfSize (of_nat (length es)) (\<Sum>(k, v) \<leftarrow> es. if keyed then hashMerge (hash_v v) (hash_k k) else hash_v v))"
  if "delivers it False es"
proof -
  let ?g = "\<lambda>(k, v). if keyed then hashMerge (hash_v v) (hash_k k) else hash_v v"
  have "fold (\<lambda>(k, v) h. fst (hash_entry False keyed hash_v hash_k v k h)) es h = h + (\<Sum>e \<leftarrow> es. ?g e)" for h
    by (induction es arbitrary: h) (auto simp: hash_entry_def algebra_simps)
  moreover have "visit es (hash_entry False keyed hash_v hash_k) 0 =
      (fold (\<lambda>(k, v) h. fst (hash_entry False keyed hash_v hash_k v k h)) es 0, length es)"
    by (rule visit_never) (simp add: hash_entry_def)
  ultimately show ?thesis by (simp add: hashIterable_def deliversD [OF that])
qed

lemma hash_order_free:
  assumes "delivers it False es" "delivers it' False es'" "mset es = mset es'"
  shows "hashIterable False keyed hash_v hash_k size' it = hashIterable False keyed hash_v hash_k size' it'"
proof -
  let ?g = "\<lambda>(k, v). if keyed then hashMerge (hash_v v) (hash_k k) else hash_v v"
  have "(\<Sum>e \<leftarrow> es. ?g e) = (\<Sum>e \<leftarrow> es'. ?g e)"
    unfolding sum_mset_sum_list [symmetric] mset_map assms(3) ..
  moreover have "length es = length es'" using assms(3) by (rule mset_eq_length)
  ultimately show ?thesis by (simp add: hash_sum [OF assms(1)] hash_sum [OF assms(2)])
qed

section \<open>Slices by name\<close>

definition int32_ok :: "int \<Rightarrow> bool" where
  "int32_ok n \<longleftrightarrow> - (2 ^ 31) \<le> n \<and> n < 2 ^ 31"

lemma NumInt32_id: "int32_ok n \<Longrightarrow> NumInt32 (word_of_int n) = NumInt n"
  using to_int32_id [of n] by (simp add: NumInt32_def int32_ok_def to_int32_def)

lemma num_nat_NumInt [simp]: "num_nat (NumInt n) = nat n"
  by (simp add: num_nat_def NumInt_def)

lemma slice_bounds_int:
  assumes "pred_option int32_ok b" "pred_option int32_ok e"
  shows "slice_bounds (map_option NumInt b) (map_option NumInt e) (Some (NumInt n)) =
    (if (case b of None \<Rightarrow> False | Some b \<Rightarrow> b = 0 \<or> b \<le> - n) \<and> (case e of None \<Rightarrow> True | Some e \<Rightarrow> n \<le> e)
     then WholeIterable else SliceFrom (nat (begin_of b n)) (Some (nat (end_of e n - int (nat (begin_of b n))))))"
proof -
  have b: "map_option (\<lambda>b. NumInt32 (ToInt32 b)) (map_option NumInt b) = map_option NumInt b"
    using assms(1) by (cases b) (simp_all add: NumInt32_id)
  have inf: "NumInt i \<noteq> PosInf" for i by (simp add: NumInt_def)
  have e: "(case map_option NumInt e of None \<Rightarrow> None | Some e \<Rightarrow> if e = PosInf then Some (NumInt n) else Some (NumInt32 (ToInt32 e))) =
      map_option NumInt e"
    using assms(2) by (cases e) (simp_all add: NumInt32_id inf)
  show ?thesis
    unfolding slice_bounds_def b e Let_def wholeSlice_finite resolveBegin_finite resolveEnd_finite
    by (simp add: NumInt_def num_nat_def)
qed

lemma whole_bounds:
  "0 \<le> n \<Longrightarrow> (case b of None \<Rightarrow> False | Some b \<Rightarrow> b = 0 \<or> b \<le> - n) \<and> (case e of None \<Rightarrow> True | Some e \<Rightarrow> n \<le> e) \<Longrightarrow>
   begin_of b n = 0 \<and> end_of e n = n"
  by (auto simp: begin_of_def end_of_def split: option.splits if_splits)

lemma slice_values_int:
  assumes "pred_option int32_ok b" "pred_option int32_ok e"
  shows "slice_values (map_option NumInt b, map_option NumInt e) xs =
    take (nat (end_of e (int (length xs)) - begin_of b (int (length xs)))) (drop (nat (begin_of b (int (length xs)))) xs)"
proof (cases "(case b of None \<Rightarrow> False | Some b \<Rightarrow> b = 0 \<or> b \<le> - int (length xs)) \<and> (case e of None \<Rightarrow> True | Some e \<Rightarrow> int (length xs) \<le> e)")
  case True
  then have "begin_of b (int (length xs)) = 0" "end_of e (int (length xs)) = int (length xs)"
    using whole_bounds [of "int (length xs)" b e] by simp_all
  then show ?thesis unfolding slice_values_def fst_conv snd_conv slice_bounds_int [OF assms] if_P [OF True] by simp
next
  case False
  have "0 \<le> begin_of b (int (length xs))" by (cases b) (auto simp: begin_of_def)
  then show ?thesis unfolding slice_values_def fst_conv snd_conv slice_bounds_int [OF assms] if_not_P [OF False]
    by (simp add: take_size_def)
qed

lemma take_values: "0 \<le> n \<Longrightarrow> n < 2 ^ 31 \<Longrightarrow> slice_values (take_args (NumInt n)) xs = take (nat n) xs"
  using slice_values_int [of "Some 0" "Some n" xs]
  by (simp add: take_args_def int32_ok_def begin_of_def end_of_def min_def)

lemma skip_values: "0 \<le> n \<Longrightarrow> n < 2 ^ 31 \<Longrightarrow> slice_values (skip_args (NumInt n)) xs = drop (nat n) xs"
  using slice_values_int [of "Some n" None xs]
  by (simp add: skip_args_def int32_ok_def begin_of_def end_of_def min_def)

lemma butLast_rest_values:
  "slice_values butLast_args xs = butlast xs" "slice_values rest_args xs = tl xs"
  using slice_values_int [of "Some 0" "Some (-1)" xs] slice_values_int [of "Some 1" None xs]
  by (cases xs; simp add: butLast_args_def rest_args_def int32_ok_def begin_of_def end_of_def butlast_conv_take min_def)+

lemma last_values:
  assumes "0 \<le> n" "n < 2 ^ 31"
  shows "takeLast_values (NumInt n) xs = drop (length xs - nat n) xs"
    and "skipLast_values (NumInt n) xs = take (length xs - nat n) xs"
  using assms by (simp_all add: takeLast_values_def skipLast_values_def take_values skip_values rev_take rev_drop)

text \<open>A count of \<open>2 ^ 31\<close> or more wraps around in \<open>end | 0\<close>.\<close>

lemma take_wraps:
  assumes "length xs < 2 ^ 31"
  shows "slice_values (take_args (NumInt (2 ^ 31))) xs = []"
proof -
  have w: "ToInt32 (NumInt (2 ^ 31)) = ToInt32 (NumInt (- (2 ^ 31)))" by simp
  have inf: "NumInt i \<noteq> PosInf" for i by (simp add: NumInt_def)
  have "slice_bounds (Some b) (Some (NumInt (2 ^ 31))) n = slice_bounds (Some b) (Some (NumInt (- (2 ^ 31)))) n" for b n
    unfolding slice_bounds_def option.case w if_not_P [OF inf] ..
  then have "slice_values (take_args (NumInt (2 ^ 31))) xs = slice_values (map_option NumInt (Some 0), map_option NumInt (Some (- (2 ^ 31)))) xs"
    by (simp add: slice_values_def take_args_def del: power_numeral)
  then show ?thesis using slice_values_int [of "Some 0" "Some (- (2 ^ 31))" xs] assms
    by (simp add: int32_ok_def begin_of_def end_of_def)
qed

lemma splice_int:
  assumes "int32_ok i" "0 \<le> r" "length xs < 2 ^ 30" "r < 2 ^ 30" "2 < numArgs \<or> (numArgs = 2 \<and> 0 < r)"
  shows "splice_values numArgs (Some (NumInt i)) (NumInt r) values xs =
    (let b = nat (begin_of (Some i) (int (length xs))) in take b xs @ values @ drop (b + nat r) xs)"
proof -
  let ?n = "int (length xs)"
  define b where "b = begin_of (Some i) ?n"
  have b: "0 \<le> b" "b \<le> ?n" by (auto simp: b_def begin_of_def)
  have rem: "num_max (NumInt32 (ToInt32 (NumInt r))) (NumInt 0) = NumInt r"
    using assms(2,4) NumInt32_id [of r] by (simp add: int32_ok_def)
  have ix: "resolveBegin (Some (NumInt i)) (Some (NumInt ?n)) = Some (NumInt b)"
    using resolveBegin_finite [of "Some i" ?n] by (simp add: b_def)
  have cond: "\<not> (numArgs = 0 \<or> numArgs = 2 \<and> NumInt r = NumInt 0)" "numArgs \<noteq> 1" using assms(5) by auto
  have head: "slice_values (Some (NumInt 0), Some (NumInt b)) xs = take (nat b) xs"
    using slice_values_int [of "Some 0" "Some b" xs] b assms(3) by (simp add: int32_ok_def begin_of_def end_of_def)
  have tail: "slice_values (Some (NumInt (b + r)), None) xs = drop (nat b + nat r) xs"
    using slice_values_int [of "Some (b + r)" None xs] b assms by (simp add: int32_ok_def begin_of_def end_of_def min_def nat_add_distrib)
  show ?thesis
    unfolding splice_values_def rem Let_def ix if_not_P [OF cond(1)] if_not_P [OF cond(2)] option.map NumInt_add head tail b_def [symmetric] ..
qed

end
