(* ===== verification/Seq_Order.thy ===== *)
theory Seq_Order
  imports Seq_Reads
begin

text \<open>
  Comparators, \<open>sortFactory\<close> and \<open>maxFactory\<close>. A comparator answers a number, of which only the
  sign counts. \<open>Array.prototype.sort\<close> is a parameter, \<open>array_sort\<close>: all that the language promised of it when this code was
  written is \<open>sorts_arrays\<close>, a sorted permutation for a consistent comparator, whose ties come in any order.
\<close>

section \<open>Comparators\<close>

definition positive :: "jsnum \<Rightarrow> bool" where
  "positive c = num_less (NumInt 0) c"

definition defaultComparator :: "('m \<Rightarrow> 'm \<Rightarrow> bool) \<Rightarrow> 'm \<Rightarrow> 'm \<Rightarrow> jsnum" where
  \<comment> \<open>the first argument is the operator \<open><\<close>\<close>
  "defaultComparator lt a b = (if lt b a then NumInt 1 else if lt a b then NumInt (-1) else NumInt 0)"

definition defaultNegComparator :: "('m \<Rightarrow> 'm \<Rightarrow> bool) \<Rightarrow> 'm \<Rightarrow> 'm \<Rightarrow> jsnum" where
  "defaultNegComparator lt a b = (if lt a b then NumInt 1 else if lt b a then NumInt (-1) else NumInt 0)"

definition neg :: "('m \<Rightarrow> 'm \<Rightarrow> jsnum) \<Rightarrow> 'm \<Rightarrow> 'm \<Rightarrow> jsnum" where
  "neg predicate a b = num_neg (predicate a b)"

definition consistent :: "'m set \<Rightarrow> ('m \<Rightarrow> 'm \<Rightarrow> jsnum) \<Rightarrow> bool" where
  \<comment> \<open>the documented requirement: swapping the arguments swaps the sign, and not being greater is transitive\<close>
  "consistent A cmp \<longleftrightarrow>
     (\<forall>a \<in> A. \<forall>b \<in> A. positive (cmp a b) = num_less (cmp b a) (NumInt 0)) \<and>
     (\<forall>a \<in> A. \<forall>b \<in> A. \<forall>c \<in> A. \<not> positive (cmp a b) \<longrightarrow> \<not> positive (cmp b c) \<longrightarrow> \<not> positive (cmp a c))"

lemma consistent_trans:
  "consistent A cmp \<Longrightarrow> a \<in> A \<Longrightarrow> b \<in> A \<Longrightarrow> c \<in> A \<Longrightarrow>
   \<not> positive (cmp a b) \<Longrightarrow> \<not> positive (cmp b c) \<Longrightarrow> \<not> positive (cmp a c)"
  unfolding consistent_def by blast

lemma consistent_asym:
  assumes "consistent A cmp" "a \<in> A" "b \<in> A" "positive (cmp a b)"
  shows "\<not> positive (cmp b a)"
proof -
  have "num_less (cmp b a) (NumInt 0)" using assms unfolding consistent_def by blast
  then show ?thesis by (cases "cmp b a") (auto simp: positive_def NumInt_def)
qed

lemma consistent_mono: "consistent A cmp \<Longrightarrow> B \<subseteq> A \<Longrightarrow> consistent B cmp"
  unfolding consistent_def by (meson subsetD)

definition tied :: "('m \<Rightarrow> 'm \<Rightarrow> jsnum) \<Rightarrow> 'm \<Rightarrow> 'm \<Rightarrow> bool" where
  "tied cmp a b \<longleftrightarrow> \<not> positive (cmp a b) \<and> \<not> positive (cmp b a)"

section \<open>sort\<close>

type_synonym 'a sorter = "('a \<Rightarrow> 'a \<Rightarrow> jsnum) \<Rightarrow> 'a list \<Rightarrow> 'a list"

definition sorts_arrays :: "'a sorter \<Rightarrow> bool" where
  \<comment> \<open>the documented behaviour of \<open>Array.prototype.sort\<close>\<close>
  "sorts_arrays array_sort \<longleftrightarrow>
     (\<forall>cmp xs. consistent (set xs) cmp \<longrightarrow>
        mset (array_sort cmp xs) = mset xs \<and> sorted_wrt (\<lambda>a b. \<not> positive (cmp a b)) (array_sort cmp xs))"

definition entry_comparator :: "('m \<Rightarrow> 'm \<Rightarrow> jsnum) \<Rightarrow> 'e \<times> nat \<times> 'm \<Rightarrow> 'e \<times> nat \<times> 'm \<Rightarrow> jsnum" where
  \<comment> \<open>\<open>comparator(a[3], b[3]) || a[2] - b[2]\<close>\<close>
  "entry_comparator comparator a b =
     (let c = comparator (snd (snd a)) (snd (snd b))
      in if c = NaN \<or> c = NumInt 0 then NumInt (int (fst (snd a)) - int (fst (snd b))) else c)"

definition sort_entries ::
  "(('k \<times> 'v) \<times> nat \<times> 'm) sorter \<Rightarrow> ('m \<Rightarrow> 'm \<Rightarrow> jsnum) \<Rightarrow> ('v \<Rightarrow> 'k \<Rightarrow> 'm) \<Rightarrow> ('k \<times> 'v) list \<Rightarrow> ('k \<times> 'v) list" where
  \<comment> \<open>the array of \<open>[k, v, index++, mapper(v, k)]\<close>, sorted and cut to its first two places\<close>
  "sort_entries array_sort comparator mapper es =
     map fst (array_sort (entry_comparator comparator) (map (\<lambda>(i, k, v). ((k, v), i, mapper v k)) (indexed es)))"

definition sortFactory ::
  "(('k \<times> 'v) \<times> nat \<times> 'm) sorter \<Rightarrow> iter_kind \<Rightarrow> ('m \<Rightarrow> 'm \<Rightarrow> jsnum) \<Rightarrow> ('v \<Rightarrow> 'k \<Rightarrow> 'm) \<Rightarrow> ('k \<times> 'v) list \<Rightarrow> ('k \<times> 'v) list + 'v list" where
  \<comment> \<open>the entries of a keyed result, or the values of an indexed or set one\<close>
  "sortFactory array_sort kind comparator mapper es =
     (let entries = sort_entries array_sort comparator mapper es
      in if kind = KeyedKind then Inl entries else Inr (map snd entries))"

abbreviation by_key :: "('m \<Rightarrow> 'm \<Rightarrow> jsnum) \<Rightarrow> ('v \<Rightarrow> 'k \<Rightarrow> 'm) \<Rightarrow> 'k \<times> 'v \<Rightarrow> 'k \<times> 'v \<Rightarrow> jsnum" where
  "by_key cmp mapper \<equiv> \<lambda>e e'. cmp (mapper (snd e) (fst e)) (mapper (snd e') (fst e'))"

text \<open>The index makes the comparator of the entries a strict order that refines the caller's.\<close>

lemma falsy_number: "(c = NaN \<or> c = NumInt 0) \<longleftrightarrow> \<not> positive c \<and> \<not> num_less c (NumInt 0)"
  by (cases c) (auto simp: positive_def NumInt_def)

lemma entry_comparator_sign:
  assumes "consistent M cmp" "m \<in> M" "m' \<in> M"
  shows "positive (entry_comparator cmp (e, i, m) (e', j, m')) \<longleftrightarrow> positive (cmp m m') \<or> tied cmp m m' \<and> j < i"
    and "num_less (entry_comparator cmp (e, i, m) (e', j, m')) (NumInt 0) \<longleftrightarrow> positive (cmp m' m) \<or> tied cmp m m' \<and> i < j"
proof -
  have sw: "num_less (cmp m m') (NumInt 0) = positive (cmp m' m)" "positive (cmp m m') \<Longrightarrow> \<not> positive (cmp m' m)"
    using assms consistent_asym [OF assms] unfolding consistent_def by blast+
  show "positive (entry_comparator cmp (e, i, m) (e', j, m')) \<longleftrightarrow> positive (cmp m m') \<or> tied cmp m m' \<and> j < i"
    "num_less (entry_comparator cmp (e, i, m) (e', j, m')) (NumInt 0) \<longleftrightarrow> positive (cmp m' m) \<or> tied cmp m m' \<and> i < j"
    using falsy_number [of "cmp m m'"] sw
    by (auto simp: entry_comparator_def Let_def tied_def) (auto simp: positive_def)
qed

lemma tied_trans: "consistent M cmp \<Longrightarrow> a \<in> M \<Longrightarrow> b \<in> M \<Longrightarrow> c \<in> M \<Longrightarrow> tied cmp a b \<Longrightarrow> tied cmp b c \<Longrightarrow> tied cmp a c"
  using consistent_trans [of M cmp] unfolding tied_def by blast

lemma consistent_entries:
  assumes "consistent ((\<lambda>(e, i, m). m) ` A) cmp" shows "consistent A (entry_comparator cmp)"
  unfolding consistent_def
proof (intro conjI ballI impI)
  let ?M = "(\<lambda>(e, i, m). m) ` A"
  note sign = entry_comparator_sign [OF assms]
  fix a b assume "a \<in> A" "b \<in> A"
  moreover obtain e i m e' j m' where ab: "a = (e, i, m)" "b = (e', j, m')" by (cases a; cases b)
  ultimately have m: "m \<in> ?M" "m' \<in> ?M" by force+
  show "positive (entry_comparator cmp a b) = num_less (entry_comparator cmp b a) (NumInt 0)"
    unfolding ab sign [OF m] sign [OF m(2,1)] by (auto simp: tied_def)
  fix c assume "c \<in> A"
  moreover obtain e'' k m'' where c: "c = (e'', k, m'')" by (cases c)
  ultimately have m'': "m'' \<in> ?M" by force
  assume "\<not> positive (entry_comparator cmp a b)" "\<not> positive (entry_comparator cmp b c)"
  then show "\<not> positive (entry_comparator cmp a c)"
    unfolding ab c sign [OF m] sign [OF m(2) m''] sign [OF m(1) m'']
    using consistent_trans [OF assms m m''] consistent_trans [OF assms m'' m(2,1)] consistent_trans [OF assms m(2) m'' m(1)]
      consistent_trans [OF assms m'' m]
    by (auto simp: tied_def)
qed

text \<open>Hence whatever sorting does with ties, the ties of the caller's comparator keep their order.\<close>

lemma sort_entries_spec:
  assumes sort: "sorts_arrays array_sort" and cmp: "consistent ((\<lambda>e. mapper (snd e) (fst e)) ` set es) cmp"
  defines "out \<equiv> sort_entries array_sort cmp mapper es"
  shows "mset out = mset es" "sorted_wrt (\<lambda>a b. \<not> positive (by_key cmp mapper a b)) out"
    "e \<in> set es \<Longrightarrow> filter (tied (by_key cmp mapper) e) out = filter (tied (by_key cmp mapper) e) es"
proof -
  define tag where "tag = (\<lambda>(i :: nat, k, v). ((k, v), i, mapper v k))"
  define xs where "xs = map tag (indexed es)"
  define ys where "ys = array_sort (entry_comparator cmp) xs"
  have out: "out = map fst ys" by (simp add: out_def sort_entries_def ys_def xs_def tag_def)
  have fst: "map fst xs = es" by (rule nth_equalityI) (simp_all add: xs_def tag_def indexed_def split: prod.splits)
  have key: "x \<in> set xs \<Longrightarrow> snd (snd x) = mapper (snd (fst x)) (fst (fst x))" for x by (auto simp: xs_def tag_def)
  have M: "(\<lambda>(e, i, m). m) ` set xs = (\<lambda>e. mapper (snd e) (fst e)) ` set es"
    unfolding fst [symmetric] set_map image_image by (rule image_cong) (auto dest: key)
  have con: "consistent (set xs) (entry_comparator cmp)" using cmp by (intro consistent_entries) (simp only: M)
  have ys: "mset ys = mset xs" "sorted_wrt (\<lambda>x y. \<not> positive (entry_comparator cmp x y)) ys"
    using sort con by (auto simp: sorts_arrays_def ys_def)
  have set: "set ys = set xs" using ys(1) by (metis set_mset_mset)
  show "mset out = mset es" unfolding out fst [symmetric] by (simp add: ys(1))
  have sgn: "positive (entry_comparator cmp x y) \<longleftrightarrow>
      positive (by_key cmp mapper (fst x) (fst y)) \<or> tied (by_key cmp mapper) (fst x) (fst y) \<and> fst (snd y) < fst (snd x)"
    if "x \<in> set ys" "y \<in> set ys" for x y
  proof -
    have mem: "snd (snd z) \<in> (\<lambda>e. mapper (snd e) (fst e)) ` set es" if "z \<in> set ys" for z
      unfolding M [symmetric] using that set by (intro image_eqI [of _ _ z]) (auto split: prod.splits)
    show ?thesis
      using entry_comparator_sign(1) [OF cmp mem [OF that(1)] mem [OF that(2)], of "fst x" "fst (snd x)" "fst y" "fst (snd y)"] key that set by (simp add: tied_def)
  qed
  have srt: "sorted_wrt (\<lambda>x y. \<not> positive (by_key cmp mapper (fst x) (fst y)) \<and>
      (tied (by_key cmp mapper) (fst x) (fst y) \<longrightarrow> fst (snd x) \<le> fst (snd y))) ys"
    by (rule sorted_wrt_mono_rel [OF _ ys(2)]) (auto simp: sgn)
  show "sorted_wrt (\<lambda>a b. \<not> positive (by_key cmp mapper a b)) out"
    unfolding out sorted_wrt_map by (rule sorted_wrt_mono_rel [OF _ srt]) simp
  show "filter (tied (by_key cmp mapper) e) out = filter (tied (by_key cmp mapper) e) es" if e: "e \<in> set es"
  proof -
    let ?P = "\<lambda>x. tied (by_key cmp mapper) e (fst x)"
    have idx: "map (fst \<circ> snd) xs = [0..<length es]" by (rule nth_equalityI) (simp_all add: xs_def tag_def indexed_def split: prod.splits)
    have dist: "distinct (map (fst \<circ> snd) xs)" unfolding idx by simp
    have "filter ?P ys = filter ?P xs"
    proof (rule map_sorted_distinct_set_unique)
      show "inj_on (fst \<circ> snd) (set (filter ?P ys) \<union> set (filter ?P xs))"
        using dist by (auto simp: set distinct_map intro: inj_on_subset)
      have "sorted_wrt (\<lambda>x y. fst (snd x) \<le> fst (snd y)) (filter ?P ys)"
      proof (rule sorted_wrt_mono_rel [OF _ sorted_wrt_filter [OF srt]])
        fix x y assume "x \<in> set (filter ?P ys)" "y \<in> set (filter ?P ys)"
          and r: "\<not> positive (by_key cmp mapper (fst x) (fst y)) \<and> (tied (by_key cmp mapper) (fst x) (fst y) \<longrightarrow> fst (snd x) \<le> fst (snd y))"
        then have x: "fst x \<in> set es" "?P x" and y: "fst y \<in> set es" "?P y" using set fst by (auto simp flip: fst)
        have c: "consistent (set es) (by_key cmp mapper)" using cmp by (simp only: consistent_def ball_simps)
        have "tied (by_key cmp mapper) (fst x) e" using x(2) by (simp add: tied_def)
        then have "tied (by_key cmp mapper) (fst x) (fst y)" by (rule tied_trans [OF c x(1) e y(1) _ y(2)])
        then show "fst (snd x) \<le> fst (snd y)" using r by blast
      qed
      then show "sorted (map (fst \<circ> snd) (filter ?P ys))" by (simp add: sorted_map)
      have "distinct (map (fst \<circ> snd) ys)" using dist mset_eq_imp_distinct_iff [of "map (fst \<circ> snd) ys" "map (fst \<circ> snd) xs"] ys(1) by simp
      then show "distinct (map (fst \<circ> snd) (filter ?P ys))" "distinct (map (fst \<circ> snd) (filter ?P xs))"
        using dist by (simp_all add: distinct_map_filter)
      have "sorted (map (fst \<circ> snd) xs)" unfolding idx by simp
      then show "sorted (map (fst \<circ> snd) (filter ?P xs))" by (simp add: sorted_map sorted_wrt_filter)
    qed (simp add: set)
    then have "map fst (filter ?P ys) = map fst (filter ?P xs)" by (rule arg_cong)
    then show ?thesis unfolding out fst [symmetric] filter_map comp_def .
  qed
qed

section \<open>A sort\<close>

text \<open>Insertion from the left is one of the sorts allowed, and turns ties around.\<close>

fun insert_by :: "('a \<Rightarrow> 'a \<Rightarrow> jsnum) \<Rightarrow> 'a \<Rightarrow> 'a list \<Rightarrow> 'a list" where
  "insert_by cmp x [] = [x]"
| "insert_by cmp x (y # ys) = (if positive (cmp x y) then y # insert_by cmp x ys else x # y # ys)"

definition insertion_sort :: "'a sorter" where
  "insertion_sort cmp xs = fold (insert_by cmp) xs []"

lemma set_insert_by [simp]: "set (insert_by cmp x xs) = insert x (set xs)"
  by (induction xs) auto

lemma mset_insert_by [simp]: "mset (insert_by cmp x xs) = add_mset x (mset xs)"
  by (induction xs) auto

lemma sorted_insert_by:
  assumes "sorted_wrt (\<lambda>a b. \<not> positive (cmp a b)) xs" "consistent (insert x (set xs)) cmp"
  shows "sorted_wrt (\<lambda>a b. \<not> positive (cmp a b)) (insert_by cmp x xs)"
  using assms
proof (induction xs)
  case (Cons y ys)
  have sub: "consistent (insert x (set ys)) cmp" using Cons.prems(2) by (rule consistent_mono) auto
  show ?case
  proof (cases "positive (cmp x y)")
    case True
    then have "\<not> positive (cmp y x)" using consistent_asym [OF Cons.prems(2), of x y] by simp
    then show ?thesis using True Cons sub by auto
  next
    case False
    have "\<not> positive (cmp x z)" if "z \<in> set ys" for z
      by (rule consistent_trans [OF Cons.prems(2), of x y z]) (use that False Cons.prems(1) in auto)
    then show ?thesis using False Cons.prems by auto
  qed
qed simp

lemma insertion_fold:
  "consistent (set xs \<union> set ys) cmp \<Longrightarrow> sorted_wrt (\<lambda>a b. \<not> positive (cmp a b)) ys \<Longrightarrow>
     mset (fold (insert_by cmp) xs ys) = mset xs + mset ys \<and> sorted_wrt (\<lambda>a b. \<not> positive (cmp a b)) (fold (insert_by cmp) xs ys)"
proof (induction xs arbitrary: ys)
  case (Cons x xs)
  have "consistent (insert x (set ys)) cmp" using Cons.prems(1) by (rule consistent_mono) auto
  then show ?case using Cons.IH [of "insert_by cmp x ys"] sorted_insert_by [OF Cons.prems(2)] Cons.prems(1) by simp
qed simp

lemma insertion_sorts: "sorts_arrays insertion_sort"
  using insertion_fold [of _ "[]"] by (auto simp: sorts_arrays_def insertion_sort_def)

section \<open>max\<close>

definition maxCompare :: "(jsval \<Rightarrow> jsval \<Rightarrow> jsnum) \<Rightarrow> jsval \<Rightarrow> jsval \<Rightarrow> bool" where
  "maxCompare comparator a b =
     (let comp = comparator b a
      in (comp = NumInt 0 \<and> \<not> strict_eq b a \<and> (b = Undefined \<or> b = Null \<or> \<not> strict_eq b b)) \<or> positive comp)"

definition maxFactory :: "(jsval \<Rightarrow> jsval \<Rightarrow> jsnum) \<Rightarrow> ('k, jsval, jsval option) iterate \<Rightarrow> jsval option" where
  "maxFactory comparator it = iter_reduce (\<lambda>a b _. if maxCompare comparator a b then b else a) it"

definition maxFactory_mapped ::
  "(jsval \<Rightarrow> jsval \<Rightarrow> jsnum) \<Rightarrow> ('v \<Rightarrow> 'k \<Rightarrow> jsval) \<Rightarrow> ('k, 'v, ('v \<times> jsval) option) iterate \<Rightarrow> 'v option" where
  "maxFactory_mapped comparator mapper it =
     map_option fst (iter_reduce (\<lambda>a b _. if maxCompare comparator (snd a) (snd b) then b else a)
       (map_seq_iterate (\<lambda>v k. (v, mapper v k)) it))"

lemma max_fold:
  assumes "consistent A cmp" "set vs \<subseteq> A" "a \<in> A"
  shows "fold (\<lambda>b a. if maxCompare cmp a b then b else a) vs a \<in> insert a (set vs) \<and>
    (\<forall>v \<in> insert a (set vs). \<not> positive (cmp v (fold (\<lambda>b a. if maxCompare cmp a b then b else a) vs a)))"
  using assms(2,3)
proof (induction vs arbitrary: a)
  case Nil
  then show ?case using consistent_asym [OF assms(1), of a a] by auto
next
  case (Cons v vs)
  let ?m = "if maxCompare cmp a v then v else a"
  let ?r = "fold (\<lambda>b a. if maxCompare cmp a b then b else a) vs ?m"
  have IH: "?r \<in> insert ?m (set vs)" "\<forall>u \<in> insert ?m (set vs). \<not> positive (cmp u ?r)"
    using Cons.IH [of ?m] Cons.prems by auto
  have r: "?r \<in> A" using IH(1) Cons.prems by (auto split: if_splits)
  have m: "\<not> positive (cmp ?m ?r)" "?m \<in> A" using IH(2) Cons.prems by auto
  have tie: "cmp v a = NumInt 0 \<Longrightarrow> \<not> positive (cmp a v)"
    using assms(1) Cons.prems unfolding consistent_def by (metis NumInt_less less_irrefl list.set_intros(1) subsetD)
  have "\<not> positive (cmp a ?m)" "\<not> positive (cmp v ?m)"
    using consistent_asym [OF assms(1), of a a] consistent_asym [OF assms(1), of v v] consistent_asym [OF assms(1), of v a] Cons.prems tie
    by (auto simp: maxCompare_def Let_def)
  then have "\<not> positive (cmp a ?r)" "\<not> positive (cmp v ?r)"
    using consistent_trans [OF assms(1), of _ ?m ?r] Cons.prems m r by auto
  then show ?case using IH Cons.prems by auto
qed

lemma max_spec:
  assumes "delivers it False es" "consistent (snd ` set es) cmp" "es \<noteq> []"
  obtains m where "maxFactory cmp it = Some m" "m \<in> snd ` set es" "\<forall>v \<in> snd ` set es. \<not> positive (cmp v m)"
proof -
  obtain e es' where es: "es = e # es'" using assms(3) by (cases es) auto
  have "fold (\<lambda>(k, v) r. if maxCompare cmp r v then v else r) es' a = fold (\<lambda>b a. if maxCompare cmp a b then b else a) (map snd es') a" for a
    by (induction es' arbitrary: a) auto
  moreover have "set (map snd es') \<subseteq> snd ` set es" "snd e \<in> snd ` set es" by (auto simp: es)
  moreover note max_fold [OF assms(2) this]
  ultimately show ?thesis
    using that assms(1) by (auto simp: maxFactory_def reduce_eq es)
qed

end
