(* ===== verification/Seq_Props.thy ===== *)
theory Seq_Props
  imports Seq_Order
begin

text \<open>
  The properties of the lazy sequences. A sequence is described by its entries: \<open>delivers\<close> says that
  the visiting protocol calls back on exactly these entries, \<open>yields\<close> that the stepping protocol
  answers exactly these and then \<open>done\<close> for ever. The witnesses use arrays.
\<close>

text \<open>
  C24. \<open>filter\<close> means the same in both protocols: over a source that delivers the same entries in both, the visits and the
  iterator pass on exactly the entries that the predicate accepts, in order, with
  their own keys or renumbered; the iterator's search for the next accepted entry always ends, and so does
  the iteration as a whole.
\<close>

theorem filter_push_pull:
  assumes "delivers it r es" "yields nxt st es"
  shows "filter_iterate p ik it fn r s = visit (rekeyed ik (filter (\<lambda>(k, v). p v k) es)) fn s \<and>
    yields (filter_next p ik nxt type) (st, 0) (items type (rekeyed ik (filter (\<lambda>(k, v). p v k) es)))"
  using deliversD [OF filter_delivers [OF assms(1), of p ik], of fn s] filter_yields [OF assms(2), of p ik type] by blast

definition array_pairs :: "'v list \<Rightarrow> (nat \<times> 'v, nat) stepper" where
  "array_pairs xs i = Some (if i < length xs then Step (Some (i, xs ! i)) False else Step None True, if i < length xs then i + 1 else i)"

lemma array_pairs_yields: "yields (array_pairs xs) 0 (indexed xs)"
proof (rule index_yields)
  show "array_pairs xs i = Some (Step (Some (indexed xs ! i)) False, i + 1)" if "i < length (indexed xs)" for i
    using that by (simp add: array_pairs_def indexed_def)
  show "\<exists>v i'. array_pairs xs i = Some (Step v True, i') \<and> length (indexed xs) \<le> i'" if "length (indexed xs) \<le> i" for i
    using that by (simp add: array_pairs_def)
qed

lemma array_delivers: "delivers (ArraySeq_iterate xs) False (indexed xs)"
  using ArraySeq_delivers [of xs False] by simp

theorem filter_push_pull_witness:
  "filter_iterate (\<lambda>v k. v > 2) (Some id) (ArraySeq_iterate [1, 3, 2, 4::nat]) (\<lambda>v k s. (s @ [(k, v)], False)) False [] =
     ([(0, 3), (1, 4)], 2) \<and>
   yields (filter_next (\<lambda>v k. v > 2) (Some id) (array_pairs [1, 3, 2, 4]) ENTRIES) (0, 0) [EntryItem 0 3, EntryItem 1 (4::nat)]"
proof -
  have "rekeyed (Some id) (filter (\<lambda>(k, v). v > 2) (indexed [1, 3, 2, 4::nat])) = [(0, 3), (1, 4)]"
    by (simp add: indexed_def rekeyed_def)
  then show ?thesis
    using filter_push_pull [OF array_delivers array_pairs_yields, of "\<lambda>v k. v > 2" "Some id" "[1, 3, 2, 4::nat]"
      "\<lambda>v k s. (s @ [(k, v)], False)" "[]" ENTRIES] by (simp add: items_def del: yields.simps)
qed

text \<open>
  C25. The memo of a sequence made from a raw iterator: however far earlier readers got (the cache
  holds a prefix of the sequence), a visit sees the whole sequence from its start and a reader at any position
  within the cache gets the next value and moves on by one, and the cache and the iterator still make up
  the same sequence afterwards.
\<close>

theorem iterator_seq_memo:
  assumes "iterseq_holds nxt q xs" "i \<le> length (snd q)"
  shows "(\<exists>q'. IteratorSeq_iterateUncached nxt fn q s = Some (visit (indexed xs) fn s, q') \<and> iterseq_holds nxt q' xs) \<and>
    (\<exists>q'. IteratorSeq_next nxt type (i, q) =
        Some (if i < length xs then iteratorValue type i (xs ! i) else Step None True, (if i < length xs then i + 1 else i, q')) \<and>
      iterseq_holds nxt q' xs \<and> (i < length xs \<longrightarrow> i + 1 \<le> length (snd q')))"
proof
  show "\<exists>q'. IteratorSeq_iterateUncached nxt fn q s = Some (visit (indexed xs) fn s, q') \<and> iterseq_holds nxt q' xs"
    using IteratorSeq_iterate_spec [OF assms(1), of fn s] by blast
  obtain step q' where "iterseq_holds nxt q' xs" "length (snd q) \<le> length (snd q')" "IteratorSeq_next nxt type (i, q) = Some (step, (if i < length xs then i + 1 else i, q'))"
      "step = (if i < length xs then iteratorValue type i (xs ! i) else Step None True)" "i < length xs \<Longrightarrow> i + 1 \<le> length (snd q')"
    using IteratorSeq_next_spec [OF assms, of type] by blast
  then show "\<exists>q'. IteratorSeq_next nxt type (i, q) =
        Some (if i < length xs then iteratorValue type i (xs ! i) else Step None True, (if i < length xs then i + 1 else i, q')) \<and>
      iterseq_holds nxt q' xs \<and> (i < length xs \<longrightarrow> i + 1 \<le> length (snd q'))"
    by (intro exI [of _ q']) simp
qed

definition values_of :: "'v list \<Rightarrow> ('v, nat) stepper" where
  "values_of xs i = Some (if i < length xs then Step (Some (xs ! i)) False else Step None True, if i < length xs then i + 1 else i)"

lemma values_of_yields: "yields (values_of xs) 0 xs"
  by (rule index_yields) (simp_all add: values_of_def)

theorem iterator_seq_memo_witness:
  "\<exists>q'. IteratorSeq_iterateUncached (values_of [5, 6, 7]) (\<lambda>v k s. (s @ [v], False)) (0, []) [] =
     Some (([Some 5, Some 6, Some (7::nat)], 3), q')"
proof -
  have "iterseq_holds (values_of [5, 6, 7::nat]) (0, []) (map Some [5, 6, 7])"
    unfolding iterseq_holds_def using values_of_yields [of "[5, 6, 7::nat]"] by (intro exI [of _ "[5, 6, 7]"]) (simp del: yields.simps)
  from iterator_seq_memo [OF this, of 0 "\<lambda>v k s. (s @ [v], False)" "[]" KEYS]
  show ?thesis by (auto simp: indexed_def upt_rec)
qed

text \<open>
  C26. \<open>flatten\<close> in both protocols: the visits go through the entries of the nested iterables down to the
  given depth (0 is all the way), in order, and the iterator answers the same entries and
  then ends. The count that \<open>__iterate\<close> answers is the number of entries for the renumbered kind, but 0 when the keys are kept.
\<close>

theorem flatten_push_pull:
  assumes "opens_nested nxt opens type r" "yields nxt st (items type (nest_entries r it))"
  shows "(case visit (rekeyed ik (flat_entries depth r 0 it)) fn s of
      (s', n) \<Rightarrow> flatten_iterate depth ik it fn r s = (s', if ik = None then 0 else n)) \<and>
    yields (flatten_next depth ik nxt opens) (Some st, [], 0) (items type (rekeyed ik (flat_entries depth r 0 it)))"
  using flatten_iterate_entries [of depth ik it fn r s] flatten_next_yields [OF assms, of depth ik] by (auto split: prod.split)

fun list_next :: "('x, 'x list) stepper" where
  "list_next [] = Some (Step None True, [])"
| "list_next (x # xs) = Some (Step (Some x) False, xs)"

lemma list_next_yields: "yields list_next xs xs"
proof (induction xs)
  case Nil
  have "exhausted list_next []" by (rule exhaustedI [of "\<lambda>st. st = []"]) auto
  then show ?case by simp
qed simp

fun open_entry :: "('k, ('k, 'v) nest) item \<Rightarrow> ('k, ('k, 'v) nest) item list option" where
  "open_entry (EntryItem k (Nested fw bw)) = Some (items ENTRIES fw)"
| "open_entry _ = None"

definition demo_nest :: "(nat, nat) nest" where
  "demo_nest = Nested [(0, Nested [(1, Leaf 5), (2, Leaf 6)] []), (3, Leaf 7)] []"

theorem flatten_push_pull_witness:
  "flatten_iterate 0 None demo_nest (\<lambda>v k s. (s @ [(k, v)], False)) False [] = ([(1, Leaf 5), (2, Leaf 6), (3, Leaf 7)], 0) \<and>
   yields (flatten_next 0 None list_next open_entry) (Some (items ENTRIES (nest_entries False demo_nest)), [], 0)
     [EntryItem 1 (Leaf 5), EntryItem 2 (Leaf 6), EntryItem 3 (Leaf 7)]"
proof -
  have o: "opens_nested list_next open_entry ENTRIES False"
    unfolding opens_nested_def by (auto intro: list_next_yields)
  have "flat_entries 0 False 0 demo_nest = [(1, Leaf 5), (2, Leaf 6), (3, Leaf 7)]"
    by (simp add: flat_entries_def demo_nest_def flat_unfold isNested_def)
  then show ?thesis
    using flatten_push_pull [OF o list_next_yields, where it = demo_nest and ik = None and depth = 0 and fn = "\<lambda>v k s. (s @ [(k, v)], False)" and s = "[]"]
    by (simp add: rekeyed_def items_def del: yields.simps)
qed

text \<open>
  C27. \<open>sort\<close> and \<open>sortBy\<close>: the result holds the same entries, none greater than a later one by the comparator on the mapped values,
  and entries that the comparator ties keep their order. \<open>Array.prototype.sort\<close> need not be stable: the order of ties comes
  from the indices that the code attaches and compares.
\<close>

theorem sort_stable_permutation:
  assumes "sorts_arrays array_sort" "consistent ((\<lambda>e. mapper (snd e) (fst e)) ` set es) cmp"
  shows "mset (sort_entries array_sort cmp mapper es) = mset es \<and>
    sorted_wrt (\<lambda>a b. \<not> positive (by_key cmp mapper a b)) (sort_entries array_sort cmp mapper es) \<and>
    (\<forall>e. e \<in> set es \<longrightarrow>
       filter (tied (by_key cmp mapper) e) (sort_entries array_sort cmp mapper es) = filter (tied (by_key cmp mapper) e) es)"
  using sort_entries_spec [OF assms] by blast

lemma default_positive: "positive (defaultComparator (<) a b) \<longleftrightarrow> b < a" for a b :: nat
  by (cases rule: linorder_cases [of a b]) (simp_all add: defaultComparator_def positive_def)

lemma default_negative: "num_less (defaultComparator (<) a b) (NumInt 0) \<longleftrightarrow> a < b" for a b :: nat
  by (cases rule: linorder_cases [of a b]) (simp_all add: defaultComparator_def)

lemma default_consistent: "consistent A (defaultComparator ((<) :: nat \<Rightarrow> nat \<Rightarrow> bool))"
  unfolding consistent_def default_positive default_negative by auto

theorem sort_stable_permutation_witness:
  "filter (tied (by_key (defaultComparator (<)) (\<lambda>v k. v mod 10)) (1, 13))
     (sort_entries insertion_sort (defaultComparator (<)) (\<lambda>v k. v mod 10) [(1::nat, 13), (2, 22), (3, 3)]) = [(1, 13), (3, 3::nat)] \<and>
   insertion_sort (\<lambda>a b. defaultComparator (<) (snd a mod 10) (snd b mod 10)) [(1::nat, 13), (3, 3)] = [(3, 3), (1, 13::nat)]"
proof -
  note s = sort_stable_permutation [OF insertion_sorts default_consistent, of "\<lambda>v k. v mod 10" "[(1::nat, 13), (2, 22), (3, 3)]"]
  note t = s [THEN conjunct2, THEN conjunct2, rule_format, of "(1, 13)"]
  show ?thesis by (subst t) (simp_all add: tied_def default_positive insertion_sort_def)
qed

end
