(* ===== verification/Seq_Ranges.thy ===== *)
theory Seq_Ranges
  imports Seq_Reads
begin

text \<open>
  \<open>Repeat\<close> and \<open>Range\<close> of \<open>static/drf-yasg/immutable.js\<close>: the two lazy sequences that are made from
  numbers. Sums, products and quotients are rounded to doubles; both sequences can be
  infinite, so their loops are partial functions (\<open>None\<close>: the loop does not end).
\<close>

section \<open>Arithmetic on doubles\<close>

fun num_plus :: "jsnum \<Rightarrow> jsnum \<Rightarrow> jsnum" where
  "num_plus (Fin a) (Fin b) = round_double (a + b)"
| "num_plus x y = num_add x y"

fun num_times :: "jsnum \<Rightarrow> jsnum \<Rightarrow> jsnum" where
  "num_times (Fin a) (Fin b) = round_double (a * b)"
| "num_times (Infinity n) (Infinity n') = Infinity (n \<noteq> n')"
| "num_times (Infinity n) (Fin b) = (if b = 0 then NaN else Infinity (n \<noteq> (b < 0)))"
| "num_times (Fin a) (Infinity n) = (if a = 0 then NaN else Infinity (n \<noteq> (a < 0)))"
| "num_times _ _ = NaN"

fun num_div :: "jsnum \<Rightarrow> jsnum \<Rightarrow> jsnum" where
  \<comment> \<open>a zero divisor is taken to be \<open>+0\<close>\<close>
  "num_div (Fin a) (Fin b) = (if b = 0 then (if a = 0 then NaN else Infinity (a < 0)) else round_double (a / b))"
| "num_div (Fin a) (Infinity n) = Fin 0"
| "num_div (Infinity n) (Fin b) = Infinity (n \<noteq> (b < 0))"
| "num_div _ _ = NaN"

fun num_mod :: "jsnum \<Rightarrow> jsnum \<Rightarrow> jsnum" where
  \<comment> \<open>the remainder is exact and has the sign of the dividend\<close>
  "num_mod (Fin a) (Fin b) =
     (if b = 0 then NaN else Fin (a - b * of_int (if 0 \<le> a / b then \<lfloor>a / b\<rfloor> else \<lceil>a / b\<rceil>)))"
| "num_mod (Fin a) (Infinity n) = Fin a"
| "num_mod _ _ = NaN"

fun num_ceil :: "jsnum \<Rightarrow> jsnum" where
  "num_ceil (Fin a) = Fin (of_int \<lceil>a\<rceil>)"
| "num_ceil x = x"

fun num_floor :: "jsnum \<Rightarrow> jsnum" where
  "num_floor (Fin a) = Fin (of_int \<lfloor>a\<rfloor>)"
| "num_floor x = x"

fun num_abs :: "jsnum \<Rightarrow> jsnum" where
  "num_abs (Fin a) = Fin \<bar>a\<bar>"
| "num_abs (Infinity n) = PosInf"
| "num_abs NaN = NaN"

section \<open>Repeat\<close>

record 'v repeat =
  rep_value :: 'v
  rep_size :: jsnum

definition Repeat :: "'v \<Rightarrow> jsnum option \<Rightarrow> 'v repeat" where
  \<comment> \<open>an empty one is a shared object, with the value of the first that was made\<close>
  "Repeat value n =
     \<lparr>rep_value = value, rep_size = (case n of None \<Rightarrow> PosInf | Some t \<Rightarrow> num_max (NumInt 0) t)\<rparr>"

definition sized_has :: "jsnum \<Rightarrow> index_arg \<Rightarrow> bool" where
  \<comment> \<open>\<open>IndexedIterable.has\<close>, on an iterable with a size\<close>
  "sized_has size' index =
     (let i = wrapIndex size' index in num_geq i (NumInt 0) \<and> (size' = PosInf \<or> num_less i size'))"

definition repeat_get :: "index_arg \<Rightarrow> 'v option \<Rightarrow> 'v repeat \<Rightarrow> 'v option" where
  "repeat_get index notSet r = (if sized_has (rep_size r) index then Some (rep_value r) else notSet)"

definition repeat_includes :: "('v \<Rightarrow> 'v \<Rightarrow> bool) \<Rightarrow> 'v \<Rightarrow> 'v repeat \<Rightarrow> bool" where
  "repeat_includes is' searchValue r = is' (rep_value r) searchValue"

definition repeat_slice :: "jsnum option \<Rightarrow> jsnum option \<Rightarrow> 'v repeat \<Rightarrow> 'v repeat" where
  "repeat_slice begin end' r =
     (let size' = Some (rep_size r)
      in if wholeSlice begin end' size' then r
         else Repeat (rep_value r) (Some (num_plus (the (resolveEnd end' size')) (num_neg (the (resolveBegin begin size'))))))"

definition repeat_indexOf :: "('v \<Rightarrow> 'v \<Rightarrow> bool) \<Rightarrow> 'v \<Rightarrow> 'v repeat \<Rightarrow> jsnum" where
  "repeat_indexOf is' searchValue r = (if is' (rep_value r) searchValue then NumInt 0 else NumInt (-1))"

definition repeat_lastIndexOf :: "('v \<Rightarrow> 'v \<Rightarrow> bool) \<Rightarrow> 'v \<Rightarrow> 'v repeat \<Rightarrow> jsnum" where
  "repeat_lastIndexOf is' searchValue r = (if is' (rep_value r) searchValue then rep_size r else NumInt (-1))"

partial_function (option) repeat_loop :: "(nat, 'v, 's) visitor \<Rightarrow> 'v repeat \<Rightarrow> nat \<Rightarrow> 's \<Rightarrow> ('s \<times> nat) option" where
  "repeat_loop fn r ii s =
     (if num_less (NumInt (int ii)) (rep_size r)
      then (case fn (rep_value r) ii s of (s', stop) \<Rightarrow> if stop then Some (s', ii + 1) else repeat_loop fn r (ii + 1) s')
      else Some (s, ii))"

definition repeat_iterate :: "'v repeat \<Rightarrow> (nat, 'v, 's) visitor \<Rightarrow> 's \<Rightarrow> ('s \<times> nat) option" where
  \<comment> \<open>both ways\<close>
  "repeat_iterate r fn s = repeat_loop fn r 0 s"

definition repeat_next :: "'v repeat \<Rightarrow> iter_type \<Rightarrow> ((nat, 'v) item, nat) stepper" where
  "repeat_next r type ii =
     Some (if num_less (NumInt (int ii)) (rep_size r) then (iteratorValue type ii (rep_value r), ii + 1) else (iteratorDone, ii))"

definition repeat_equals :: "('v \<Rightarrow> 'v \<Rightarrow> bool) \<Rightarrow> 'v repeat \<Rightarrow> 'v repeat \<Rightarrow> bool" where
  \<comment> \<open>on another \<open>Repeat\<close>; anything else is handed to \<open>deepEqual\<close> without the receiver\<close>
  "repeat_equals is' r other = is' (rep_value r) (rep_value other)"

section \<open>Range\<close>

record range =
  rg_start :: jsnum
  rg_end :: jsnum
  rg_step :: jsnum
  rg_size :: jsnum

definition range_size :: "jsnum \<Rightarrow> jsnum \<Rightarrow> jsnum \<Rightarrow> jsnum" where
  \<comment> \<open>\<open>Math.max(0, Math.ceil((end - start) / step - 1) + 1)\<close>\<close>
  "range_size start end' step =
     num_max (NumInt 0) (num_plus (num_ceil (num_plus (num_div (num_plus end' (num_neg start)) step) (NumInt (-1)))) (NumInt 1))"

definition Range :: "jsnum option \<Rightarrow> jsnum option \<Rightarrow> jsnum option \<Rightarrow> range option" where
  \<comment> \<open>\<open>None\<close> is the error \<open>Cannot step a Range by 0\<close>; an empty range is a shared object\<close>
  "Range start end' step =
     (if step = Some (NumInt 0) then None
      else (let start = (case start of None \<Rightarrow> NumInt 0 | Some a \<Rightarrow> if a = NaN then NumInt 0 else a);
                end' = (case end' of None \<Rightarrow> PosInf | Some b \<Rightarrow> b);
                step = (case step of None \<Rightarrow> NumInt 1 | Some c \<Rightarrow> num_abs c);
                step = (if num_less end' start then num_neg step else step)
            in Some \<lparr>rg_start = start, rg_end = end', rg_step = step, rg_size = range_size start end' step\<rparr>))"

definition range_get :: "index_arg \<Rightarrow> jsnum option \<Rightarrow> range \<Rightarrow> jsnum option" where
  "range_get index notSet r =
     (if sized_has (rg_size r) index then Some (num_plus (rg_start r) (num_times (wrapIndex (rg_size r) index) (rg_step r))) else notSet)"

definition range_includes :: "jsnum \<Rightarrow> range \<Rightarrow> bool" where
  \<comment> \<open>on a number\<close>
  "range_includes searchValue r =
     (let possibleIndex = num_div (num_plus searchValue (num_neg (rg_start r))) (rg_step r)
      in num_geq possibleIndex (NumInt 0) \<and> num_less possibleIndex (rg_size r) \<and> num_eq possibleIndex (num_floor possibleIndex))"

definition range_slice :: "jsnum option \<Rightarrow> jsnum option \<Rightarrow> range \<Rightarrow> range option" where
  "range_slice begin end' r =
     (if wholeSlice begin end' (Some (rg_size r)) then Some r
      else (let begin = the (resolveBegin begin (Some (rg_size r))); end' = the (resolveEnd end' (Some (rg_size r)))
            in if num_leq end' begin then Range (Some (NumInt 0)) (Some (NumInt 0)) None
               else Range (range_get (NumArg begin) (Some (rg_end r)) r) (range_get (NumArg end') (Some (rg_end r)) r) (Some (rg_step r))))"

definition range_indexOf :: "jsnum \<Rightarrow> range \<Rightarrow> jsnum" where
  \<comment> \<open>on a number; \<open>lastIndexOf\<close> is the same\<close>
  "range_indexOf searchValue r =
     (let offsetValue = num_plus searchValue (num_neg (rg_start r))
      in if num_mod offsetValue (rg_step r) = NumInt 0
         then (let index = num_div offsetValue (rg_step r)
               in if num_geq index (NumInt 0) \<and> num_less index (rg_size r) then index else NumInt (-1))
         else NumInt (-1))"

definition first_value :: "bool \<Rightarrow> range \<Rightarrow> jsnum" where
  "first_value reverse r =
     (if reverse then num_plus (rg_start r) (num_times (num_plus (rg_size r) (NumInt (-1))) (rg_step r)) else rg_start r)"

definition next_value :: "bool \<Rightarrow> range \<Rightarrow> jsnum \<Rightarrow> jsnum" where
  "next_value reverse r value = num_plus value (if reverse then num_neg (rg_step r) else rg_step r)"

partial_function (option) range_loop :: "(nat, jsnum, 's) visitor \<Rightarrow> bool \<Rightarrow> range \<Rightarrow> nat \<Rightarrow> jsnum \<Rightarrow> 's \<Rightarrow> ('s \<times> nat) option" where
  "range_loop fn reverse r ii value s =
     (if num_leq (NumInt (int ii)) (num_plus (rg_size r) (NumInt (-1)))
      then (case fn value ii s of
              (s', stop) \<Rightarrow> if stop then Some (s', ii + 1) else range_loop fn reverse r (ii + 1) (next_value reverse r value) s')
      else Some (s, ii))"

definition range_iterate :: "range \<Rightarrow> (nat, jsnum, 's) visitor \<Rightarrow> bool \<Rightarrow> 's \<Rightarrow> ('s \<times> nat) option" where
  "range_iterate r fn reverse s = range_loop fn reverse r 0 (first_value reverse r) s"

definition range_next :: "range \<Rightarrow> iter_type \<Rightarrow> bool \<Rightarrow> ((nat, jsnum) item, nat \<times> jsnum) stepper" where
  \<comment> \<open>the state is \<open>ii\<close> and \<open>value\<close>, first \<open>(0, first_value reverse r)\<close>\<close>
  "range_next r type reverse = (\<lambda>(ii, value).
     let value' = next_value reverse r value
     in Some (if num_less (num_plus (rg_size r) (NumInt (-1))) (NumInt (int ii)) then (iteratorDone, (ii, value'))
              else (iteratorValue type ii value, (ii + 1, value'))))"

definition range_equals :: "range \<Rightarrow> range \<Rightarrow> bool" where
  \<comment> \<open>on another \<open>Range\<close>\<close>
  "range_equals r other \<longleftrightarrow> num_eq (rg_start r) (rg_start other) \<and> num_eq (rg_end r) (rg_end other) \<and> num_eq (rg_step r) (rg_step other)"

section \<open>The error of rounding\<close>

lemma pow2_Suc: "pow2 (e + 1) = 2 * pow2 e"
proof (cases "0 \<le> e")
  case True
  then show ?thesis by (simp add: pow2_def nat_add_distrib)
next
  case False
  then have "nat (- e) = Suc (nat (- (e + 1)))" by simp
  then show ?thesis using False by (simp add: pow2_def)
qed

lemma pow2_shift: "pow2 (e + int n) = 2 ^ n * pow2 e"
proof (induction n)
  case (Suc n)
  then show ?case using pow2_Suc [of "e + int n"] by (simp add: ac_simps)
qed simp

lemma round_half_even_error: "\<bar>of_int (round_half_even q) - q\<bar> \<le> 1 / 2"
proof -
  have "of_int \<lfloor>q\<rfloor> \<le> q" "q < of_int \<lfloor>q\<rfloor> + 1" by linarith+
  then show ?thesis by (simp add: round_half_even_def Let_def abs_le_iff)
qed

text \<open>Numbers up to \<open>2 ^ 31\<close> keep 22 bits behind the point.\<close>

lemma round_double_error:
  assumes "\<bar>q\<bar> \<le> 2 ^ 31" obtains v where "round_double q = Fin v" "\<bar>v - q\<bar> \<le> 1 / 2 ^ 22"
proof (cases "q = 0")
  case True
  show ?thesis by (rule that [of 0]) (simp_all add: True round_double_def)
next
  case False
  define e where "e = max (exponent \<bar>q\<bar> - 52) (- 1074)"
  define v where "v = of_int (round_half_even (\<bar>q\<bar> / pow2 e)) * pow2 e"
  have "pow2 e \<le> 1 / 2 ^ 21"
  proof (cases "- 1074 \<le> exponent \<bar>q\<bar> - 52")
    case True
    then have "e + int 52 = exponent \<bar>q\<bar>" by (simp add: e_def)
    then have "2 ^ 52 * pow2 e \<le> \<bar>q\<bar>" using exponent_le [of "\<bar>q\<bar>"] pow2_shift [of e 52] False by simp
    then show ?thesis using assms by simp
  next
    case small: False
    then have "pow2 e \<le> pow2 (- 21)" by (intro pow2_mono) (simp add: e_def)
    then show ?thesis by (simp add: pow2_def)
  qed
  moreover have p: "0 < pow2 e" by simp
  have eq: "\<bar>v - \<bar>q\<bar>\<bar> = \<bar>of_int (round_half_even (\<bar>q\<bar> / pow2 e)) - \<bar>q\<bar> / pow2 e\<bar> * pow2 e"
  proof -
    have "v - \<bar>q\<bar> = (of_int (round_half_even (\<bar>q\<bar> / pow2 e)) - \<bar>q\<bar> / pow2 e) * pow2 e"
      using less_imp_neq [OF p] by (simp add: v_def left_diff_distrib)
    then show ?thesis by (simp only: abs_mult abs_of_pos [OF p])
  qed
  have err: "\<bar>v - \<bar>q\<bar>\<bar> \<le> 1 / 2 * pow2 e"
    unfolding eq by (rule mult_right_mono [OF round_half_even_error less_imp_le [OF p]])
  ultimately have near: "\<bar>v - \<bar>q\<bar>\<bar> \<le> 1 / 2 ^ 22" using err by simp
  then have "v \<le> 2 ^ 31 + 1" using assms unfolding abs_le_iff [of "v - \<bar>q\<bar>"] by simp
  then have "v < 2 ^ 1024" by (rule le_less_trans) simp
  then have "round_double q = Fin (sgn q * v)" using False by (simp add: round_double_def Let_def e_def v_def)
  moreover have "\<bar>sgn q * v - q\<bar> = \<bar>v - \<bar>q\<bar>\<bar>" using False by (cases "0 < q") (auto simp: sgn_if)
  ultimately show ?thesis by (intro that) (assumption, simp only: near)
qed

section \<open>Integers are exact\<close>

lemma round_double_int:
  assumes "\<bar>n\<bar> \<le> 2 ^ 53" shows "round_double (of_int n) = NumInt n"
proof (cases "n = 0")
  case False
  define q :: rat where "q = of_int \<bar>n\<bar>"
  define e where "e = max (exponent q - 52) (- 1074)"
  have q: "0 < q" "\<bar>of_int n\<bar> = q" using False by (simp_all add: q_def)
  have e: "e \<le> 1"
  proof (rule ccontr)
    assume "\<not> e \<le> 1"
    then have "54 \<le> exponent q" by (simp add: e_def)
    then have "pow2 54 \<le> q" using pow2_mono [of 54 "exponent q"] exponent_le [OF q(1)] by simp
    moreover have "q \<le> of_int (2 ^ 53)" unfolding q_def using assms by (simp only: of_int_le_iff)
    ultimately show False by (simp add: pow2_def)
  qed
  obtain m :: int where m: "q / pow2 e = of_int m"
  proof (cases "e = 1")
    case True
    have "exponent q = 53" using True by (simp add: e_def max_def split: if_splits)
    then have "pow2 53 \<le> q" using exponent_le [OF q(1)] by simp
    then have "2 ^ 53 \<le> \<bar>n\<bar>" by (simp add: pow2_def q_def)
    then have "\<bar>n\<bar> = 2 ^ 53" using assms by simp
    then have "q / pow2 e = of_int (2 ^ 52)" using True by (simp add: q_def pow2_def)
    then show ?thesis by (rule that)
  next
    case False
    then have "e \<le> 0" using e by simp
    then have "q / pow2 e = of_int (\<bar>n\<bar> * 2 ^ nat (- e))" by (cases "e = 0") (simp_all add: q_def pow2_def)
    then show ?thesis by (rule that)
  qed
  have "of_int (round_half_even (q / pow2 e)) * pow2 e = q"
  proof -
    have "round_half_even (of_int m) = m" by (simp add: round_half_even_def Let_def)
    then have "of_int (round_half_even (q / pow2 e)) * pow2 e = q / pow2 e * pow2 e" unfolding m by simp
    moreover have "pow2 e \<noteq> 0" using pow2_pos [of e] by linarith
    ultimately show ?thesis by simp
  qed
  moreover have "q < 2 ^ 1024"
  proof -
    have "\<bar>n\<bar> < 2 ^ 1024" using assms by (rule le_less_trans) simp
    then show ?thesis unfolding q_def by (metis of_int_less_iff of_int_numeral of_int_power)
  qed
  moreover have "sgn (of_int n) * q = (of_int n :: rat)" unfolding q(2) [symmetric] by (rule sgn_mult_abs)
  ultimately show ?thesis using False
    by (simp add: round_double_def q(2) e_def [symmetric] Let_def NumInt_def)
qed (simp add: round_double_def NumInt_def)

lemma int_arith:
  "\<bar>a + b\<bar> \<le> 2 ^ 53 \<Longrightarrow> num_plus (NumInt a) (NumInt b) = NumInt (a + b)"
  "\<bar>a * b\<bar> \<le> 2 ^ 53 \<Longrightarrow> num_times (NumInt a) (NumInt b) = NumInt (a * b)"
  "b \<noteq> 0 \<Longrightarrow> \<bar>m\<bar> \<le> 2 ^ 53 \<Longrightarrow> num_div (NumInt (m * b)) (NumInt b) = NumInt m"
  "num_ceil (NumInt a) = NumInt a" "num_abs (NumInt a) = NumInt \<bar>a\<bar>"
  using round_double_int [of "a + b"] round_double_int [of "a * b"] round_double_int [of m]
  by (simp_all add: NumInt_def)

lemma int_mod: "b \<noteq> 0 \<Longrightarrow> num_mod (NumInt a) (NumInt b) = NumInt 0 \<longleftrightarrow> b dvd a"
proof -
  assume b: "b \<noteq> 0"
  let ?q = "of_int a / (of_int b :: rat)"
  have f: "\<lfloor>?q\<rfloor> = a div b" by (rule floor_divide_of_int_eq)
  have c: "\<lceil>?q\<rceil> = - (- a div b)" by (rule ceiling_divide_eq_div)
  have "(of_int a - of_int b * of_int (a div b) :: rat) = of_int (a mod b)"
    by (metis minus_mult_div_eq_mod of_int_diff of_int_mult)
  then have down: "(of_int a - of_int b * of_int (a div b) = (0::rat)) \<longleftrightarrow> b dvd a" by (simp add: dvd_eq_mod_eq_0)
  have "(of_int (- a) - of_int b * of_int (- a div b) :: rat) = of_int (- a mod b)"
    by (metis minus_mult_div_eq_mod of_int_diff of_int_mult)
  then have "(of_int (- a) - of_int b * of_int (- a div b) = (0::rat)) \<longleftrightarrow> b dvd a" by (simp add: dvd_eq_mod_eq_0 [symmetric])
  then have up: "(of_int a - of_int b * of_int (- (- a div b)) = (0::rat)) \<longleftrightarrow> b dvd a" by (simp add: algebra_simps) linarith
  have "num_mod (NumInt a) (NumInt b) = Fin (of_int a - of_int b * of_int (if 0 \<le> ?q then a div b else - (- a div b)))"
    using b by (simp add: NumInt_def f c)
  then show ?thesis using down up by (cases "0 \<le> ?q") (simp_all only: if_True if_False NumInt_def jsnum.inject of_int_0)
qed

section \<open>Integer ranges\<close>

definition int_range :: "range \<Rightarrow> int \<Rightarrow> int \<Rightarrow> nat \<Rightarrow> bool" where
  \<comment> \<open>\<open>r\<close> has \<open>n\<close> values from \<open>a\<close> in steps of \<open>st\<close>, all of them and the next ones on either side exact\<close>
  "int_range r a st n \<longleftrightarrow> rg_start r = NumInt a \<and> rg_step r = NumInt st \<and> rg_size r = NumInt (int n) \<and> st \<noteq> 0 \<and>
     \<bar>a\<bar> + (int n + 1) * \<bar>st\<bar> \<le> 2 ^ 53"

definition range_values :: "int \<Rightarrow> int \<Rightarrow> nat \<Rightarrow> jsnum list" where
  "range_values a st n = map (\<lambda>i. NumInt (a + int i * st)) [0..<n]"

lemma length_range_values [simp]: "length (range_values a st n) = n"
  by (simp add: range_values_def)

lemma range_exact:
  assumes "int_range r a st n" "-1 \<le> i" "i \<le> int n"
  shows "\<bar>a + i * st\<bar> \<le> 2 ^ 53" "\<bar>i * st\<bar> \<le> 2 ^ 53" "i \<le> 2 ^ 53"
proof -
  have "\<bar>i\<bar> \<le> int n + 1" using assms(2,3) by simp
  then have m: "\<bar>i * st\<bar> \<le> (int n + 1) * \<bar>st\<bar>" unfolding abs_mult by (rule mult_right_mono) simp
  then show "\<bar>a + i * st\<bar> \<le> 2 ^ 53" "\<bar>i * st\<bar> \<le> 2 ^ 53" using assms(1) unfolding int_range_def by linarith+
  have "st \<noteq> 0" using assms(1) by (simp add: int_range_def)
  then have "1 \<le> \<bar>st\<bar>" by presburger
  then have "int n + 1 \<le> (int n + 1) * \<bar>st\<bar>" using mult_left_mono [of 1 "\<bar>st\<bar>" "int n + 1"] by simp
  then show "i \<le> 2 ^ 53" using assms unfolding int_range_def by linarith
qed

definition value_at :: "bool \<Rightarrow> int \<Rightarrow> int \<Rightarrow> nat \<Rightarrow> nat \<Rightarrow> int" where
  "value_at rv a st n i = a + (if rv then int n - 1 - int i else int i) * st"

lemma nth_range_values: "i < n \<Longrightarrow> directed rv (range_values a st n) ! i = NumInt (value_at rv a st n i)"
  by (auto simp: nth_directed range_values_def value_at_def of_nat_diff)

lemma first_exact: "int_range r a st n \<Longrightarrow> first_value rv r = NumInt (value_at rv a st n 0)"
proof -
  assume r: "int_range r a st n"
  note f = r [unfolded int_range_def]
  note x = range_exact [OF r, of "int n - 1"]
  have "num_plus (rg_size r) (NumInt (-1)) = NumInt (int n - 1)" using f x(3) by (simp add: int_arith(1))
  then show ?thesis using f x by (simp add: first_value_def value_at_def int_arith)
qed

lemma next_exact:
  assumes r: "int_range r a st n" and i: "i < n"
  shows "next_value rv r (NumInt (value_at rv a st n i)) = NumInt (value_at rv a st n (Suc i))"
proof -
  note f = r [unfolded int_range_def]
  have "\<bar>value_at rv a st n (Suc i)\<bar> \<le> 2 ^ 53"
    unfolding value_at_def using i by (intro range_exact(1) [OF r]) auto
  then show ?thesis using f
    by (auto simp: next_value_def value_at_def int_arith(1) algebra_simps)
qed

lemma range_test:
  assumes r: "int_range r a st n"
  shows "num_leq (NumInt (int i)) (num_plus (rg_size r) (NumInt (-1))) \<longleftrightarrow> i < n"
    "num_less (num_plus (rg_size r) (NumInt (-1))) (NumInt (int i)) \<longleftrightarrow> n \<le> i"
proof -
  have "num_plus (rg_size r) (NumInt (-1)) = NumInt (int n - 1)"
    using r range_exact(3) [OF r, of "int n - 1"] by (simp add: int_range_def int_arith(1))
  then show "num_leq (NumInt (int i)) (num_plus (rg_size r) (NumInt (-1))) \<longleftrightarrow> i < n"
    "num_less (num_plus (rg_size r) (NumInt (-1))) (NumInt (int i)) \<longleftrightarrow> n \<le> i" by auto
qed

lemma range_loop_visit:
  assumes r: "int_range r a st n" and i: "i \<le> n"
  shows "range_loop fn rv r i (NumInt (value_at rv a st n i)) s =
    (case visit (drop i (indexed (directed rv (range_values a st n)))) fn s of (s', m) \<Rightarrow> Some (s', i + m))"
  using i
proof (induction "n - i" arbitrary: i s)
  case 0
  then show ?case by (subst range_loop.simps) (simp add: range_test [OF r])
next
  case (Suc d)
  then have lt: "i < n" by simp
  have d: "drop i (indexed (directed rv (range_values a st n))) =
      (i, NumInt (value_at rv a st n i)) # drop (Suc i) (indexed (directed rv (range_values a st n)))"
    using drop_indexed [of i "directed rv (range_values a st n)"] lt nth_range_values [OF lt] by simp
  obtain s' stop where f: "fn (NumInt (value_at rv a st n i)) i s = (s', stop)" by force
  have IH: "range_loop fn rv r (Suc i) (NumInt (value_at rv a st n (Suc i))) s' =
      (case visit (drop (Suc i) (indexed (directed rv (range_values a st n)))) fn s' of (s', m) \<Rightarrow> Some (s', Suc i + m))"
    using Suc.hyps(1) [of "Suc i" s'] Suc.hyps(2) lt by simp
  show ?case unfolding d
    by (subst range_loop.simps) (simp add: range_test [OF r] lt f IH next_exact [OF r lt] split: prod.splits)
qed

lemma range_iterate_visit:
  "int_range r a st n \<Longrightarrow> range_iterate r fn rv s = Some (visit (indexed (directed rv (range_values a st n))) fn s)"
  using range_loop_visit [of r a st n 0 fn rv s] by (simp add: range_iterate_def first_exact split: prod.splits)

lemma range_yields:
  assumes r: "int_range r a st n"
  shows "yields (range_next r type rv) (0, first_value rv r) (items type (indexed (directed rv (range_values a st n))))"
proof -
  have "yields (range_next r type rv) (i, NumInt (value_at rv a st n i)) (items type (drop i (indexed (directed rv (range_values a st n)))))"
    if "i \<le> n" for i
    using that
  proof (induction "n - i" arbitrary: i)
    case 0
    have "exhausted (range_next r type rv) (i, NumInt (value_at rv a st n i))"
      by (rule exhaustedI [of "\<lambda>p. n \<le> fst p"])
        (use 0 in \<open>auto simp: range_next_def Let_def range_test [OF r] iteratorDone_def\<close>)
    then show ?case using 0 by simp
  next
    case (Suc d)
    then have lt: "i < n" by simp
    have "drop i (indexed (directed rv (range_values a st n))) =
        (i, NumInt (value_at rv a st n i)) # drop (Suc i) (indexed (directed rv (range_values a st n)))"
      using drop_indexed [of i "directed rv (range_values a st n)"] lt nth_range_values [OF lt] by simp
    then show ?case using Suc.hyps(1) [of "Suc i"] Suc.hyps(2) lt
      by (simp add: range_next_def Let_def range_test [OF r] iteratorValue_def next_exact [OF r lt])
  qed
  from this [of 0] show ?thesis by (simp add: first_exact [OF r])
qed

lemma sized_has_int:
  "sized_has (NumInt (int n)) (NumArg (NumInt i)) \<longleftrightarrow> (let j = (if i < 0 then int n + i else i) in 0 \<le> j \<and> j < int n)"
proof -
  have "NumInt (int n) \<noteq> PosInf" by (simp add: NumInt_def)
  then show ?thesis by (auto simp: sized_has_def wrapIndex_def Let_def num_geq_def)
qed

lemma range_get_int:
  assumes r: "int_range r a st n"
  shows "range_get (NumArg (NumInt i)) d r =
    (let j = (if i < 0 then int n + i else i) in if 0 \<le> j \<and> j < int n then Some (range_values a st n ! nat j) else d)"
proof -
  define j where "j = (if i < 0 then int n + i else i)"
  note f = r [unfolded int_range_def]
  have w: "wrapIndex (rg_size r) (NumArg (NumInt i)) = NumInt j" using f by (simp add: wrapIndex_def j_def)
  have h: "sized_has (rg_size r) (NumArg (NumInt i)) \<longleftrightarrow> 0 \<le> j \<and> j < int n" using f sized_has_int by (simp add: j_def Let_def)
  show ?thesis
  proof (cases "0 \<le> j \<and> j < int n")
    case True
    then have "num_plus (rg_start r) (num_times (NumInt j) (rg_step r)) = NumInt (a + j * st)"
      using f range_exact [OF r, of j] by (simp add: int_arith)
    then show ?thesis using True h unfolding j_def [symmetric] Let_def range_get_def w by (simp add: range_values_def nat_less_iff)
  next
    case False
    then show ?thesis using h unfolding j_def [symmetric] Let_def by (auto simp: range_get_def)
  qed
qed

lemma range_indexOf_int:
  assumes r: "int_range r a st n" and x: "\<bar>x\<bar> \<le> 2 ^ 52" "\<bar>a\<bar> \<le> 2 ^ 52"
  shows "i < n \<Longrightarrow> x = a + int i * st \<Longrightarrow> range_indexOf (NumInt x) r = NumInt (int i)"
    and "NumInt x \<notin> set (range_values a st n) \<Longrightarrow> range_indexOf (NumInt x) r = NumInt (-1)"
proof -
  note f = r [unfolded int_range_def]
  have off: "num_plus (NumInt x) (num_neg (rg_start r)) = NumInt (x - a)" using f x by (simp add: int_arith(1))
  have m: "num_mod (NumInt (x - a)) (rg_step r) = NumInt 0 \<longleftrightarrow> st dvd x - a" using f int_mod [of st "x - a"] by simp
  have q: "num_div (NumInt (c * st)) (rg_step r) = NumInt c" if "c * st = x - a" for c
  proof -
    have "st \<noteq> 0" using f by simp
    then have "1 \<le> \<bar>st\<bar>" by presburger
    then have "\<bar>c\<bar> * 1 \<le> \<bar>c\<bar> * \<bar>st\<bar>" by (intro mult_left_mono) simp_all
    also have "\<dots> = \<bar>x - a\<bar>" using that by (simp add: abs_mult [symmetric])
    finally have "\<bar>c\<bar> \<le> 2 ^ 53" using x by simp
    then show ?thesis using f int_arith(3) [of st c] by simp
  qed
  show "range_indexOf (NumInt x) r = NumInt (int i)" if "i < n" "x = a + int i * st"
    using that m off q [of "int i"] f by (simp add: range_indexOf_def Let_def num_geq_def)
  show "range_indexOf (NumInt x) r = NumInt (-1)" if no: "NumInt x \<notin> set (range_values a st n)"
  proof (cases "st dvd x - a")
    case True
    then obtain c where c: "x - a = c * st" by (metis dvdE mult.commute)
    have "\<not> (0 \<le> c \<and> c < int n)"
    proof
      assume "0 \<le> c \<and> c < int n"
      then have x: "x = a + int (nat c) * st" and "nat c < n" using c by (simp_all add: nat_less_iff)
      have "NumInt x = range_values a st n ! nat c" unfolding x using \<open>nat c < n\<close> by (simp add: range_values_def)
      then show False using no \<open>nat c < n\<close> nth_mem [of "nat c" "range_values a st n"] by simp
    qed
    then show ?thesis using c m off q [of c] True f by (auto simp: range_indexOf_def Let_def num_geq_def)
  next
    case False
    then show ?thesis using m off by (simp add: range_indexOf_def Let_def)
  qed
qed

text \<open>
  The size of a range is the quotient rounded up: neither of the two roundings to a double before \<open>Math.ceil\<close> reaches the next
  integer.
\<close>

lemma ceil_of_rounded:
  assumes "0 \<le> d" "d \<le> 2 ^ 31" "0 < c" "c \<le> 2 ^ 20"
  shows "num_ceil (num_plus (round_double (of_int d / of_int c)) (NumInt (- 1))) = NumInt (- (- d div c) - 1)"
proof (cases "c dvd d")
  case True
  then obtain m where m: "d = c * m" by blast
  have "0 \<le> m" using m assms(1,3) by (simp add: zero_le_mult_iff)
  then have "m * 1 \<le> m * c" using assms(3) by (intro mult_left_mono) simp_all
  then have "\<bar>m\<bar> \<le> 2 ^ 53" using m assms(2) \<open>0 \<le> m\<close> by (simp add: mult.commute)
  then have "round_double (of_int d / of_int c) = NumInt m" using m assms(3) round_double_int [of m] by simp
  moreover have "num_plus (NumInt m) (NumInt (- 1)) = NumInt (m - 1)" using \<open>\<bar>m\<bar> \<le> 2 ^ 53\<close> \<open>0 \<le> m\<close> int_arith(1) [of m "- 1"] by simp
  moreover have "- (- d div c) = m"
  proof -
    have "- d = c * - m" using m by simp
    then have "- d div c = - m" using assms(3) nonzero_mult_div_cancel_left [of c "- m"] by (simp only:)
    then show ?thesis by simp
  qed
  ultimately show ?thesis by (simp add: int_arith(4))
next
  case False
  define n where "n = d div c" define r where "r = d mod c"
  have "r \<noteq> 0" using False by (simp add: r_def dvd_eq_mod_eq_0)
  then have r: "1 \<le> r" "r + 1 \<le> c" using pos_mod_bound [OF assms(3), of d] pos_mod_sign [OF assms(3), of d] unfolding r_def by linarith+
  have d: "d = n * c + r" by (simp add: n_def r_def)
  have n0: "0 \<le> n" using assms(1,3) by (simp add: n_def pos_imp_zdiv_nonneg_iff)
  have "n * 1 \<le> n * c" by (rule mult_left_mono) (use r n0 in simp_all)
  then have n: "0 \<le> n" "n \<le> 2 ^ 31" using assms(2) r d n0 by linarith+
  have up: "- (- d div c) = n + 1"
    using False assms(3) by (simp add: zdiv_zminus1_eq_if n_def dvd_eq_mod_eq_0)
  define q :: rat where "q = of_int d / of_int c"
  have q: "q = of_int n + of_int r / of_int c" using assms(3) by (simp add: q_def d add_divide_distrib)
  have frac: "1 / 2 ^ 20 \<le> (of_int r / of_int c :: rat)" "(of_int r / of_int c :: rat) \<le> 1 - 1 / 2 ^ 20"
  proof -
    have "(of_int c :: rat) \<le> of_int (2 ^ 20)" using assms(4) by (simp only: of_int_le_iff)
    then have c: "(0 :: rat) < of_int c" "(of_int c :: rat) \<le> 2 ^ 20" using assms(3) by simp_all
    then have i: "1 / 2 ^ 20 \<le> 1 / (of_int c :: rat)" by (intro divide_left_mono) simp_all
    have "(of_int 1 :: rat) \<le> of_int r" "of_int (r + 1) \<le> (of_int c :: rat)" using r by (simp_all only: of_int_le_iff)
    then have "1 / of_int c \<le> (of_int r / of_int c :: rat)" "(of_int r / of_int c :: rat) \<le> (of_int c - 1) / of_int c"
      using c(1) by (simp_all add: divide_right_mono)
    moreover have "(of_int c - 1) / (of_int c :: rat) = 1 - 1 / of_int c" using c(1) by (simp add: diff_divide_distrib)
    ultimately show "1 / 2 ^ 20 \<le> (of_int r / of_int c :: rat)" "(of_int r / of_int c :: rat) \<le> 1 - 1 / 2 ^ 20"
      using i by linarith+
  qed
  have "(of_int 0 :: rat) \<le> of_int n" "(of_int n :: rat) \<le> of_int (2 ^ 31)" using n by (simp_all only: of_int_le_iff)
  then have n': "(0 :: rat) \<le> of_int n" "(of_int n :: rat) \<le> 2 ^ 31" by simp_all
  have "\<bar>q\<bar> \<le> 2 ^ 31"
  proof -
    have "d \<le> 2 ^ 31 * c" using assms(2,3) mult_left_mono [of 1 c "2 ^ 31"] by simp
    then have "(of_int d :: rat) \<le> of_int (2 ^ 31 * c)" by (simp only: of_int_le_iff)
    then show ?thesis using assms(1,3) by (simp add: q_def abs_divide divide_le_eq)
  qed
  then obtain v where v: "round_double q = Fin v" "\<bar>v - q\<bar> \<le> 1 / 2 ^ 22" by (rule round_double_error)
  have "\<bar>v + - 1\<bar> \<le> 2 ^ 31" using v(2) q frac n' unfolding abs_le_iff by simp
  then obtain w where w: "round_double (v + - 1) = Fin w" "\<bar>w - (v + - 1)\<bar> \<le> 1 / 2 ^ 22" by (rule round_double_error)
  define f :: rat where "f = of_int r / of_int c"
  have fr: "1 / 2 ^ 20 \<le> f" "f \<le> 1 - 1 / 2 ^ 20" "q = of_int n + f" using frac q by (simp_all add: f_def)
  have "q - v \<le> 1 / 2 ^ 22" "v - q \<le> 1 / 2 ^ 22" "v - 1 - w \<le> 1 / 2 ^ 22" "w - v + 1 \<le> 1 / 2 ^ 22"
    using v(2) w(2) abs_ge_self [of "v - q"] abs_ge_minus_self [of "v - q"] abs_ge_self [of "w - (v + - 1)"]
      abs_ge_minus_self [of "w - (v + - 1)"]
    by linarith+
  moreover have "2 * (1 / 2 ^ 22) < (1 / 2 ^ 20 :: rat)" by simp
  ultimately have "of_int n - 1 < w" "w \<le> of_int n" using fr by linarith+
  then have "\<lceil>w\<rceil> = n" by (simp add: ceiling_eq_iff)
  then show ?thesis using v(1) w(1) up by (simp add: q_def [symmetric] NumInt_def)
qed

lemma Range_ints:
  assumes "\<bar>a\<bar> \<le> 2 ^ 30" "\<bar>b\<bar> \<le> 2 ^ 30" "c \<noteq> 0" "\<bar>c\<bar> \<le> 2 ^ 20"
  defines "st \<equiv> if b < a then - \<bar>c\<bar> else \<bar>c\<bar>" and "n \<equiv> nat (- (- \<bar>b - a\<bar> div \<bar>c\<bar>))"
  obtains r where "Range (Some (NumInt a)) (Some (NumInt b)) (Some (NumInt c)) = Some r" "int_range r a st n"
proof -
  define r where "r = \<lparr>rg_start = NumInt a, rg_end = NumInt b, rg_step = NumInt st, rg_size = NumInt (int n)\<rparr>"
  let ?n = "- (- \<bar>b - a\<bar> div \<bar>c\<bar>)"
  have d: "\<bar>b - a\<bar> \<le> 2 ^ 31" using assms(1,2) by simp
  have c: "1 \<le> \<bar>c\<bar>" using assms(3) by presburger
  have neg: "- \<bar>b - a\<bar> div \<bar>c\<bar> \<le> 0" using c by (simp add: div_nonpos_pos_le0)
  then have n: "int n = ?n" by (simp add: n_def)
  have "?n * \<bar>c\<bar> = \<bar>b - a\<bar> + (- \<bar>b - a\<bar>) mod \<bar>c\<bar>" using minus_div_mult_eq_mod [of "- \<bar>b - a\<bar>" "\<bar>c\<bar>"] by simp
  moreover have "(- \<bar>b - a\<bar>) mod \<bar>c\<bar> < \<bar>c\<bar>" using c by (intro pos_mod_bound) simp
  ultimately have prod: "int n * \<bar>c\<bar> \<le> 2 ^ 31 + 2 ^ 20" using d assms(4) n by simp
  have "int n * 1 \<le> int n * \<bar>c\<bar>" by (rule mult_left_mono [OF c]) simp
  then have small: "int n \<le> 2 ^ 32" using prod by simp
  have diff: "num_plus (NumInt b) (NumInt (- a)) = NumInt (b - a)" using int_arith(1) [of b "- a"] assms(1,2) by simp
  have "of_int (b - a) / of_int st = (of_int \<bar>b - a\<bar> / of_int \<bar>c\<bar> :: rat)"
    by (cases "b < a") (simp_all add: st_def diff_divide_distrib)
  then have "num_div (NumInt (b - a)) (NumInt st) = round_double (of_int \<bar>b - a\<bar> / of_int \<bar>c\<bar>)"
    using assms(3) by (simp add: NumInt_def st_def)
  then have "num_ceil (num_plus (num_div (NumInt (b - a)) (NumInt st)) (NumInt (- 1))) = NumInt (int n - 1)"
    using ceil_of_rounded [of "\<bar>b - a\<bar>" "\<bar>c\<bar>"] d c assms(4) n by simp
  then have "range_size (NumInt a) (NumInt b) (NumInt st) = NumInt (int n)"
    using small int_arith(1) [of "int n - 1" 1] by (simp add: range_size_def diff del: num_plus.simps)
  then have "Range (Some (NumInt a)) (Some (NumInt b)) (Some (NumInt c)) = Some r"
    using assms(3) by (cases "b < a") (simp_all add: Range_def r_def st_def int_arith(5) NumInt_not_NaN)
  moreover have "\<bar>a\<bar> + (int n + 1) * \<bar>st\<bar> \<le> 2 ^ 53" using prod assms(1,4) by (simp add: st_def algebra_simps)
  then have "int_range r a st n" using assms(3) by (simp add: int_range_def r_def st_def)
  ultimately show ?thesis by (rule that)
qed

text \<open>These are the numbers from \<open>a\<close> on, in steps of \<open>c\<close> towards \<open>b\<close>, before \<open>b\<close> is reached.\<close>

lemma range_values_between:
  fixes a b c y :: int
  assumes "c \<noteq> 0"
  defines "st \<equiv> if b < a then - \<bar>c\<bar> else \<bar>c\<bar>" and "n \<equiv> nat (- (- \<bar>b - a\<bar> div \<bar>c\<bar>))"
  shows "NumInt y \<in> set (range_values a st n) \<longleftrightarrow> c dvd y - a \<and> (if b < a then b < y \<and> y \<le> a else a \<le> y \<and> y < b)"
proof -
  have c: "(0 :: rat) < of_int \<bar>c\<bar>" using assms(1) by simp
  have n: "i < n \<longleftrightarrow> int i * \<bar>c\<bar> < \<bar>b - a\<bar>" for i
  proof -
    have f: "\<lfloor>of_int (- \<bar>b - a\<bar>) / (of_int \<bar>c\<bar> :: rat)\<rfloor> = - \<bar>b - a\<bar> div \<bar>c\<bar>" by (rule floor_divide_of_int_eq)
    have "i < n \<longleftrightarrow> \<not> - int i \<le> \<lfloor>of_int (- \<bar>b - a\<bar>) / (of_int \<bar>c\<bar> :: rat)\<rfloor>" unfolding f n_def by auto
    also have "\<dots> \<longleftrightarrow> \<not> of_int (- int i * \<bar>c\<bar>) \<le> (of_int (- \<bar>b - a\<bar>) :: rat)"
      unfolding le_floor_iff pos_le_divide_eq [OF c] of_int_mult ..
    finally show ?thesis by (simp only: of_int_le_iff) auto
  qed
  have "NumInt y \<in> set (range_values a st n) \<longleftrightarrow> (\<exists>i. int i * \<bar>c\<bar> < \<bar>b - a\<bar> \<and> y = a + int i * st)"
    by (auto simp: range_values_def n)
  also have "\<dots> \<longleftrightarrow> c dvd y - a \<and> (if b < a then b < y \<and> y \<le> a else a \<le> y \<and> y < b)"
  proof
    assume "\<exists>i. int i * \<bar>c\<bar> < \<bar>b - a\<bar> \<and> y = a + int i * st"
    then obtain i where i: "int i * \<bar>c\<bar> < \<bar>b - a\<bar>" "y = a + int i * st" by blast
    have "0 \<le> int i * \<bar>c\<bar>" by simp
    then show "c dvd y - a \<and> (if b < a then b < y \<and> y \<le> a else a \<le> y \<and> y < b)" using i by (auto simp: st_def)
  next
    assume y: "c dvd y - a \<and> (if b < a then b < y \<and> y \<le> a else a \<le> y \<and> y < b)"
    then obtain k where k: "y - a = c * k" by blast
    have "\<bar>y - a\<bar> = int (nat \<bar>k\<bar>) * \<bar>c\<bar>" by (simp add: k abs_mult mult.commute)
    then show "\<exists>i. int i * \<bar>c\<bar> < \<bar>b - a\<bar> \<and> y = a + int i * st"
      using y by (intro exI [of _ "nat \<bar>k\<bar>"]) (auto simp: st_def split: if_splits)
  qed
  finally show ?thesis .
qed

section \<open>Finite repeats\<close>

definition finite_repeat :: "'v repeat \<Rightarrow> nat \<Rightarrow> bool" where
  "finite_repeat r n \<longleftrightarrow> rep_size r = NumInt (int n)"

lemma repeat_loop_visit:
  assumes r: "finite_repeat r n" and i: "i \<le> n"
  shows "repeat_loop fn r i s =
    (case visit (drop i (indexed (replicate n (rep_value r)))) fn s of (s', m) \<Rightarrow> Some (s', i + m))"
  using i
proof (induction "n - i" arbitrary: i s)
  case 0
  then show ?case using r by (subst repeat_loop.simps) (simp add: finite_repeat_def)
next
  case (Suc d)
  then have lt: "i < n" by simp
  have d: "drop i (indexed (replicate n (rep_value r))) = (i, rep_value r) # drop (Suc i) (indexed (replicate n (rep_value r)))"
    using drop_indexed [of i "replicate n (rep_value r)"] lt by simp
  obtain s' stop where f: "fn (rep_value r) i s = (s', stop)" by force
  have IH: "repeat_loop fn r (Suc i) s' =
      (case visit (drop (Suc i) (indexed (replicate n (rep_value r)))) fn s' of (s', m) \<Rightarrow> Some (s', Suc i + m))"
    using Suc.hyps(1) [of "Suc i" s'] Suc.hyps(2) lt by simp
  show ?case unfolding d
    using r lt by (subst repeat_loop.simps) (simp add: finite_repeat_def f IH split: prod.splits)
qed

lemma repeat_iterate_visit:
  "finite_repeat r n \<Longrightarrow> repeat_iterate r fn s = Some (visit (indexed (replicate n (rep_value r))) fn s)"
  using repeat_loop_visit [of r n 0 fn s] by (simp add: repeat_iterate_def split: prod.splits)

lemma repeat_yields:
  assumes "finite_repeat r n" shows "yields (repeat_next r type) 0 (items type (indexed (replicate n (rep_value r))))"
  by (rule index_yields)
    (use assms in \<open>auto simp: repeat_next_def finite_repeat_def iteratorValue_def iteratorDone_def nth_items indexed_def\<close>)

lemma repeat_slice_int:
  assumes "finite_repeat r n" "int n \<le> 2 ^ 53"
  shows "finite_repeat (repeat_slice (map_option NumInt b) (map_option NumInt e) r) (nat (end_of e (int n) - begin_of b (int n)))"
    and "rep_value (repeat_slice (map_option NumInt b) (map_option NumInt e) r) = rep_value r"
proof -
  have sz: "rep_size r = NumInt (int n)" using assms(1) by (simp add: finite_repeat_def)
  have "0 \<le> begin_of b (int n)" "begin_of b (int n) \<le> int n" "0 \<le> end_of e (int n)" "end_of e (int n) \<le> int n"
    by (auto simp: begin_of_def end_of_def split: option.splits)
  then have d: "\<bar>end_of e (int n) + - begin_of b (int n)\<bar> \<le> 2 ^ 53" using assms(2) by simp
  show "finite_repeat (repeat_slice (map_option NumInt b) (map_option NumInt e) r) (nat (end_of e (int n) - begin_of b (int n)))"
  proof (cases "wholeSlice (map_option NumInt b) (map_option NumInt e) (Some (NumInt (int n)))")
    case True
    then have "begin_of b (int n) = 0 \<and> end_of e (int n) = int n" using wholeSlice_finite [of b e "int n"]
      by (auto simp: begin_of_def end_of_def split: option.splits)
    then show ?thesis using True sz by (simp add: repeat_slice_def finite_repeat_def)
  next
    case False
    then show ?thesis using int_arith(1) [OF d] sz
      by (simp add: repeat_slice_def finite_repeat_def Repeat_def resolveBegin_finite resolveEnd_finite Let_def max_def)
  qed
  show "rep_value (repeat_slice (map_option NumInt b) (map_option NumInt e) r) = rep_value r"
    by (simp add: repeat_slice_def Let_def Repeat_def)
qed

text \<open>\<open>equals\<close> between repeats compares the values and not how often they come.\<close>

lemma repeat_equals_ignores_size:
  "is' v v \<Longrightarrow> repeat_equals is' (Repeat v (Some (NumInt 2))) (Repeat v (Some (NumInt 3)))"
  by (simp add: repeat_equals_def Repeat_def)

lemma repeat_lastIndexOf_past_end:
  "is' v v \<Longrightarrow> repeat_lastIndexOf is' v (Repeat v (Some (NumInt 3))) = NumInt 3"
  by (simp add: repeat_lastIndexOf_def Repeat_def)

end
