(* ===== verification/Seq_RangeProps.thy ===== *)
theory Seq_RangeProps
  imports Seq_Ranges
begin

text \<open>
  The property of \<open>Range\<close>. The bounds keep every sum and product of the code below \<open>2 ^ 53\<close>, where integers are
  exact doubles, and the error of its one division too small to change the number of values.
\<close>

text \<open>
  C32. An integer range holds exactly the numbers from its start on, in its steps, that lie before its end, whichever way it runs and
  whether or not the end is one of them: \<open>Range(a, b, c)\<close> is built with that many values although the code finds their number by
  dividing doubles. Both protocols deliver them in order (backwards from the last), adding up the steps one by one;
  \<open>get\<close> answers them by index, counted from the end when it is negative, and \<open>indexOf\<close> finds exactly them.
\<close>

theorem range_progression:
  assumes "\<bar>a\<bar> \<le> 2 ^ 30" "\<bar>b\<bar> \<le> 2 ^ 30" "c \<noteq> 0" "\<bar>c\<bar> \<le> 2 ^ 20" "\<bar>x\<bar> \<le> 2 ^ 52"
  shows "\<exists>r st n. Range (Some (NumInt a)) (Some (NumInt b)) (Some (NumInt c)) = Some r \<and> \<bar>st\<bar> = \<bar>c\<bar> \<and>
    (\<forall>y. NumInt y \<in> set (range_values a st n) \<longleftrightarrow> c dvd y - a \<and> (if b < a then b < y \<and> y \<le> a else a \<le> y \<and> y < b)) \<and>
    range_iterate r fn rv s = Some (visit (indexed (directed rv (range_values a st n))) fn s) \<and>
    yields (range_next r type rv) (0, first_value rv r) (items type (indexed (directed rv (range_values a st n)))) \<and>
    range_get (NumArg (NumInt i)) d r =
      (let j = (if i < 0 then int n + i else i) in if 0 \<le> j \<and> j < int n then Some (range_values a st n ! nat j) else d) \<and>
    range_indexOf (NumInt x) r = (if NumInt x \<in> set (range_values a st n) then NumInt ((x - a) div st) else NumInt (-1))"
proof -
  define st where "st = (if b < a then - \<bar>c\<bar> else \<bar>c\<bar>)"
  define n where "n = nat (- (- \<bar>b - a\<bar> div \<bar>c\<bar>))"
  obtain r where r: "Range (Some (NumInt a)) (Some (NumInt b)) (Some (NumInt c)) = Some r" "int_range r a st n"
    by (rule Range_ints [OF assms(1-4), of thesis, folded st_def n_def])
  have a: "\<bar>a\<bar> \<le> 2 ^ 52" using assms(1) by simp
  have idx: "range_indexOf (NumInt x) r = (if NumInt x \<in> set (range_values a st n) then NumInt ((x - a) div st) else NumInt (-1))"
  proof (cases "NumInt x \<in> set (range_values a st n)")
    case True
    then obtain j where j: "j < n" "x = a + int j * st" by (auto simp: range_values_def)
    then have "(x - a) div st = int j" using assms(3) by (simp add: st_def)
    then show ?thesis using True range_indexOf_int(1) [OF r(2) assms(5) a j] by simp
  next
    case False
    then show ?thesis using range_indexOf_int(2) [OF r(2) assms(5) a] by simp
  qed
  have st: "\<bar>st\<bar> = \<bar>c\<bar>" by (simp add: st_def)
  note between = range_values_between [OF assms(3), of _ a b, folded st_def n_def]
  show ?thesis
    by (intro exI [of _ r] exI [of _ st] exI [of _ n] conjI allI)
      (rule r(1) st between range_iterate_visit [OF r(2)] range_yields [OF r(2)] range_get_int [OF r(2)] idx)+
qed

theorem range_progression_witness:
  "\<exists>r st n. Range (Some (NumInt 0)) (Some (NumInt 10)) (Some (NumInt 3)) = Some r \<and>
     (\<forall>y. NumInt y \<in> set (range_values 0 st n) \<longleftrightarrow> 3 dvd y \<and> 0 \<le> y \<and> y < 10) \<and> range_indexOf (NumInt 12) r = NumInt (-1)"
proof -
  have h: "\<bar>0 :: int\<bar> \<le> 2 ^ 30" "\<bar>10 :: int\<bar> \<le> 2 ^ 30" "(3 :: int) \<noteq> 0" "\<bar>3 :: int\<bar> \<le> 2 ^ 20" "\<bar>12 :: int\<bar> \<le> 2 ^ 52" by simp_all
  obtain r st n where r: "Range (Some (NumInt 0)) (Some (NumInt 10)) (Some (NumInt 3)) = Some r"
    "\<forall>y. NumInt y \<in> set (range_values 0 st n) \<longleftrightarrow> 3 dvd y - 0 \<and> (if (10 :: int) < 0 then 10 < y \<and> y \<le> 0 else 0 \<le> y \<and> y < 10)"
    "range_indexOf (NumInt 12) r = (if NumInt 12 \<in> set (range_values 0 st n) then NumInt ((12 - 0) div st) else NumInt (-1))"
    using range_progression [OF h, of "\<lambda>v k s. (s, False)" False "()" KEYS "- 1" None] by (elim exE conjE) (rule that)
  have "NumInt 12 \<notin> set (range_values 0 st n)" unfolding r(2) [rule_format] by simp
  then show ?thesis using r by (intro exI [of _ r] exI [of _ st] exI [of _ n]) simp
qed

end
