(* ===== verification/Imm_Stack.thy ===== *)
theory Imm_Stack
  imports Seq_Reads
begin

text \<open>
  \<open>Stack\<close> of \<open>static/drf-yasg/immutable.js\<close>: a singly linked list of nodes, which are never edited,
  with its size. The list of the nodes' values stands for \<open>_head\<close>. A method answers the receiver
  (\<open>This\<close>, edited in place when it has an owner) or another stack (\<open>New\<close>).
\<close>

record 'v stack =
  s_size :: int
  s_head :: "'v list"
  s_owner :: "nat option"
  s_hash :: "int32 option"
  s_altered :: bool

definition makeStack :: "int \<Rightarrow> 'v list \<Rightarrow> nat option \<Rightarrow> int32 option \<Rightarrow> 'v stack" where
  "makeStack size' head own hash' = \<lparr>s_size = size', s_head = head, s_owner = own, s_hash = hash', s_altered = False\<rparr>"

definition emptyStack :: "'v stack" where
  "emptyStack = makeStack 0 [] None None"

definition stack_store :: "'v stack \<Rightarrow> int \<Rightarrow> 'v list \<Rightarrow> 'v stack upd" where
  \<comment> \<open>the end of \<open>push\<close>, \<open>pushAll\<close> and \<open>slice\<close>\<close>
  "stack_store st newSize head =
     (if s_owner st \<noteq> None then This (st\<lparr>s_size := newSize, s_head := head, s_hash := None, s_altered := True\<rparr>)
      else New (makeStack newSize head None None))"

section \<open>Access\<close>

definition falsy_num :: "jsnum \<Rightarrow> bool" where
  "falsy_num n \<longleftrightarrow> n = NaN \<or> n = NumInt 0"

fun stack_walk :: "'v list \<Rightarrow> jsnum \<Rightarrow> 'v list" where
  \<comment> \<open>\<open>while (head && index--) head = head.next\<close>\<close>
  "stack_walk [] index = []"
| "stack_walk (v # head) index = (if falsy_num index then v # head else stack_walk head (num_add index (NumInt (-1))))"

definition stack_get :: "index_arg \<Rightarrow> 'v option \<Rightarrow> 'v stack \<Rightarrow> 'v option" where
  "stack_get index notSet st =
     (case stack_walk (s_head st) (wrapIndex (NumInt (s_size st)) index) of [] \<Rightarrow> notSet | v # _ \<Rightarrow> Some v)"

definition stack_peek :: "'v stack \<Rightarrow> 'v option" where
  "stack_peek st = (case s_head st of [] \<Rightarrow> None | v # _ \<Rightarrow> Some v)"

section \<open>Modification\<close>

definition stack_push :: "'v list \<Rightarrow> 'v stack \<Rightarrow> 'v stack upd" where
  "stack_push values st =
     (if values = [] then This st
      else stack_store st (s_size st + int (length values)) (fold (\<lambda>v head. v # head) (rev values) (s_head st)))"

definition stack_pushAll :: "nat option \<Rightarrow> ('k, 'v, int \<times> 'v list) iterate \<Rightarrow> 'v stack \<Rightarrow> 'v stack upd" where
  \<comment> \<open>the size and the \<open>__iterate\<close> of the indexed iterable\<close>
  "stack_pushAll iter_size it st =
     (if iter_size = Some 0 then This st
      else (case fst (reverse_iterate it (\<lambda>v k (newSize, head). ((newSize + 1, v # head), False)) False (s_size st, s_head st)) of
              (newSize, head) \<Rightarrow> stack_store st newSize head))"

definition Stack_of :: "nat option \<Rightarrow> ('k, 'v, int \<times> 'v list) iterate \<Rightarrow> 'v stack" where
  \<comment> \<open>\<open>Stack(value)\<close> for a value that is not a stack\<close>
  "Stack_of iter_size it = upd_default emptyStack (stack_pushAll iter_size it emptyStack)"

definition stack_clear :: "'v stack \<Rightarrow> 'v stack upd" where
  "stack_clear st =
     (if s_size st = 0 then This st
      else if s_owner st \<noteq> None then This (st\<lparr>s_size := 0, s_head := [], s_hash := None, s_altered := True\<rparr>)
      else New emptyStack)"

fun stack_skip :: "'v list \<Rightarrow> jsnum \<Rightarrow> 'v list option" where
  \<comment> \<open>\<open>while (resolvedBegin--) head = head.next\<close>; \<open>None\<close> is the \<open>TypeError\<close> at the end of the nodes\<close>
  "stack_skip head resolvedBegin =
     (if falsy_num resolvedBegin then Some head
      else (case head of [] \<Rightarrow> None | _ # next \<Rightarrow> stack_skip next (num_add resolvedBegin (NumInt (-1)))))"

declare stack_skip.simps [simp del]

datatype 'v slice_outcome = Sliced "'v stack upd" | SuperSlice "'v stack" | SliceError

definition stack_slice :: "jsnum option \<Rightarrow> jsnum option \<Rightarrow> 'v stack \<Rightarrow> 'v slice_outcome" where
  \<comment> \<open>a slice that stops before the end is the one of \<open>IndexedCollection\<close>, made a stack again by \<open>reify\<close>\<close>
  "stack_slice begin end' st =
     (let n = NumInt (s_size st)
      in if wholeSlice begin end' (Some n) then Sliced (This st)
         else (let resolvedBegin = the (resolveBegin begin (Some n)); resolvedEnd = resolveEnd end' (Some n)
               in if resolvedEnd \<noteq> Some n
                  then SuperSlice (Stack_of None (ArraySeq_iterate (slice_values (begin, end') (s_head st))))
                  else (case stack_skip (s_head st) resolvedBegin of
                          None \<Rightarrow> SliceError
                        | Some head \<Rightarrow>
                            (case resolvedBegin of
                               Fin b \<Rightarrow> Sliced (stack_store st (s_size st - \<lfloor>b\<rfloor>) head)
                             | _ \<Rightarrow> SliceError))))"

definition stack_pop :: "'v stack \<Rightarrow> 'v slice_outcome" where
  "stack_pop st = stack_slice (Some (NumInt 1)) None st"

section \<open>Owners\<close>

definition stack_ensureOwner :: "nat option \<Rightarrow> 'v stack \<Rightarrow> 'v stack upd" where
  "stack_ensureOwner own st =
     (if own = s_owner st then This st
      else if own = None then This (st\<lparr>s_owner := None, s_altered := False\<rparr>)
      else New (makeStack (s_size st) (s_head st) own (s_hash st)))"

definition stack_withMutations :: "nat \<Rightarrow> ('v stack \<Rightarrow> 'v stack) \<Rightarrow> 'v stack \<Rightarrow> 'v stack upd" where
  \<comment> \<open>\<open>fn\<close> gives the state of the mutable stack after the callback\<close>
  "stack_withMutations fresh fn st =
     (if s_owner st \<noteq> None then This (fn st)
      else (let mutable = fn (upd_default st (stack_ensureOwner (Some fresh) st))
            in if s_altered mutable then New (upd_default mutable (stack_ensureOwner (s_owner st) mutable)) else This st))"

section \<open>Iteration\<close>

fun stack_loop :: "(nat, 'v, 's) visitor \<Rightarrow> 'v list \<Rightarrow> nat \<Rightarrow> 's \<Rightarrow> 's \<times> nat" where
  "stack_loop fn [] iterations s = (s, iterations)"
| "stack_loop fn (v # node) iterations s =
     (case fn v iterations s of (s', stop) \<Rightarrow>
        if stop then (s', iterations + 1) else stack_loop fn node (iterations + 1) s')"

definition stack_iterate :: "'v stack \<Rightarrow> (nat, 'v, 's) iterate" where
  \<comment> \<open>backwards through \<open>this.reverse()\<close>, a new stack of the values in the other order\<close>
  "stack_iterate st fn reverse s =
     (if reverse then stack_loop fn (s_head (Stack_of None (ArraySeq_iterate (rev (s_head st))))) 0 s
      else stack_loop fn (s_head st) 0 s)"

definition stack_next :: "iter_type \<Rightarrow> ((nat, 'v) item, 'v list \<times> nat) stepper" where
  "stack_next type = (\<lambda>(node, iterations).
     Some (case node of
             [] \<Rightarrow> (iteratorDone, (node, iterations))
           | v # node' \<Rightarrow> (iteratorValue type iterations v, (node', iterations + 1))))"

section \<open>A stack is a list\<close>

definition stack_ok :: "'v stack \<Rightarrow> bool" where
  "stack_ok st \<longleftrightarrow> s_size st = int (length (s_head st))"

definition stack_becomes :: "'v stack \<Rightarrow> 'v stack upd \<Rightarrow> 'v list \<Rightarrow> bool" where
  \<comment> \<open>the result is well formed, holds the given values, keeps the owner, and an ownerless receiver
    is not edited\<close>
  "stack_becomes st r vs \<longleftrightarrow>
     stack_ok (upd_default st r) \<and> s_head (upd_default st r) = vs \<and> s_owner (upd_default st r) = s_owner st \<and>
     (s_owner st = None \<longrightarrow> is_this r \<longrightarrow> upd_default st r = st)"

lemma makeStack_simps [simp]:
  "s_size (makeStack n h own hash') = n" "s_head (makeStack n h own hash') = h" "s_owner (makeStack n h own hash') = own"
  "s_altered (makeStack n h own hash') = False"
  by (simp_all add: makeStack_def)

lemma emptyStack_simps [simp]: "s_size emptyStack = 0" "s_head emptyStack = []" "s_owner emptyStack = None" "stack_ok emptyStack"
  by (simp_all add: emptyStack_def stack_ok_def)

lemma stack_store_becomes: "n = int (length h) \<Longrightarrow> stack_becomes st (stack_store st n h) h"
  by (simp add: stack_becomes_def stack_store_def stack_ok_def)

lemma stack_same: "stack_ok st \<Longrightarrow> stack_becomes st (This st) (s_head st)"
  by (simp add: stack_becomes_def)

lemma stack_push_becomes: "stack_ok st \<Longrightarrow> stack_becomes st (stack_push values st) (values @ s_head st)"
  using stack_store_becomes [of "s_size st + int (length values)" "values @ s_head st" st] stack_same [of st]
  by (auto simp: stack_push_def stack_ok_def fold_Cons_rev)

lemma stack_pushAll_becomes:
  assumes "stack_ok st" "delivers it True (indexed (rev vs))" "iter_size = None \<or> iter_size = Some (length vs)"
  shows "stack_becomes st (stack_pushAll iter_size it st) (vs @ s_head st)"
proof (cases "iter_size = Some 0")
  case True
  then have "vs = []" using assms(3) by auto
  then show ?thesis using True assms(1) by (simp add: stack_pushAll_def stack_same)
next
  case False
  have f: "fold (\<lambda>(k, v) (n, h). (n + 1, v # h)) es (n, h) = (n + int (length es), rev (map snd es) @ h)" for es and n :: int and h :: "'b list"
    by (induction es arbitrary: n h) auto
  have "fst (reverse_iterate it (\<lambda>v k (n, h). ((n + 1, v # h), False)) False (s_size st, s_head st)) =
      (s_size st + int (length vs), vs @ s_head st)"
    using f [of "indexed (rev vs)"]
    by (simp add: reverse_iterate_def deliversD [OF assms(2)] visit_never case_prod_beta')
  then show ?thesis using False assms(1) stack_store_becomes [of "s_size st + int (length vs)" "vs @ s_head st" st]
    by (simp add: stack_pushAll_def stack_ok_def)
qed

lemma Stack_of_array: "stack_ok (Stack_of None (ArraySeq_iterate vs)) \<and> s_head (Stack_of None (ArraySeq_iterate vs)) = vs"
proof -
  have "stack_becomes emptyStack (stack_pushAll None (ArraySeq_iterate vs) emptyStack) (vs @ s_head emptyStack)"
    by (rule stack_pushAll_becomes) (simp_all add: ArraySeq_delivers [of vs True, simplified])
  then show ?thesis by (simp add: Stack_of_def stack_becomes_def)
qed

lemma stack_walk_nat: "stack_walk h (NumInt (int n)) = drop n h"
proof (induction n arbitrary: h)
  case 0
  then show ?case by (cases h) (simp_all add: falsy_num_def)
next
  case (Suc n)
  have e: "int (Suc n) - 1 = int n" by simp
  show ?case using Suc by (cases h) (simp_all add: falsy_num_def e del: of_nat_Suc)
qed

lemma stack_walk_negative: "i < 0 \<Longrightarrow> stack_walk h (NumInt i) = []"
  by (induction h arbitrary: i) (auto simp: falsy_num_def)

lemma stack_get_nth:
  assumes "stack_ok st"
  shows "stack_get (NumArg (NumInt i)) notSet st =
    (let n = int (length (s_head st)); j = (if i < 0 then n + i else i)
     in if 0 \<le> j \<and> j < n then Some (s_head st ! nat j) else notSet)"
proof -
  let ?n = "int (length (s_head st))"
  define j where "j = (if i < 0 then ?n + i else i)"
  have w: "wrapIndex (NumInt (s_size st)) (NumArg (NumInt i)) = NumInt j"
    using assms by (simp add: wrapIndex_def j_def stack_ok_def)
  have "stack_walk (s_head st) (NumInt j) = (if j < 0 then [] else drop (nat j) (s_head st))"
    using stack_walk_nat [of "s_head st" "nat j"] stack_walk_negative [of j "s_head st"] by (cases "j < 0") simp_all
  moreover have "0 \<le> j \<Longrightarrow> j < ?n \<Longrightarrow> drop (nat j) (s_head st) = s_head st ! nat j # drop (Suc (nat j)) (s_head st)"
    by (rule Cons_nth_drop_Suc [symmetric]) simp
  ultimately show ?thesis
    unfolding stack_get_def w Let_def j_def [symmetric] by auto
qed

lemma stack_loop_visit: "stack_loop fn h i s = (case visit (numbered i h) fn s of (s', n) \<Rightarrow> (s', i + n))"
  by (induction fn h i s rule: stack_loop.induct) (auto split: prod.splits)

lemma stack_delivers: "delivers (stack_iterate st) r (indexed (directed r (s_head st)))"
  by (rule deliversI)
    (simp add: stack_iterate_def Stack_of_array stack_loop_visit numbered_0 split: prod.splits)

lemma stack_yields: "yields (stack_next type) (h, i) (items type (numbered i h))"
proof (induction h arbitrary: i)
  case Nil
  have "exhausted (stack_next type) ([], i)"
    by (rule exhaustedI [of "\<lambda>p. fst p = []"]) (auto simp: stack_next_def iteratorDone_def)
  then show ?case by simp
qed (simp add: stack_next_def iteratorValue_def)

lemma stack_skip_nat: "stack_skip h (NumInt (int n)) = (if n \<le> length h then Some (drop n h) else None)"
proof (induction n arbitrary: h)
  case 0
  then show ?case by (subst stack_skip.simps) (simp add: falsy_num_def)
next
  case (Suc n)
  have e: "int (Suc n) - 1 = int n" by simp
  show ?case using Suc by (subst stack_skip.simps) (simp add: falsy_num_def e del: of_nat_Suc split: list.splits)
qed

text \<open>A slice on integer bounds that reaches the end drops nodes; any other one is built anew.\<close>

definition outcome_upd :: "'v slice_outcome \<Rightarrow> 'v stack upd option" where
  "outcome_upd r = (case r of Sliced u \<Rightarrow> Some u | SuperSlice st \<Rightarrow> Some (New st) | SliceError \<Rightarrow> None)"

lemma slice_values_end:
  assumes "pred_option int32_ok b" "pred_option int32_ok e" "end_of e (int (length xs)) = int (length xs)"
  shows "slice_values (map_option NumInt b, map_option NumInt e) xs = drop (nat (begin_of b (int (length xs)))) xs"
proof -
  have "begin_of b (int (length xs)) \<ge> 0" by (cases b) (auto simp: begin_of_def)
  then show ?thesis using assms(3) by (simp add: slice_values_int [OF assms(1,2)] nat_diff_distrib)
qed

lemma case_NumInt: "case_jsnum x y f (NumInt n) = f (of_int n)"
  by (simp add: NumInt_def)

lemma stack_slice_values:
  assumes "stack_ok st" "pred_option int32_ok b" "pred_option int32_ok e"
  obtains u where "outcome_upd (stack_slice (map_option NumInt b) (map_option NumInt e) st) = Some u"
    "stack_ok (upd_default st u)"
    "s_head (upd_default st u) = slice_values (map_option NumInt b, map_option NumInt e) (s_head st)"
proof -
  let ?n = "s_size st" and ?b = "map_option NumInt b" and ?e = "map_option NumInt e"
  have n: "?n = int (length (s_head st))" using assms(1) by (simp add: stack_ok_def)
  show ?thesis
  proof (cases "wholeSlice ?b ?e (Some (NumInt ?n))")
    case True
    then have "slice_bounds ?b ?e (Some (NumInt ?n)) = WholeIterable"
      using slice_bounds_int [OF assms(2,3), of ?n] by (simp add: wholeSlice_finite)
    then show ?thesis using that [of "This st"] True assms(1) n by (simp add: outcome_upd_def stack_slice_def slice_values_def)
  next
    case whole: False
    show ?thesis
    proof (cases "end_of e ?n = ?n")
      case False
      define st' where "st' = Stack_of None (ArraySeq_iterate (slice_values (?b, ?e) (s_head st)))"
      have "stack_slice ?b ?e st = SuperSlice st'"
        using whole False by (simp add: stack_slice_def Let_def resolveEnd_finite st'_def)
      then show ?thesis using that [of "New st'"] Stack_of_array [of "slice_values (?b, ?e) (s_head st)"]
        by (simp add: outcome_upd_def st'_def)
    next
      case True
      have b: "0 \<le> begin_of b ?n" "begin_of b ?n \<le> ?n" using n by (cases b; simp add: begin_of_def)+
      have skip: "stack_skip (s_head st) (NumInt (begin_of b ?n)) = Some (drop (nat (begin_of b ?n)) (s_head st))"
        using stack_skip_nat [of "s_head st" "nat (begin_of b ?n)"] b n by simp
      have "stack_slice ?b ?e st = Sliced (stack_store st (?n - begin_of b ?n) (drop (nat (begin_of b ?n)) (s_head st)))"
        using whole True skip by (simp add: stack_slice_def Let_def resolveEnd_finite resolveBegin_finite case_NumInt)
      moreover have "stack_becomes st (stack_store st (?n - begin_of b ?n) (drop (nat (begin_of b ?n)) (s_head st)))
          (drop (nat (begin_of b ?n)) (s_head st))"
        by (rule stack_store_becomes) (use b n in simp)
      moreover have sv: "slice_values (?b, ?e) (s_head st) = drop (nat (begin_of b ?n)) (s_head st)"
        using slice_values_end [OF assms(2,3), of "s_head st"] True n by simp
      ultimately show ?thesis by (intro that [OF _ _ trans [OF _ sv [symmetric]]]) (auto simp: outcome_upd_def stack_becomes_def)
    qed
  qed
qed

lemma stack_pop_tl:
  assumes "stack_ok st"
  obtains u where "stack_pop st = Sliced u" "stack_becomes st u (tl (s_head st))"
proof -
  have n: "s_size st = int (length (s_head st))" using assms by (simp add: stack_ok_def)
  have whole: "\<not> wholeSlice (Some (NumInt 1)) None (Some (NumInt (s_size st)))"
    using n wholeSlice_finite [of "Some 1" None "s_size st"] by simp
  have e: "resolveEnd None (Some (NumInt (s_size st))) = Some (NumInt (s_size st))"
    using resolveEnd_finite [of None "s_size st"] by (simp add: end_of_def)
  have b: "resolveBegin (Some (NumInt 1)) (Some (NumInt (s_size st))) = Some (NumInt (min (s_size st) 1))"
    using resolveBegin_finite [of "Some 1" "s_size st"] by (simp add: begin_of_def)
  have skip: "stack_skip (s_head st) (NumInt (min (s_size st) 1)) = Some (tl (s_head st))"
    using stack_skip_nat [of "s_head st" "nat (min (s_size st) 1)"] n by (cases "s_head st") simp_all
  have "stack_pop st = Sliced (stack_store st (s_size st - min (s_size st) 1) (tl (s_head st)))"
    using whole skip by (simp add: stack_pop_def stack_slice_def Let_def e b case_NumInt)
  moreover have "s_size st - min (s_size st) 1 = int (length (tl (s_head st)))" using n by (cases "s_head st") simp_all
  ultimately show ?thesis using that stack_store_becomes by metis
qed

section \<open>Mutation in a batch\<close>

lemma stack_withMutations_becomes:
  assumes "stack_ok st"
    and "\<And>m. stack_ok m \<Longrightarrow> s_head m = s_head st \<Longrightarrow> s_owner m \<noteq> None \<Longrightarrow>
      stack_ok (fn m) \<and> s_head (fn m) = vs \<and> s_owner (fn m) = s_owner m \<and> (fn m = m \<or> s_altered (fn m))"
  shows "stack_ok (upd_default st (stack_withMutations fresh fn st))" "s_head (upd_default st (stack_withMutations fresh fn st)) = vs"
    "s_owner (upd_default st (stack_withMutations fresh fn st)) = s_owner st"
proof -
  let ?m = "makeStack (s_size st) (s_head st) (Some fresh) (s_hash st)"
  have "stack_ok ?m" using assms(1) by (simp add: stack_ok_def)
  then have m: "stack_ok (fn ?m)" "s_head (fn ?m) = vs" "s_owner (fn ?m) = Some fresh" "fn ?m = ?m \<or> s_altered (fn ?m)"
    using assms(2) [of ?m] by auto
  have "stack_ok (upd_default st (stack_withMutations fresh fn st)) \<and> s_head (upd_default st (stack_withMutations fresh fn st)) = vs \<and>
      s_owner (upd_default st (stack_withMutations fresh fn st)) = s_owner st"
  proof (cases "s_owner st = None")
    case True
    show ?thesis
    proof (cases "s_altered (fn ?m)")
      case altered: True
      then show ?thesis using m True by (simp add: stack_withMutations_def stack_ensureOwner_def stack_ok_def Let_def)
    next
      case False
      then have "fn ?m = ?m" using m(4) by simp
      then have "vs = s_head st" using m(2) by simp
      then show ?thesis using False True assms(1) by (simp add: stack_withMutations_def stack_ensureOwner_def Let_def)
    qed
  next
    case False
    then show ?thesis using assms by (simp add: stack_withMutations_def)
  qed
  then show "stack_ok (upd_default st (stack_withMutations fresh fn st))" "s_head (upd_default st (stack_withMutations fresh fn st)) = vs"
    "s_owner (upd_default st (stack_withMutations fresh fn st)) = s_owner st" by auto
qed

section \<open>The interface of a last-in first-out store\<close>

locale lifo =
  fixes inv :: "'s \<Rightarrow> bool" and contents :: "'s \<Rightarrow> 'v list"
    and add :: "'v \<Rightarrow> 's \<Rightarrow> 's" and drop_last :: "'s \<Rightarrow> 's" and last_of :: "'s \<Rightarrow> 'v option"
  assumes add_inv: "inv s \<Longrightarrow> inv (add v s)"
    and add_contents: "inv s \<Longrightarrow> contents (add v s) = v # contents s"
    and drop_inv: "inv s \<Longrightarrow> inv (drop_last s)"
    and drop_contents: "inv s \<Longrightarrow> contents (drop_last s) = tl (contents s)"
    and last_contents: "inv s \<Longrightarrow> last_of s = (case contents s of [] \<Rightarrow> None | v # _ \<Rightarrow> Some v)"
begin

definition adds :: "'v list \<Rightarrow> 's \<Rightarrow> 's" where
  "adds vs s = fold add vs s"

definition drops :: "nat \<Rightarrow> 's \<Rightarrow> 's" where
  "drops n s = (drop_last ^^ n) s"

lemma adds_spec: "inv s \<Longrightarrow> inv (adds vs s) \<and> contents (adds vs s) = rev vs @ contents s"
  by (induction vs arbitrary: s) (auto simp: adds_def add_inv add_contents)

lemma drops_spec: "inv s \<Longrightarrow> inv (drops n s) \<and> contents (drops n s) = drop n (contents s)"
  by (induction n) (auto simp: drops_def drop_inv drop_contents tl_drop drop_Suc)

lemma drops_adds: "inv s \<Longrightarrow> contents (drops (length vs) (adds vs s)) = contents s"
  using adds_spec [of s vs] drops_spec [of "adds vs s" "length vs"] by simp

lemma last_adds: "inv s \<Longrightarrow> last_of (adds (vs @ [v]) s) = Some v"
  using adds_spec [of s "vs @ [v]"] last_contents [of "adds (vs @ [v]) s"] by simp

end

definition push1 :: "'v \<Rightarrow> 'v stack \<Rightarrow> 'v stack" where
  "push1 v st = upd_default st (stack_push [v] st)"

definition pop1 :: "'v stack \<Rightarrow> 'v stack" where
  "pop1 st = (case stack_pop st of Sliced u \<Rightarrow> upd_default st u | _ \<Rightarrow> st)"

interpretation stack_lifo: lifo stack_ok s_head push1 pop1 stack_peek
proof
  fix st :: "'v stack" and v
  assume ok: "stack_ok st"
  show "stack_ok (push1 v st)" "s_head (push1 v st) = v # s_head st"
    using stack_push_becomes [OF ok, of "[v]"] by (simp_all add: push1_def stack_becomes_def)
  obtain u where pop: "stack_pop st = Sliced u" "stack_becomes st u (tl (s_head st))" by (rule stack_pop_tl [OF ok])
  show "stack_ok (pop1 st)" "s_head (pop1 st) = tl (s_head st)"
    using pop by (simp_all add: pop1_def stack_becomes_def)
  show "stack_peek st = (case s_head st of [] \<Rightarrow> None | v # _ \<Rightarrow> Some v)" by (simp add: stack_peek_def)
qed

end
