(* ===== verification/Imm_StackProps.thy ===== *)
theory Imm_StackProps
  imports Imm_Stack
begin

text \<open>
  The properties of \<open>Stack\<close>. \<open>stack_becomes st r vs\<close> says that a call on \<open>st\<close> returns a well-formed stack
  with the values \<open>vs\<close>, top first, keeps the owner, and does not edit an ownerless receiver.
\<close>

lemma stack_clear_becomes: "stack_ok st \<Longrightarrow> stack_becomes st (stack_clear st) []"
  by (cases "s_head st") (auto simp: stack_clear_def stack_becomes_def stack_ok_def emptyStack_def makeStack_def)

lemma Stack_pushes_back: "stack_ok st \<Longrightarrow> s_head ((pop1 ^^ length vs) (fold push1 vs st)) = s_head st"
  using stack_lifo.drops_adds [of st vs] by (simp add: stack_lifo.drops_def stack_lifo.adds_def)

text \<open>
  C28. \<open>Stack\<close> refines a list with its top first: \<open>push\<close> and \<open>pushAll\<close> put their values before the others in
  the order given, \<open>pop\<close> drops the top (nothing, on an empty stack), \<open>clear\<close> empties the stack, and any
  sequence of pushes is undone by as many pops. Each keeps the size field right and an
  ownerless receiver as it was.
\<close>

theorem stack_refines_list:
  assumes "stack_ok st" "delivers it True (indexed (rev ws))" "n = None \<or> n = Some (length ws)"
  shows "stack_becomes st (stack_push vs st) (vs @ s_head st) \<and> stack_becomes st (stack_pushAll n it st) (ws @ s_head st) \<and>
    (\<exists>u. stack_pop st = Sliced u \<and> stack_becomes st u (tl (s_head st))) \<and> stack_becomes st (stack_clear st) [] \<and>
    s_head ((pop1 ^^ length vs) (fold push1 vs st)) = s_head st"
proof -
  obtain u where "stack_pop st = Sliced u" "stack_becomes st u (tl (s_head st))" by (rule stack_pop_tl [OF assms(1)])
  then show ?thesis
    using stack_push_becomes [OF assms(1)] stack_pushAll_becomes [OF assms] stack_clear_becomes [OF assms(1)] Stack_pushes_back [OF assms(1)]
    by simp
qed

theorem stack_refines_list_witness:
  "\<exists>u. stack_pop (makeStack 2 ''ab'' None None) = Sliced u \<and> s_head (upd_default (makeStack 2 ''ab'' None None) u) = ''b'' \<and>
     s_head (upd_default (makeStack 2 ''ab'' None None) (stack_pushAll (Some 2) (ArraySeq_iterate ''xy'') (makeStack 2 ''ab'' None None))) = ''xyab''"
proof -
  have "stack_ok (makeStack 2 ''ab'' None None)" by (simp add: stack_ok_def)
  moreover have "delivers (ArraySeq_iterate ''xy'') True (indexed (rev ''xy''))"
    using ArraySeq_delivers [of "''xy''" True] by (simp add: indexed_def)
  ultimately show ?thesis
    using stack_refines_list [of "makeStack 2 ''ab'' None None" "ArraySeq_iterate ''xy''" "''xy''" "Some 2" "[]"]
    by (auto simp: stack_becomes_def)
qed

text \<open>
  Reading a stack: \<open>get\<close> of an index counts from the top, of a negative one from the bottom, and answers
  the default outside; \<open>slice\<close> ends with the values between the resolved bounds, by dropping nodes when it
  reaches the end and by rebuilding the stack when it does not.
\<close>

theorem stack_get_slice:
  assumes "stack_ok st" "pred_option int32_ok b" "pred_option int32_ok e"
  shows "stack_get (NumArg (NumInt i)) d st =
      (let n = int (length (s_head st)); j = (if i < 0 then n + i else i)
       in if 0 \<le> j \<and> j < n then Some (s_head st ! nat j) else d) \<and>
    (\<exists>u. outcome_upd (stack_slice (map_option NumInt b) (map_option NumInt e) st) = Some u \<and> stack_ok (upd_default st u) \<and>
      s_head (upd_default st u) =
        take (nat (end_of e (s_size st) - begin_of b (s_size st))) (drop (nat (begin_of b (s_size st))) (s_head st)))"
proof -
  have n: "s_size st = int (length (s_head st))" using assms(1) by (simp add: stack_ok_def)
  obtain u where "outcome_upd (stack_slice (map_option NumInt b) (map_option NumInt e) st) = Some u" "stack_ok (upd_default st u)"
      "s_head (upd_default st u) = slice_values (map_option NumInt b, map_option NumInt e) (s_head st)"
    by (rule stack_slice_values [OF assms])
  then show ?thesis using stack_get_nth [OF assms(1), of i d] slice_values_int [OF assms(2,3), of "s_head st"] unfolding n by simp
qed

theorem stack_get_slice_witness:
  "stack_get (NumArg (NumInt (-1))) None (makeStack 3 ''abc'' None None) = Some (CHR ''c'') \<and>
   (\<exists>u. outcome_upd (stack_slice (Some (NumInt 0)) (Some (NumInt (-1))) (makeStack 3 ''abc'' None None)) = Some u \<and>
     s_head (upd_default (makeStack 3 ''abc'' None None) u) = ''ab'')"
proof -
  have "stack_ok (makeStack 3 ''abc'' None None)" by (simp add: stack_ok_def)
  from stack_get_slice [OF this, of "Some 0" "Some (-1)" "-1" None] show ?thesis
    by (auto simp: int32_ok_def begin_of_def end_of_def numeral_2_eq_2)
qed

text \<open>What is no index finds the top: \<open>while (head && index--)\<close> stops at once at \<open>NaN\<close>.\<close>

lemma stack_get_NaN: "s_head st = v # vs \<Longrightarrow> stack_get (NumArg NaN) d st = Some v"
  by (simp add: stack_get_def wrapIndex_def falsy_num_def)

end
