(* ===== verification/Imm_Set.thy ===== *)
theory Imm_Set
  imports JS_Keys
begin

text \<open>
  \<open>Set\<close> of \<open>static/drf-yasg/immutable.js\<close>: a \<open>Map\<close> from the members to \<open>true\<close>. The values given to
  \<open>union\<close>, \<open>intersect\<close> and \<open>subtract\<close> are lists (what the iterables visit), with \<open>includes\<close> tests for
  the latter two. An update of the map that returns the map itself (\<open>newMap === set._map\<close>) is \<open>This\<close>.
\<close>

record 'k iset =
  set_size :: int
  set_map :: "('k, jsval) imap"
  set_owner :: owner

definition makeSet :: "('k, jsval) imap \<Rightarrow> owner \<Rightarrow> 'k iset" where
  "makeSet m own = \<lparr>set_size = map_size m, set_map = m, set_owner = own\<rparr>"

definition emptySet :: "'k iset" where
  "emptySet = makeSet emptyMap None"

definition updateSet :: "'k iset \<Rightarrow> ('k, jsval) imap upd \<Rightarrow> 'k iset upd" where
  "updateSet s newMap =
     (let m = upd_default (set_map s) newMap
      in if set_owner s \<noteq> None then This (s\<lparr>set_size := map_size m, set_map := m\<rparr>)
         else if is_this newMap then This (s\<lparr>set_map := m\<rparr>)
         else if map_size m = 0 then New emptySet
         else New (makeSet m None))"

section \<open>Access and modification\<close>

definition set_has :: "('k, jsval) eqenv \<Rightarrow> 'k \<Rightarrow> 'k iset \<Rightarrow> bool" where
  "set_has E value s = map_has E value (set_map s)"

definition set_add :: "('k, jsval) eqenv \<Rightarrow> nat \<Rightarrow> 'k \<Rightarrow> 'k iset \<Rightarrow> 'k iset upd" where
  "set_add E fresh value s = updateSet s (map_set E fresh value (Bool True) (set_map s))"

definition set_remove :: "('k, jsval) eqenv \<Rightarrow> nat \<Rightarrow> 'k \<Rightarrow> 'k iset \<Rightarrow> 'k iset upd" where
  "set_remove E fresh value s = updateSet s (map_remove E fresh value (set_map s))"

definition set_clear :: "'k iset \<Rightarrow> 'k iset upd" where
  "set_clear s = updateSet s (map_clear (set_map s))"

section \<open>Owners\<close>

definition set_ensureOwner :: "owner \<Rightarrow> 'k iset \<Rightarrow> 'k iset upd" where
  "set_ensureOwner own s =
     (if own = set_owner s then This s
      else (let newMap = upd_default (set_map s) (map_ensureOwner own (set_map s))
            in if own = None then This (s\<lparr>set_owner := None, set_map := newMap\<rparr>) else New (makeSet newMap own)))"

definition set_asMutable :: "nat \<Rightarrow> 'k iset \<Rightarrow> 'k iset upd" where
  "set_asMutable fresh s = (if set_owner s \<noteq> None then This s else set_ensureOwner (Some fresh) s)"

definition set_withMutations :: "nat \<Rightarrow> ('k iset \<Rightarrow> 'k iset) \<Rightarrow> 'k iset \<Rightarrow> 'k iset upd" where
  "set_withMutations fresh fn s =
     (if set_owner s \<noteq> None then This (fn s)
      else (let mutable = fn (upd_default s (set_asMutable fresh s))
            in if map_altered (set_map mutable) then New (upd_default mutable (set_ensureOwner (set_owner s) mutable)) else This s))"

section \<open>Construction and iteration\<close>

definition add_values :: "('k, jsval) eqenv \<Rightarrow> nat \<Rightarrow> 'k list \<Rightarrow> 'k iset \<Rightarrow> 'k iset" where
  "add_values E fresh vs s = fold (\<lambda>v s. upd_default s (set_add E fresh v s)) vs s"

definition remove_values :: "('k, jsval) eqenv \<Rightarrow> nat \<Rightarrow> 'k list \<Rightarrow> 'k iset \<Rightarrow> 'k iset" where
  "remove_values E fresh vs s = fold (\<lambda>v s. upd_default s (set_remove E fresh v s)) vs s"

definition Set_of_values :: "('k, jsval) eqenv \<Rightarrow> nat \<Rightarrow> 'k list \<Rightarrow> 'k iset" where
  \<comment> \<open>\<open>Set(value)\<close> for a value that is not an unordered set\<close>
  "Set_of_values E fresh vs = upd_default emptySet (set_withMutations fresh (add_values E fresh vs) emptySet)"

definition Set_fromKeys :: "('k, jsval) eqenv \<Rightarrow> nat \<Rightarrow> ('k \<times> 'v) list \<Rightarrow> 'k iset" where
  "Set_fromKeys E fresh es = Set_of_values E fresh (map fst es)"

definition set_iterate :: "('k \<Rightarrow> 'k \<Rightarrow> 's \<Rightarrow> 's \<times> bool) \<Rightarrow> bool \<Rightarrow> 'k iset \<Rightarrow> 's \<Rightarrow> 's \<times> nat" where
  "set_iterate fn reverse s = map_iterate (\<lambda>_ k. fn k k) reverse (set_map s)"

definition set_values :: "'k iset \<Rightarrow> 'k list" where
  \<comment> \<open>what \<open>forEach\<close> visits\<close>
  "set_values s = rev (fst (set_iterate (\<lambda>v _ acc. (v # acc, False)) False s []))"

section \<open>Composition\<close>

definition set_union :: "('k, jsval) eqenv \<Rightarrow> nat \<Rightarrow> 'k list list \<Rightarrow> 'k iset \<Rightarrow> 'k iset upd" where
  \<comment> \<open>on iterables of known size; \<open>merge\<close> and \<open>mergeWith\<close> are the same\<close>
  "set_union E fresh iters s =
     (let iters = filter (\<lambda>x. length x \<noteq> 0) iters
      in if iters = [] then This s
         else if set_size s = 0 \<and> set_owner s = None \<and> length iters = 1 then New (Set_of_values E fresh (hd iters))
         else set_withMutations fresh (fold (add_values E fresh) iters) s)"

definition set_intersect :: "('k, jsval) eqenv \<Rightarrow> nat \<Rightarrow> ('k \<Rightarrow> bool) list \<Rightarrow> 'k iset \<Rightarrow> 'k iset upd" where
  \<comment> \<open>each iterable by its \<open>includes\<close>; on a receiver without owner, whose own nodes the callback does not edit\<close>
  "set_intersect E fresh iters s =
     (if iters = [] then This s
      else set_withMutations fresh
             (remove_values E fresh (filter (\<lambda>value. \<not> list_all (\<lambda>includes. includes value) iters) (set_values s))) s)"

definition set_subtract :: "('k, jsval) eqenv \<Rightarrow> nat \<Rightarrow> ('k \<Rightarrow> bool) list \<Rightarrow> 'k iset \<Rightarrow> 'k iset upd" where
  "set_subtract E fresh iters s =
     (if iters = [] then This s
      else set_withMutations fresh
             (remove_values E fresh (filter (\<lambda>value. list_ex (\<lambda>includes. includes value) iters) (set_values s))) s)"

section \<open>Removing from the set that is being iterated\<close>

text \<open>
  When the receiver of \<open>intersect\<close> or \<open>subtract\<close> has an owner, \<open>withMutations\<close> hands the receiver
  itself to the callback, which removes values from the map whose root is being iterated. The loop of an array node reads
  \<open>entries[ii]\<close> up to the length the array had at first. When the node has the owner of the set, a removal edits this very
  array: the last entry moves into the gap and the array gets shorter, unless it was the only
  entry, when the map drops its root. Otherwise the first removal gives the map a new node, and the loop keeps the old array.
  Reading the key of a missing entry throws (\<open>None\<close>).
\<close>

definition root_array :: "'k iset \<Rightarrow> (owner \<times> ('k \<times> jsval) list) option" where
  \<comment> \<open>the owner and the array of the map's root, when that is an array node\<close>
  "root_array s = (case map_root (set_map s) of Some (ArrayMapNode o' entries) \<Rightarrow> Some (o', entries) | _ \<Rightarrow> None)"

function live_loop ::
  "('k, jsval) eqenv \<Rightarrow> nat \<Rightarrow> ('k \<Rightarrow> bool) \<Rightarrow> nat \<Rightarrow> nat \<Rightarrow> bool \<Rightarrow> ('k \<times> jsval) list \<Rightarrow> 'k iset \<Rightarrow> 'k iset option" where
  \<comment> \<open>\<open>entries\<close> is the array that is iterated; \<open>shared\<close>: it is still that of the set's root\<close>
  "live_loop E fresh keep maxIndex ii shared entries s =
     (if maxIndex < ii then Some s
      else (case nth_opt entries ii of
              None \<Rightarrow> None
            | Some entry \<Rightarrow>
                if keep (fst entry) then live_loop E fresh keep maxIndex (ii + 1) shared entries s
                else (let s' = upd_default s (set_remove E fresh (fst entry) s)
                      in case (root_array s, root_array s') of
                           (Some (o', _), Some (_, entries')) \<Rightarrow>
                             if shared \<and> editable (set_owner s) o' then live_loop E fresh keep maxIndex (ii + 1) True entries' s'
                             else live_loop E fresh keep maxIndex (ii + 1) False entries s'
                         | _ \<Rightarrow> live_loop E fresh keep maxIndex (ii + 1) False entries s')))"
  by pat_completeness auto
termination by (relation "measure (\<lambda>(E, fresh, keep, maxIndex, ii, shared, entries, s). Suc maxIndex - ii)") auto

declare live_loop.simps [simp del]

definition live_filter :: "('k, jsval) eqenv \<Rightarrow> nat \<Rightarrow> ('k \<Rightarrow> bool) \<Rightarrow> 'k iset \<Rightarrow> 'k iset option" where
  \<comment> \<open>\<open>originalSet.forEach(...)\<close> where \<open>set\<close> is \<open>originalSet\<close>. The nodes of a larger set, whose root is a trie node, are taken not to
    be its own, as after \<open>asMutable\<close>: the loop then runs over nodes that are not edited\<close>
  "live_filter E fresh keep s =
     (case root_array s of
        Some (_, entries) \<Rightarrow> live_loop E fresh keep (length entries - 1) 0 True entries s
      | None \<Rightarrow> Some (remove_values E fresh (filter (\<lambda>value. \<not> keep value) (set_values s)) s))"

definition live_intersect :: "('k, jsval) eqenv \<Rightarrow> nat \<Rightarrow> ('k \<Rightarrow> bool) list \<Rightarrow> 'k iset \<Rightarrow> 'k iset option" where
  \<comment> \<open>\<open>intersect\<close> on a set that has an owner\<close>
  "live_intersect E fresh iters s =
     (if iters = [] then Some s else live_filter E fresh (\<lambda>value. list_all (\<lambda>includes. includes value) iters) s)"

definition live_subtract :: "('k, jsval) eqenv \<Rightarrow> nat \<Rightarrow> ('k \<Rightarrow> bool) list \<Rightarrow> 'k iset \<Rightarrow> 'k iset option" where
  \<comment> \<open>\<open>subtract\<close> on a set that has an owner\<close>
  "live_subtract E fresh iters s =
     (if iters = [] then Some s else live_filter E fresh (\<lambda>value. \<not> list_ex (\<lambda>includes. includes value) iters) s)"

section \<open>The invariant, and what every operation does to membership\<close>

definition wf_set :: "('k, jsval) eqenv \<Rightarrow> 'k iset \<Rightarrow> bool" where
  "wf_set E s \<longleftrightarrow>
     wf_map E (set_map s) \<and> set_size s = map_size (set_map s) \<and> set_owner s = map_owner (set_map s) \<and>
     (\<forall>x. map_get E x None (set_map s) \<in> {None, Some (Bool True)})"

lemma map_get_emptyMap [simp]: "map_get E x d emptyMap = d"
  by (simp add: map_get_def)

lemma wf_emptySet [simp]: "wf_set E emptySet"
  by (simp add: wf_set_def emptySet_def makeSet_def)

lemma makeSet_simps [simp]: "set_size (makeSet m own) = map_size m" "set_map (makeSet m own) = m" "set_owner (makeSet m own) = own"
  by (simp_all add: makeSet_def)

lemma set_has_empty [simp]: "\<not> set_has E x emptySet"
  by (simp add: set_has_def emptySet_def map_has_def makeSet_def)

definition set_put :: "('k, jsval) eqenv \<Rightarrow> nat \<Rightarrow> 'k \<Rightarrow> bool \<Rightarrow> 'k iset \<Rightarrow> 'k iset" where
  "set_put E fresh k b s = upd_default s (if b then set_add E fresh k s else set_remove E fresh k s)"

lemma set_put_update:
  "set_put E fresh k b s = upd_default s (updateSet s (updateMap E fresh k (if b then Some (Bool True) else None) (set_map s)))"
  by (simp add: set_put_def set_add_def set_remove_def map_set_def map_remove_def)

lemma set_values_keys: "set_values s = map fst (map_entries (set_map s))"
proof -
  have keys: "fold (\<lambda>e acc. fst e # acc) es acc = rev (map fst es) @ acc" for es :: "('a \<times> jsval) list" and acc
    by (induction es arbitrary: acc) auto
  have "set_iterate (\<lambda>v _ acc. (v # acc, False)) False s [] =
      (fold (\<lambda>e acc. fst e # acc) (map_entries (set_map s)) [], length (map_entries (set_map s)))"
    unfolding set_iterate_def map_iterate_visit by (subst visit_all) simp_all
  then show ?thesis by (simp add: set_values_def keys)
qed

locale set_keys = key_equality E for E :: "('k, jsval) eqenv"
begin

text \<open>What an update of the map, of any kind, makes of the set.\<close>

lemma updateSet_spec:
  assumes "wf_set E s" "wf_map E (upd_default (set_map s) u)" "map_owner (upd_default (set_map s) u) = set_owner s"
    and "\<And>x. map_get E x None (upd_default (set_map s) u) \<in> {None, Some (Bool True)}"
    and "set_owner s = None \<Longrightarrow> is_this u \<Longrightarrow> upd_default (set_map s) u = set_map s"
  shows "wf_set E (upd_default s (updateSet s u))"
    and "set_has E x (upd_default s (updateSet s u)) = map_has E x (upd_default (set_map s) u)"
    and "set_owner (upd_default s (updateSet s u)) = set_owner s"
    and "set_map s = upd_default (set_map s) u \<or> map_altered (upd_default (set_map s) u) \<Longrightarrow> set_owner s \<noteq> None \<Longrightarrow>
      upd_default s (updateSet s u) = s \<or> map_altered (set_map (upd_default s (updateSet s u)))"
proof -
  let ?m = "upd_default (set_map s) u"
  have none: "map_size ?m = 0 \<Longrightarrow> \<not> map_has E x ?m" for x
    using empty_lookup [OF assms(2)] by (simp add: map_has_def)
  have "set_size s = map_size ?m" "s\<lparr>set_map := ?m\<rparr> = s" if "set_owner s = None" "is_this u"
    using assms(1) assms(5) [OF that] by (simp_all add: wf_set_def)
  then show "wf_set E (upd_default s (updateSet s u))"
    "set_has E x (upd_default s (updateSet s u)) = map_has E x ?m"
    "set_owner (upd_default s (updateSet s u)) = set_owner s"
    using assms none by (auto simp: updateSet_def Let_def wf_set_def set_has_def emptySet_def map_has_def)
  show "set_map s = ?m \<or> map_altered ?m \<Longrightarrow> set_owner s \<noteq> None \<Longrightarrow>
      upd_default s (updateSet s u) = s \<or> map_altered (set_map (upd_default s (updateSet s u)))"
    using assms(1) by (auto simp: updateSet_def Let_def wf_set_def)
qed

lemma set_put_spec:
  assumes "wf_set E s"
  shows "wf_set E (set_put E fresh k b s)"
    and "set_has E x (set_put E fresh k b s) = (if js_is E k x then b else set_has E x s)"
    and "set_owner (set_put E fresh k b s) = set_owner s"
    and "set_owner s \<noteq> None \<Longrightarrow> set_put E fresh k b s = s \<or> map_altered (set_map (set_put E fresh k b s))"
proof -
  define v where "v = (if b then Some (Bool True) else None)"
  have wf: "wf_map E (set_map s)" using assms by (simp add: wf_set_def)
  note m = map_put_inv [OF wf, of fresh k v] map_put_lookup [OF wf, of fresh k v] updateMap_spec(3) [OF wf, of fresh k v] put_altered [of "set_map s" fresh k v]
  have pers: "set_owner s = None \<Longrightarrow> is_this (updateMap E fresh k v (set_map s)) \<Longrightarrow> map_put E fresh k v (set_map s) = set_map s"
    using assms updateMap_persistent [of "set_map s" fresh k v] by (cases "updateMap E fresh k v (set_map s)") (auto simp: wf_set_def map_put_def)
  note u = updateSet_spec [OF assms, of "updateMap E fresh k v (set_map s)"]
  have o: "map_owner (map_put E fresh k v (set_map s)) = set_owner s" using m(3) assms by (simp add: wf_set_def)
  have vals: "map_get E x None (map_put E fresh k v (set_map s)) \<in> {None, Some (Bool True)}" for x
    using fun_cong [OF m(2), of x] assms by (auto simp: assign_def v_def wf_set_def)
  note u' = u [folded map_put_def, OF m(1) o vals pers]
  have has: "map_has E x (map_put E fresh k v (set_map s)) = (if js_is E k x then b else set_has E x s)"
    using fun_cong [OF m(2), of x] by (auto simp: map_has_def set_has_def assign_def v_def)
  show "wf_set E (set_put E fresh k b s)"
    "set_has E x (set_put E fresh k b s) = (if js_is E k x then b else set_has E x s)"
    "set_owner (set_put E fresh k b s) = set_owner s"
    unfolding set_put_update v_def [symmetric] using u'(1-3) has by simp_all
  show "set_owner s \<noteq> None \<Longrightarrow> set_put E fresh k b s = s \<or> map_altered (set_map (set_put E fresh k b s))"
    unfolding set_put_update v_def [symmetric] using u'(4) m(4) assms by (auto simp: wf_set_def)
qed

sublocale members: keyed_store "js_is E" "wf_set E" "\<lambda>s x. if set_has E x s then Some () else None"
  "\<lambda>fresh k v. set_put E fresh k (v \<noteq> None)" set_size
proof
  fix s t :: "'k iset" and fresh k and v :: "unit option"
  assume s: "wf_set E s"
  show "wf_set E (set_put E fresh k (v \<noteq> None) s)" by (rule set_put_spec(1) [OF s])
  show "(\<lambda>x. if set_has E x (set_put E fresh k (v \<noteq> None) s) then Some () else None) = assign (js_is E) k v (\<lambda>x. if set_has E x s then Some () else None)"
    by (cases v) (auto simp: set_put_spec(2) [OF s] assign_def)
  assume t: "wf_set E t" and e: "\<And>x. (if set_has E x s then Some () else None) = (if set_has E x t then Some () else None)"
  have vals: "map_get E x None (set_map u) \<in> {None, Some (Bool True)}" if "wf_set E u" for x u
    using that by (simp add: wf_set_def)
  have "map_get E x None (set_map s) = map_get E x None (set_map t)" for x
    using e [of x] vals [OF s, of x] vals [OF t, of x] by (auto simp: set_has_def map_has_def)
  then show "set_size s = set_size t" using map_card [of "set_map s" "set_map t"] s t by (simp add: wf_set_def)
qed

section \<open>Batches of updates\<close>

text \<open>A callback of \<open>withMutations\<close> that changes membership as \<open>F\<close> says.\<close>

definition set_mutates :: "('k iset \<Rightarrow> 'k iset) \<Rightarrow> (('k \<Rightarrow> bool) \<Rightarrow> 'k \<Rightarrow> bool) \<Rightarrow> bool" where
  "set_mutates fn F \<longleftrightarrow> (\<forall>s. wf_set E s \<longrightarrow> set_owner s \<noteq> None \<longrightarrow>
     wf_set E (fn s) \<and> set_owner (fn s) = set_owner s \<and> (fn s = s \<or> map_altered (set_map (fn s))) \<and>
     (\<forall>x. set_has E x (fn s) = F (\<lambda>x. set_has E x s) x))"

lemma set_mutatesD:
  assumes "set_mutates fn F" "wf_set E s" "set_owner s \<noteq> None"
  shows "wf_set E (fn s)" "set_owner (fn s) = set_owner s" "fn s = s \<or> map_altered (set_map (fn s))"
    "(\<lambda>x. set_has E x (fn s)) = F (\<lambda>x. set_has E x s)"
  using assms unfolding set_mutates_def by auto

lemma set_mutates_fold:
  assumes "\<And>x. set_mutates (fn x) (F x)"
  shows "set_mutates (fold fn xs) (fold F xs)"
proof (induction xs)
  case Nil
  show ?case by (simp add: set_mutates_def)
next
  case (Cons x xs)
  show ?case unfolding set_mutates_def
  proof (intro allI impI)
    fix s assume s: "wf_set E s" "set_owner s \<noteq> None"
    note f = set_mutatesD [OF assms [of x] s]
    have "set_owner (fn x s) \<noteq> None" using f(2) s(2) by simp
    note g = set_mutatesD [OF Cons.IH f(1) this]
    have "fold fn xs (fn x s) = s \<or> map_altered (set_map (fold fn xs (fn x s)))" using f(3) g(3) by auto
    then show "wf_set E (fold fn (x # xs) s) \<and> set_owner (fold fn (x # xs) s) = set_owner s \<and>
        (fold fn (x # xs) s = s \<or> map_altered (set_map (fold fn (x # xs) s))) \<and>
        (\<forall>y. set_has E y (fold fn (x # xs) s) = fold F (x # xs) (\<lambda>y. set_has E y s) y)"
      using g f(2) by (simp add: f(4) fun_eq_iff [symmetric] fun_cong [OF g(4)])
  qed
qed

lemma set_mutates_put: "set_mutates (set_put E fresh k b) (\<lambda>f x. if js_is E k x then b else f x)"
  by (simp add: set_mutates_def set_put_spec)

lemma add_values_put: "add_values E fresh vs = fold (\<lambda>v. set_put E fresh v True) vs"
  by (rule ext) (simp add: add_values_def set_put_def [abs_def])

lemma remove_values_put: "remove_values E fresh vs = fold (\<lambda>v. set_put E fresh v False) vs"
  by (rule ext) (simp add: remove_values_def set_put_def [abs_def])

lemma fold_member: "fold (\<lambda>v f x. if js_is E v x then b else f x) vs f x = (if \<exists>v \<in> set vs. js_is E v x then b else f x)"
  by (induction vs arbitrary: f) auto

lemma mutates_add_values: "set_mutates (add_values E fresh vs) (\<lambda>f x. (\<exists>v \<in> set vs. js_is E v x) \<or> f x)"
proof -
  have "set_mutates (add_values E fresh vs) (fold (\<lambda>v f x. if js_is E v x then True else f x) vs)"
    unfolding add_values_put by (rule set_mutates_fold set_mutates_put)+
  then show ?thesis by (simp add: set_mutates_def fold_member)
qed

lemma mutates_remove_values: "set_mutates (remove_values E fresh vs) (\<lambda>f x. \<not> (\<exists>v \<in> set vs. js_is E v x) \<and> f x)"
proof -
  have "set_mutates (remove_values E fresh vs) (fold (\<lambda>v f x. if js_is E v x then False else f x) vs)"
    unfolding remove_values_put by (rule set_mutates_fold set_mutates_put)+
  then show ?thesis by (simp add: set_mutates_def fold_member)
qed

lemma set_withMutations_spec:
  fixes fresh :: nat
  assumes wf: "wf_set E s" and fn: "set_mutates fn F"
  defines "s' \<equiv> upd_default s (set_withMutations fresh fn s)"
  shows "wf_set E s'" "set_has E x s' = F (\<lambda>x. set_has E x s) x" "set_owner s' = set_owner s"
proof -
  have "wf_set E s' \<and> (\<lambda>x. set_has E x s') = F (\<lambda>x. set_has E x s) \<and> set_owner s' = set_owner s"
  proof (cases "set_owner s")
    case (Some o')
    then have "s' = fn s" by (simp add: s'_def set_withMutations_def)
    then show ?thesis using set_mutatesD [OF fn wf] Some by simp
  next
    case None
    have mo: "map_owner (set_map s) = None" using wf None by (simp add: wf_set_def)
    define c where "c = makeSet (makeMap (map_size (set_map s)) (map_root (set_map s)) (Some fresh) (map_hash (set_map s))) (Some fresh)"
    have c: "upd_default s (set_asMutable fresh s) = c"
      using None mo by (simp add: set_asMutable_def set_ensureOwner_def map_ensureOwner_def c_def Let_def)
    have getc: "map_get E x None (set_map c) = map_get E x None (set_map s)" for x by (simp add: c_def map_get_def)
    have wfc: "wf_set E c" and own: "set_owner c \<noteq> None"
      using wf getc by (simp_all add: c_def wf_set_def wf_map_def map_entries_def)
    have hasc: "set_has E x c = set_has E x s" for x by (simp add: set_has_def map_has_def getc)
    note fnc = set_mutatesD [OF fn wfc own, unfolded hasc]
    show ?thesis
    proof (cases "map_altered (set_map (fn c))")
      case True
      have mc: "map_owner (set_map (fn c)) = Some fresh" using fnc(1,2) by (simp add: wf_set_def c_def)
      have s': "s' = (fn c)\<lparr>set_owner := None, set_map := (set_map (fn c))\<lparr>map_owner := None, map_altered := False\<rparr>\<rparr>"
        using None True fnc(2) mc by (simp add: s'_def set_withMutations_def Let_def c set_ensureOwner_def map_ensureOwner_def) (simp add: c_def)
      have "\<And>x. map_get E x None (set_map s') = map_get E x None (set_map (fn c))" by (simp add: s' map_get_def)
      then show ?thesis using fnc(1,4) None by (simp add: s' wf_set_def wf_map_def map_entries_def set_has_def map_has_def)
    next
      case False
      then have "s' = s" using None by (simp add: s'_def set_withMutations_def Let_def c)
      moreover have "fn c = c" using fnc(3) False by simp
      ultimately show ?thesis using wf fnc(4) hasc by simp
    qed
  qed
  then show "wf_set E s'" "set_has E x s' = F (\<lambda>x. set_has E x s) x" "set_owner s' = set_owner s" by (auto simp: fun_eq_iff)
qed

section \<open>Construction, iteration and composition\<close>

lemma Set_of_values_spec:
  "wf_set E (Set_of_values E fresh vs)" "set_has E x (Set_of_values E fresh vs) \<longleftrightarrow> (\<exists>v \<in> set vs. js_is E v x)"
  "set_owner (Set_of_values E fresh vs) = None"
  using set_withMutations_spec [OF wf_emptySet mutates_add_values [of fresh vs], where fresh = fresh]
  by (simp_all add: Set_of_values_def) (simp add: emptySet_def)

lemma set_has_values:
  assumes "wf_set E s"
  shows "set_has E x s \<longleftrightarrow> (\<exists>v \<in> set (set_values s). js_is E v x)"
proof -
  have wf: "wf_map E (set_map s)" using assms by (simp add: wf_set_def)
  have "map_has E x (set_map s) \<longleftrightarrow> (\<exists>e \<in> set (map_entries (set_map s)). js_is E (fst e) x)"
    using entry_get_None_iff [of x "map_entries (set_map s)"] is_sym by (auto simp: map_has_def map_get_entries [OF wf])
  then show ?thesis by (simp add: set_has_def set_values_keys)
qed

lemma add_lists: "set_mutates (fold (add_values E fresh) iters) (\<lambda>f x. (\<exists>vs \<in> set iters. \<exists>v \<in> set vs. js_is E v x) \<or> f x)"
proof -
  have "set_mutates (fold (add_values E fresh) iters) (fold (\<lambda>vs f x. (\<exists>v \<in> set vs. js_is E v x) \<or> f x) iters)"
    by (rule set_mutates_fold mutates_add_values)+
  moreover have "fold (\<lambda>vs f x. (\<exists>v \<in> set vs. js_is E v x) \<or> f x) iters f x = ((\<exists>vs \<in> set iters. \<exists>v \<in> set vs. js_is E v x) \<or> f x)" for f x
    by (induction iters arbitrary: f) auto
  ultimately show ?thesis by (simp add: set_mutates_def)
qed

lemma set_union_spec:
  assumes "wf_set E s"
  shows "wf_set E (upd_default s (set_union E fresh iters s))"
    and "set_has E x (upd_default s (set_union E fresh iters s)) \<longleftrightarrow> set_has E x s \<or> (\<exists>vs \<in> set iters. \<exists>v \<in> set vs. js_is E v x)"
proof -
  let ?is = "filter (\<lambda>x. length x \<noteq> 0) iters"
  have mem: "(\<exists>vs \<in> set ?is. \<exists>v \<in> set vs. js_is E v x) \<longleftrightarrow> (\<exists>vs \<in> set iters. \<exists>v \<in> set vs. js_is E v x)" by auto
  have "wf_set E (upd_default s (set_union E fresh iters s)) \<and>
    (set_has E x (upd_default s (set_union E fresh iters s)) \<longleftrightarrow> set_has E x s \<or> (\<exists>vs \<in> set ?is. \<exists>v \<in> set vs. js_is E v x))"
  proof (cases "?is = []")
    case True
    then show ?thesis using assms by (simp add: set_union_def Let_def)
  next
    case ne: False
    show ?thesis
    proof (cases "set_size s = 0 \<and> set_owner s = None \<and> length ?is = 1")
      case True
      then obtain vs where vs: "?is = [vs]" by (auto simp: length_Suc_conv)
      have "upd_default s (set_union E fresh iters s) = Set_of_values E fresh vs"
        using True ne vs by (simp add: set_union_def Let_def)
      moreover have "\<not> set_has E x s"
        using empty_lookup [of "set_map s" x] assms True by (simp add: wf_set_def set_has_def map_has_def)
      ultimately show ?thesis using Set_of_values_spec [where fresh = fresh and vs = vs] vs by simp
    next
      case False
      then have "upd_default s (set_union E fresh iters s) = upd_default s (set_withMutations fresh (fold (add_values E fresh) ?is) s)"
        using ne by (auto simp: set_union_def Let_def)
      then show ?thesis using set_withMutations_spec [OF assms add_lists [of fresh ?is], where fresh = fresh] by auto
    qed
  qed
  then show "wf_set E (upd_default s (set_union E fresh iters s))"
    "set_has E x (upd_default s (set_union E fresh iters s)) \<longleftrightarrow> set_has E x s \<or> (\<exists>vs \<in> set iters. \<exists>v \<in> set vs. js_is E v x)"
    unfolding mem by blast+
qed

definition respects_is :: "('k \<Rightarrow> bool) \<Rightarrow> bool" where
  \<comment> \<open>an \<open>includes\<close> does not tell values apart that \<open>is\<close> equates\<close>
  "respects_is P \<longleftrightarrow> (\<forall>v x. js_is E v x \<longrightarrow> P v = P x)"

lemma filtered_removal:
  assumes "wf_set E s" "respects_is P"
  shows "wf_set E (upd_default s (set_withMutations fresh (remove_values E fresh (filter P (set_values s))) s))"
    and "set_has E x (upd_default s (set_withMutations fresh (remove_values E fresh (filter P (set_values s))) s)) \<longleftrightarrow>
      set_has E x s \<and> \<not> P x"
proof -
  note m = set_withMutations_spec [OF assms(1) mutates_remove_values [of fresh "filter P (set_values s)"], where fresh = fresh]
  show "wf_set E (upd_default s (set_withMutations fresh (remove_values E fresh (filter P (set_values s))) s))" by (rule m(1))
  show "set_has E x (upd_default s (set_withMutations fresh (remove_values E fresh (filter P (set_values s))) s)) \<longleftrightarrow>
      set_has E x s \<and> \<not> P x"
    using assms(2) unfolding m(2) set_has_values [OF assms(1)] respects_is_def by auto
qed

lemma set_intersect_spec:
  assumes "wf_set E s" "\<And>P. P \<in> set iters \<Longrightarrow> respects_is P"
  shows "wf_set E (upd_default s (set_intersect E fresh iters s))"
    and "set_has E x (upd_default s (set_intersect E fresh iters s)) \<longleftrightarrow> set_has E x s \<and> (\<forall>P \<in> set iters. P x)"
proof -
  have r: "respects_is (\<lambda>value. \<not> list_all (\<lambda>includes. includes value) iters)"
    using assms(2) by (fastforce simp: respects_is_def list_all_iff)
  show "wf_set E (upd_default s (set_intersect E fresh iters s))"
    "set_has E x (upd_default s (set_intersect E fresh iters s)) \<longleftrightarrow> set_has E x s \<and> (\<forall>P \<in> set iters. P x)"
    using filtered_removal [OF assms(1) r] assms(1) by (auto simp: set_intersect_def list_all_iff)
qed

lemma set_subtract_spec:
  assumes "wf_set E s" "\<And>P. P \<in> set iters \<Longrightarrow> respects_is P"
  shows "wf_set E (upd_default s (set_subtract E fresh iters s))"
    and "set_has E x (upd_default s (set_subtract E fresh iters s)) \<longleftrightarrow> set_has E x s \<and> \<not> (\<exists>P \<in> set iters. P x)"
proof -
  have r: "respects_is (\<lambda>value. list_ex (\<lambda>includes. includes value) iters)"
    using assms(2) by (fastforce simp: respects_is_def list_ex_iff)
  show "wf_set E (upd_default s (set_subtract E fresh iters s))"
    "set_has E x (upd_default s (set_subtract E fresh iters s)) \<longleftrightarrow> set_has E x s \<and> \<not> (\<exists>P \<in> set iters. P x)"
    using filtered_removal [OF assms(1) r] assms(1) by (auto simp: set_subtract_def list_ex_iff)
qed

text \<open>In the live loop, a removal before the last entry of the set's own array ends in the error; all else is as it should be.\<close>

lemma removed_array:
  fixes fresh :: nat
  assumes "set_owner s = Some own" "map_owner (set_map s) = Some own" "root_array s = Some (o', es)" "k \<in> fst ` set es"
  defines "s' \<equiv> upd_default s (set_remove E fresh k s)"
  shows "root_array s' = (if length es = 1 then None else Some (Some own, swap_out es (index_where (\<lambda>e. js_is E k (fst e)) es)))"
    and "set_owner s' = Some own" "map_owner (set_map s') = Some own"
    and "length (swap_out es (index_where (\<lambda>e. js_is E k (fst e)) es)) = length es - 1"
proof -
  have root: "map_root (set_map s) = Some (ArrayMapNode o' es)"
    using assms(3) by (auto simp: root_array_def split: option.splits root.splits)
  obtain e where "e \<in> set es" "js_is E k (fst e)" using assms(4) is_refl by blast
  then have i: "index_where (\<lambda>e. js_is E k (fst e)) es < length es" by (auto simp: index_where_less_iff)
  show "root_array s' = (if length es = 1 then None else Some (Some own, swap_out es (index_where (\<lambda>e. js_is E k (fst e)) es)))"
    "set_owner s' = Some own" "map_owner (set_map s') = Some own"
    using assms(1,2) root i
    by (simp_all add: s'_def set_remove_def map_remove_def updateSet_def updateMap_def store_root_def entries_unchanged_def edit_entries_def
        root_array_def Let_def editable_def)
  show "length (swap_out es (index_where (\<lambda>e. js_is E k (fst e)) es)) = length es - 1"
    using i by (simp add: swap_out_def pop_def Let_def)
qed

lemma live_loop_old:
  "entries \<noteq> [] \<Longrightarrow> live_loop E fresh keep (length entries - 1) ii False entries s =
     Some (remove_values E fresh (filter (\<lambda>v. \<not> keep v) (map fst (drop ii entries))) s)"
proof (induction "length entries - ii" arbitrary: ii s)
  case 0
  then have "length entries - 1 < ii" by (cases entries) simp_all
  then show ?case using 0 by (subst live_loop.simps) (simp add: remove_values_def)
next
  case (Suc n)
  then have "drop ii entries = entries ! ii # drop (Suc ii) entries" "nth_opt entries ii = Some (entries ! ii)"
    by (simp_all add: Cons_nth_drop_Suc nth_opt_eq_Some)
  then show ?case using Suc
    by (subst live_loop.simps) (auto simp: remove_values_def Let_def split: option.splits prod.splits)
qed

lemma live_loop_foreign:
  "entries \<noteq> [] \<Longrightarrow> (\<And>o' es. root_array s = Some (o', es) \<Longrightarrow> \<not> editable (set_owner s) o') \<Longrightarrow>
     live_loop E fresh keep (length entries - 1) ii True entries s =
     Some (remove_values E fresh (filter (\<lambda>v. \<not> keep v) (map fst (drop ii entries))) s)"
proof (induction "length entries - ii" arbitrary: ii)
  case 0
  then have "length entries - 1 < ii" by (cases entries) simp_all
  then show ?case using 0 by (subst live_loop.simps) (simp add: remove_values_def)
next
  case (Suc n)
  then have "drop ii entries = entries ! ii # drop (Suc ii) entries" "nth_opt entries ii = Some (entries ! ii)"
    by (simp_all add: Cons_nth_drop_Suc nth_opt_eq_Some)
  then show ?case using Suc live_loop_old [OF Suc.prems(1), where ii = "Suc ii"]
    by (subst live_loop.simps) (auto simp: remove_values_def Let_def split: option.splits prod.splits)
qed

definition own_root :: "nat \<Rightarrow> ('k \<times> jsval) list \<Rightarrow> 'k iset \<Rightarrow> bool" where
  "own_root own entries s \<longleftrightarrow> set_owner s = Some own \<and> map_owner (set_map s) = Some own \<and> root_array s = Some (Some own, entries)"

lemma live_step:
  fixes fresh :: nat
  assumes "own_root own entries s" "ii \<le> maxIndex" "ii < length entries" "\<not> keep (fst (entries ! ii))" "length entries \<noteq> 1"
  shows "\<exists>entries'. live_loop E fresh keep maxIndex ii True entries s =
      live_loop E fresh keep maxIndex (ii + 1) True entries' (upd_default s (set_remove E fresh (fst (entries ! ii)) s)) \<and>
    own_root own entries' (upd_default s (set_remove E fresh (fst (entries ! ii)) s)) \<and> length entries' = length entries - 1"
proof -
  note r = removed_array(1-3) [of s own "Some own" entries "fst (entries ! ii)" fresh]
    removed_array(4) [of s own "Some own" entries "fst (entries ! ii)"]
  have n: "nth_opt entries ii = Some (entries ! ii)" using assms(3) by (simp add: nth_opt_eq_Some)
  show ?thesis
    using r assms n by (subst live_loop.simps) (auto simp: own_root_def Let_def editable_def)
qed

lemma live_loop_short:
  "length entries \<le> maxIndex \<Longrightarrow> ii \<le> maxIndex \<Longrightarrow> shared \<longrightarrow> own_root own entries s \<Longrightarrow>
     live_loop E fresh keep maxIndex ii shared entries s = None"
proof (induction "maxIndex - ii" arbitrary: ii shared entries s rule: less_induct)
  case less
  show ?case
  proof (cases "ii < length entries")
    case False
    then have "nth_opt entries ii = None" by simp
    then show ?thesis using less.prems(2) by (subst live_loop.simps) simp
  next
    case ii: True
    then have n: "nth_opt entries ii = Some (entries ! ii)" by (simp add: nth_opt_eq_Some)
    have IH: "length es \<le> maxIndex \<Longrightarrow> sh \<longrightarrow> own_root own es t \<Longrightarrow> live_loop E fresh keep maxIndex (ii + 1) sh es t = None" for es sh t
      using less.hyps [of "ii + 1" es sh t] less.prems ii by simp
    consider "keep (fst (entries ! ii))" | "\<not> keep (fst (entries ! ii))" "shared" "length entries \<noteq> 1"
      | "\<not> keep (fst (entries ! ii))" "\<not> shared \<or> length entries = 1" by blast
    then show ?thesis
    proof cases
      case 1
      then show ?thesis using IH [of entries shared s] less.prems n by (subst live_loop.simps) simp
    next
      case 2
      then show ?thesis using live_step [of own entries s ii maxIndex keep fresh] IH less.prems ii by fastforce
    next
      case 3
      have "shared \<Longrightarrow> root_array (upd_default s (set_remove E fresh (fst (entries ! ii)) s)) = None"
        using 3 removed_array(1) [of s own "Some own" entries "fst (entries ! ii)" fresh] less.prems(3) ii
        by (simp add: own_root_def)
      then show ?thesis using 3 n less.prems IH
        by (subst live_loop.simps) (auto simp: Let_def split: option.splits prod.splits)
    qed
  qed
qed

lemma live_loop_throws:
  assumes "own_root own entries s" "ii \<le> i" "Suc i < length entries" "\<not> keep (fst (entries ! i))"
  shows "live_loop E fresh keep (length entries - 1) ii True entries s = None"
  using assms(2)
proof (induction "i - ii" arbitrary: ii rule: less_induct)
  case less
  have ii: "ii \<le> length entries - 1" "ii < length entries" "length entries \<noteq> 1" using less.prems assms(3) by auto
  show ?case
  proof (cases "keep (fst (entries ! ii))")
    case True
    then have "ii \<noteq> i" using assms(4) by auto
    then have "live_loop E fresh keep (length entries - 1) (ii + 1) True entries s = None"
      using less.prems by (intro less.hyps) auto
    then show ?thesis using True ii by (subst live_loop.simps) (simp add: nth_opt_eq_Some)
  next
    case False
    obtain es s' where "live_loop E fresh keep (length entries - 1) ii True entries s =
        live_loop E fresh keep (length entries - 1) (ii + 1) True es s'" "own_root own es s'" "length es = length entries - 1"
      using live_step [of own entries s ii "length entries - 1" keep fresh] assms(1) ii False by blast
    then show ?thesis using live_loop_short [of es "length entries - 1" "ii + 1" True own s' fresh keep] less.prems assms(3) by simp
  qed
qed

lemma live_loop_last:
  assumes "entries \<noteq> []" "\<And>i. ii \<le> i \<Longrightarrow> Suc i < length entries \<Longrightarrow> keep (fst (entries ! i))"
  shows "live_loop E fresh keep (length entries - 1) ii True entries s =
    Some (remove_values E fresh (filter (\<lambda>v. \<not> keep v) (map fst (drop ii entries))) s)"
  using assms(2)
proof (induction "length entries - ii" arbitrary: ii)
  case 0
  then have "length entries - 1 < ii" using assms(1) by (cases entries) simp_all
  then show ?case using 0 by (subst live_loop.simps) (simp add: remove_values_def)
next
  case (Suc n)
  then have d: "drop ii entries = entries ! ii # drop (Suc ii) entries" "nth_opt entries ii = Some (entries ! ii)"
    by (simp_all add: Cons_nth_drop_Suc nth_opt_eq_Some)
  show ?case
  proof (cases "keep (fst (entries ! ii))")
    case True
    have "live_loop E fresh keep (length entries - 1) (Suc ii) True entries s =
        Some (remove_values E fresh (filter (\<lambda>v. \<not> keep v) (map fst (drop (Suc ii) entries))) s)"
      using Suc by (intro Suc.hyps(1)) auto
    then show ?thesis using Suc.hyps(2) True by (subst live_loop.simps) (simp add: d)
  next
    case False
    have "Suc ii = length entries"
    proof (rule ccontr)
      assume "Suc ii \<noteq> length entries"
      then have "Suc ii < length entries" using Suc.hyps(2) by simp
      then show False using Suc.prems [of ii] False by simp
    qed
    moreover have "live_loop E fresh keep (length entries - 1) (length entries) sh es t = Some t" for sh es t
      using assms(1) by (subst live_loop.simps) simp
    ultimately show ?thesis using False
      by (subst live_loop.simps) (auto simp: d remove_values_def Let_def split: option.splits prod.splits)
  qed
qed

lemma live_filter_spec:
  assumes "wf_set E s" "set_owner s = Some own" "root_array s = Some (o', entries)"
  shows "live_filter E fresh keep s =
    (if o' = Some own \<and> (\<exists>i. Suc i < length entries \<and> \<not> keep (fst (entries ! i))) then None
     else Some (upd_default s (set_withMutations fresh (remove_values E fresh (filter (\<lambda>v. \<not> keep v) (set_values s))) s)))"
proof -
  have root: "map_root (set_map s) = Some (ArrayMapNode o' entries)"
    using assms(3) by (auto simp: root_array_def split: option.splits root.splits)
  then have ne: "entries \<noteq> []" using assms(1) by (auto simp: wf_set_def wf_map_def)
  have vals: "set_values s = map fst entries" using root by (simp add: set_values_keys map_entries_def)
  have own: "map_owner (set_map s) = Some own" using assms(1,2) by (simp add: wf_set_def)
  show ?thesis
    using live_loop_throws [of own entries s 0] live_loop_last [OF ne, of 0] live_loop_foreign [OF ne, of s fresh keep 0] assms(2,3) own
    by (auto simp: live_filter_def own_root_def vals set_withMutations_def editable_def)
qed

text \<open>So \<open>intersect\<close> and \<open>subtract\<close> on a small set with an owner either throw or do what they do without one.\<close>

lemma live_intersect_spec:
  assumes "wf_set E s" "set_owner s = Some own" "root_array s = Some (o', entries)" "iters \<noteq> []"
  shows "live_intersect E fresh iters s =
    (if o' = Some own \<and> (\<exists>i. Suc i < length entries \<and> (\<exists>P \<in> set iters. \<not> P (fst (entries ! i)))) then None
     else Some (upd_default s (set_intersect E fresh iters s)))"
  using assms(4) unfolding live_intersect_def live_filter_spec [OF assms(1-3)] set_intersect_def
  by (simp add: list_all_iff)

lemma live_subtract_spec:
  assumes "wf_set E s" "set_owner s = Some own" "root_array s = Some (o', entries)" "iters \<noteq> []"
  shows "live_subtract E fresh iters s =
    (if o' = Some own \<and> (\<exists>i. Suc i < length entries \<and> (\<exists>P \<in> set iters. P (fst (entries ! i)))) then None
     else Some (upd_default s (set_subtract E fresh iters s)))"
  using assms(4) unfolding live_subtract_def live_filter_spec [OF assms(1-3)] set_subtract_def
  by (simp add: list_ex_iff)

end

sublocale js_objects \<subseteq> sets: set_keys "js_env H" ..

end
