(* ===== verification/Imm_SetProps.thy ===== *)
theory Imm_SetProps
  imports Imm_Set
begin

text \<open>
  The properties of \<open>Set\<close>, over JavaScript values compared by the file's own \<open>is\<close>.
\<close>

lemma plain_is_value: "is_value plain_objects v x \<longleftrightarrow> v = x"
  by (cases v; cases x) (auto simp: is_value_def same_value_eq equals_call_def plain_objects_def)

text \<open>
  C29. The algebra of sets: \<open>union\<close> adds the values of its iterables, \<open>intersect\<close> keeps the members that every
  iterable includes and \<open>subtract\<close> those that none includes; each result is well formed, its
  map holds \<open>true\<close> for every member and nothing else. The \<open>includes\<close> tests must not tell values apart that \<open>is\<close> equates,
  and the receiver of \<open>intersect\<close> and \<open>subtract\<close> has no owner.
\<close>

theorem set_algebra:
  assumes "js_objects H" "wf_set (js_env H) s" "set_owner s = None"
    "\<forall>P \<in> set tests. \<forall>v x. is_value H v x \<longrightarrow> P v = P x"
  shows "wf_set (js_env H) (upd_default s (set_union (js_env H) fresh iters s)) \<and>
    wf_set (js_env H) (upd_default s (set_intersect (js_env H) fresh tests s)) \<and>
    wf_set (js_env H) (upd_default s (set_subtract (js_env H) fresh tests s)) \<and>
    set_has (js_env H) x (upd_default s (set_union (js_env H) fresh iters s)) =
      (set_has (js_env H) x s \<or> (\<exists>vs \<in> set iters. \<exists>v \<in> set vs. is_value H v x)) \<and>
    set_has (js_env H) x (upd_default s (set_intersect (js_env H) fresh tests s)) = (set_has (js_env H) x s \<and> (\<forall>P \<in> set tests. P x)) \<and>
    set_has (js_env H) x (upd_default s (set_subtract (js_env H) fresh tests s)) = (set_has (js_env H) x s \<and> \<not> (\<exists>P \<in> set tests. P x))"
proof -
  have k: "set_keys (js_env H)" unfolding set_keys_def by (rule js_objects.is_key [OF assms(1)])
  have r: "set_keys.respects_is (js_env H) P" if "P \<in> set tests" for P
    using assms(4) that unfolding set_keys.respects_is_def [OF k] by simp
  show ?thesis
    using set_keys.set_union_spec [OF k assms(2)] set_keys.set_intersect_spec [OF k assms(2) r]
      set_keys.set_subtract_spec [OF k assms(2) r] by simp
qed

theorem set_algebra_witness:
  "\<not> set_has (js_env plain_objects) (Num (NumInt 2))
     (upd_default (Set_of_values (js_env plain_objects) 3 [Num (NumInt 1), Num (NumInt 2)])
       (set_subtract (js_env plain_objects) 5 [\<lambda>v. v = Num (NumInt 2)] (Set_of_values (js_env plain_objects) 3 [Num (NumInt 1), Num (NumInt 2)])))"
proof -
  let ?E = "js_env plain_objects"
  have k: "set_keys ?E" unfolding set_keys_def by (rule js_objects.is_key [OF plain.js_objects_axioms])
  note s = set_keys.Set_of_values_spec [OF k]
  have t: "\<forall>P \<in> set [\<lambda>v. v = Num (NumInt 2)]. \<forall>v x. is_value plain_objects v x \<longrightarrow> P v = P x"
    by (simp add: plain_is_value)
  show ?thesis using set_algebra [OF plain.js_objects_axioms s(1,3) t] by simp
qed

text \<open>
  C30. \<open>intersect\<close> and \<open>subtract\<close> on a set that has an owner, whose map has an array node for its root: the loop then removes
  from the very map that it iterates. When the node has the owner of the set, and a value to be removed is not its last
  entry, the call ends in the \<open>TypeError\<close> of reading the key of a missing entry: the loop still
  counts up to the number of entries there were at first. In every other case, in particular when the
  node has another owner or none, as right after \<open>asMutable\<close>, the call returns the set the algebra asks for.
  Sets whose map has a larger root are not part of this.
\<close>

theorem live_intersect_throws:
  assumes "js_objects H" "wf_set (js_env H) s" "set_owner s = Some own" "root_array s = Some (o', entries)" "tests \<noteq> []"
    "\<forall>P \<in> set tests. \<forall>v x. is_value H v x \<longrightarrow> P v = P x"
  shows "(if o' = Some own \<and> (\<exists>i. Suc i < length entries \<and> (\<exists>P \<in> set tests. \<not> P (fst (entries ! i))))
     then live_intersect (js_env H) fresh tests s = None
     else \<exists>s'. live_intersect (js_env H) fresh tests s = Some s' \<and> wf_set (js_env H) s' \<and>
       (\<forall>x. set_has (js_env H) x s' = (set_has (js_env H) x s \<and> (\<forall>P \<in> set tests. P x)))) \<and>
    (if o' = Some own \<and> (\<exists>i. Suc i < length entries \<and> (\<exists>P \<in> set tests. P (fst (entries ! i))))
     then live_subtract (js_env H) fresh tests s = None
     else \<exists>s'. live_subtract (js_env H) fresh tests s = Some s' \<and> wf_set (js_env H) s' \<and>
       (\<forall>x. set_has (js_env H) x s' = (set_has (js_env H) x s \<and> \<not> (\<exists>P \<in> set tests. P x))))"
proof -
  have k: "set_keys (js_env H)" unfolding set_keys_def by (rule js_objects.is_key [OF assms(1)])
  have r: "set_keys.respects_is (js_env H) P" if "P \<in> set tests" for P
    using assms(6) that unfolding set_keys.respects_is_def [OF k] by simp
  note i = set_keys.set_intersect_spec [OF k assms(2) r, where fresh = fresh]
  note d = set_keys.set_subtract_spec [OF k assms(2) r, where fresh = fresh]
  show ?thesis
    using i d by (intro conjI)
      (simp_all only: set_keys.live_intersect_spec [OF k assms(2-5)] set_keys.live_subtract_spec [OF k assms(2-5)] simp_thms
        option.inject split: if_split, blast+)
qed

text \<open>With the owner 3: one set whose array is its own and one whose array is nobody's, both of the values 1 and 2.\<close>

definition sample_owned :: "owner \<Rightarrow> jsval iset" where
  "sample_owned o' =
     makeSet (makeMap 2 (Some (ArrayMapNode o' [(Num (NumInt 1), Bool True), (Num (NumInt 2), Bool True)])) (Some 3) None) (Some 3)"

lemma sample_owned_wf: "wf_set (js_env plain_objects) (sample_owned o')"
proof -
  have wf: "wf_map (js_env plain_objects) (set_map (sample_owned o'))"
    by (simp add: sample_owned_def wf_map_def makeMap_def map_entries_def plain_is_value NumInt_def)
  have k: "key_equality (js_env plain_objects)" by (rule js_objects.is_key [OF plain.js_objects_axioms])
  show ?thesis
    using wf unfolding wf_set_def key_equality.map_get_entries [OF k wf]
    by (simp add: sample_owned_def makeMap_def map_entries_def )
qed

theorem live_intersect_throws_witness:
  "live_intersect (js_env plain_objects) 5 [\<lambda>v. v = Num (NumInt 2)] (sample_owned (Some 3)) = None \<and>
   (\<exists>s'. live_intersect (js_env plain_objects) 5 [\<lambda>v. v = Num (NumInt 2)] (sample_owned None) = Some s' \<and>
     set_has (js_env plain_objects) (Num (NumInt 2)) s' \<and> \<not> set_has (js_env plain_objects) (Num (NumInt 1)) s')"
proof -
  have t: "\<forall>P \<in> set [\<lambda>v. v = Num (NumInt 2)]. \<forall>v x. is_value plain_objects v x \<longrightarrow> P v = P x" by (simp add: plain_is_value)
  have r: "set_owner (sample_owned o') = Some 3" "root_array (sample_owned o') = Some (o', [(Num (NumInt 1), Bool True), (Num (NumInt 2), Bool True)])" for o'
    by (simp_all add: sample_owned_def makeMap_def root_array_def)
  note c = live_intersect_throws [OF plain.js_objects_axioms sample_owned_wf r _ t, of _ 5]
  have h: "\<exists>i. Suc i < length [(Num (NumInt 1), Bool True), (Num (NumInt 2), Bool True)] \<and>
      (\<exists>P \<in> set [\<lambda>v. v = Num (NumInt 2)]. \<not> P (fst ([(Num (NumInt 1), Bool True), (Num (NumInt 2), Bool True)] ! i)))"
    by (rule exI [of _ 0]) (simp add: NumInt_def)
  have m: "set_has (js_env plain_objects) (Num (NumInt 2)) (sample_owned None)"
    by (simp add: sample_owned_def makeMap_def set_has_def map_has_def map_get_def plain_is_value NumInt_def)
  show ?thesis using c [of "Some 3"] c [of None] h m by (auto simp: NumInt_def)
qed

end
