(* ===== verification/Imm_OrderedMap.thy ===== *)
theory Imm_OrderedMap
  imports Imm_ListIter JS_Keys
begin

text \<open>
  \<open>OrderedMap\<close> of \<open>static/drf-yasg/immutable.js\<close>: a list of entries in insertion order, with
  holes where entries were removed, and a map from the keys to their places in it. An update that
  removes a key may compact the list. \<open>None\<close> is a call that does not return (an exception, or one of
  the endless loops of \<open>List\<close>).
\<close>

record ('k, 'v) omap =
  om_size :: int
  om_map :: "('k, int) imap"
  om_list :: "('k \<times> 'v) ilist"
  om_owner :: owner
  om_hash :: "int32 option"

definition makeOrderedMap :: "('k, int) imap \<Rightarrow> ('k \<times> 'v) ilist \<Rightarrow> owner \<Rightarrow> int32 option \<Rightarrow> ('k, 'v) omap" where
  "makeOrderedMap m l own hash' = \<lparr>om_size = map_size m, om_map = m, om_list = l, om_owner = own, om_hash = hash'\<rparr>"

definition emptyOrderedMap :: "('k, 'v) omap" where
  "emptyOrderedMap = makeOrderedMap emptyMap emptyList None None"

definition index_env :: "('k, 'v) eqenv \<Rightarrow> ('k, int) eqenv" where
  \<comment> \<open>the same keys; the values of the inner map are places, compared by \<open>===\<close>\<close>
  "index_env E = \<lparr>js_is = js_is E, js_hash = js_hash E, js_same = (=)\<rparr>"

definition fresh_arrays :: "'e \<Rightarrow> 'e \<Rightarrow> bool" where
  \<comment> \<open>\<open>===\<close> on the entries of the list: every stored entry \<open>[k, v]\<close> is a new array\<close>
  "fresh_arrays e e' = False"

section \<open>Access\<close>

definition omap_get :: "('k, 'v) eqenv \<Rightarrow> 'k \<Rightarrow> 'v option \<Rightarrow> ('k, 'v) omap \<Rightarrow> 'v option option" where
  \<comment> \<open>\<open>this._list.get(index)[1]\<close> throws when the place is empty\<close>
  "omap_get E k notSet om =
     (case map_get (index_env E) k None (om_map om) of
        None \<Rightarrow> Some notSet
      | Some index \<Rightarrow> map_option (\<lambda>entry. Some (snd entry)) (list_get index None (om_list om)))"

section \<open>Modification\<close>

definition omap_store :: "('k, 'v) omap \<Rightarrow> ('k, int) imap \<Rightarrow> ('k \<times> 'v) ilist \<Rightarrow> ('k, 'v) omap upd" where
  \<comment> \<open>the end of \<open>updateOrderedMap\<close>\<close>
  "omap_store om newMap newList =
     (if om_owner om \<noteq> None
      then This (om\<lparr>om_size := map_size newMap, om_map := newMap, om_list := newList, om_hash := None\<rparr>)
      else New (makeOrderedMap newMap newList None None))"

definition List_of_lazy :: "nat \<Rightarrow> ('k \<times> 'v) list \<Rightarrow> ('k \<times> 'v) ilist upd option" where
  \<comment> \<open>\<open>List(seq)\<close> for a sequence of unknown size: \<open>setSize(undefined)\<close> leaves the bounds alone, then
    every value is set; \<open>This\<close> is the shared \<open>EMPTY_LIST\<close>\<close>
  "List_of_lazy fresh es =
     list_withMutations fresh (\<lambda>m.
       Option.bind (setListBounds fresh (Some 0) None m)
         (\<lambda>u. set_from fresh_arrays fresh 0 (map Some es) (upd_default m u))) emptyList"

definition live :: "'e option list \<Rightarrow> 'e list" where
  "live es = map the (filter (\<lambda>e. e \<noteq> None) es)"

definition survivors :: "int \<Rightarrow> 'e option list \<Rightarrow> 'e list" where
  \<comment> \<open>\<open>list.filter(function(entry, idx) {return entry !== undefined && i !== idx})\<close>\<close>
  "survivors i es = live (map (\<lambda>(idx, entry). if i = int idx then None else entry) (zip [0..<length es] es))"

definition keys_to_places :: "('k, 'v) eqenv \<Rightarrow> nat \<Rightarrow> 'k list \<Rightarrow> ('k, int) imap upd" where
  \<comment> \<open>\<open>newList.toKeyedSeq().map(entry => entry[0]).flip().toMap()\<close>; \<open>This\<close> is the shared \<open>EMPTY_MAP\<close>\<close>
  "keys_to_places E fresh ks =
     map_withMutations fresh (set_all (index_env E) fresh (zip ks (map int [0..<length ks]))) emptyMap"

definition omap_compact :: "('k, 'v) eqenv \<Rightarrow> nat \<Rightarrow> int \<Rightarrow> ('k, 'v) omap \<Rightarrow> ('k, 'v) omap upd option" where
  "omap_compact E fresh i om =
     map_option (\<lambda>u.
       let newList = upd_default emptyList u;
           newMap = upd_default emptyMap (keys_to_places E fresh (map fst (live (iterateList False newList))))
       in if om_owner om \<noteq> None
          then omap_store om (newMap\<lparr>map_owner := om_owner om\<rparr>) (newList\<lparr>l_owner := om_owner om\<rparr>)
          else omap_store om newMap newList)
       (List_of_lazy fresh (survivors i (iterateList False (om_list om))))"

definition updateOrderedMap :: "('k, 'v) eqenv \<Rightarrow> nat \<Rightarrow> 'k \<Rightarrow> 'v option \<Rightarrow> ('k, 'v) omap \<Rightarrow> ('k, 'v) omap upd option" where
  "updateOrderedMap E fresh k v om =
     (let map' = om_map om; list' = om_list om; i = map_get (index_env E) k None map'
      in case v of
           None \<Rightarrow>
             (case i of
                None \<Rightarrow> Some (This om)
              | Some i \<Rightarrow>
                  if l_size list' \<ge> int SIZE \<and> l_size list' \<ge> map_size map' * 2 then omap_compact E fresh i om
                  else map_option (\<lambda>newList. omap_store om (upd_default map' (map_remove (index_env E) fresh k map')) (upd_default list' newList))
                         (if i = l_size list' - 1 then list_pop fresh list' else list_set fresh_arrays fresh i None list'))
         | Some v \<Rightarrow>
             (case i of
                Some i \<Rightarrow>
                  (case list_get i None list' of
                     None \<Rightarrow> None
                   | Some entry \<Rightarrow>
                       if js_same E v (snd entry) then Some (This om)
                       else map_option (\<lambda>newList. omap_store om map' (upd_default list' newList))
                              (list_set fresh_arrays fresh i (Some (k, v)) list'))
              | None \<Rightarrow>
                  map_option (\<lambda>newList. omap_store om (upd_default map' (map_set (index_env E) fresh k (l_size list') map')) (upd_default list' newList))
                    (list_set fresh_arrays fresh (l_size list') (Some (k, v)) list')))"

definition omap_set :: "('k, 'v) eqenv \<Rightarrow> nat \<Rightarrow> 'k \<Rightarrow> 'v \<Rightarrow> ('k, 'v) omap \<Rightarrow> ('k, 'v) omap upd option" where
  "omap_set E fresh k v om = updateOrderedMap E fresh k (Some v) om"

definition omap_remove :: "('k, 'v) eqenv \<Rightarrow> nat \<Rightarrow> 'k \<Rightarrow> ('k, 'v) omap \<Rightarrow> ('k, 'v) omap upd option" where
  "omap_remove E fresh k om = updateOrderedMap E fresh k None om"

definition omap_clear :: "('k, 'v) omap \<Rightarrow> ('k, 'v) omap upd" where
  "omap_clear om =
     (if om_size om = 0 then This om
      else if om_owner om \<noteq> None
      then This (om\<lparr>om_size := 0, om_map := upd_default (om_map om) (map_clear (om_map om)),
                   om_list := upd_default (om_list om) (list_clear (om_list om))\<rparr>)
      else New emptyOrderedMap)"

definition omap_wasAltered :: "('k, 'v) omap \<Rightarrow> bool" where
  "omap_wasAltered om \<longleftrightarrow> map_altered (om_map om) \<or> l_altered (om_list om)"

definition omap_ensureOwner :: "owner \<Rightarrow> ('k, 'v) omap \<Rightarrow> ('k, 'v) omap upd" where
  "omap_ensureOwner own om =
     (if own = om_owner om then This om
      else (let newMap = upd_default (om_map om) (map_ensureOwner own (om_map om));
                newList = upd_default (om_list om) (list_ensureOwner own (om_list om))
            in if own = None then This (om\<lparr>om_owner := None, om_map := newMap, om_list := newList\<rparr>)
               else New (makeOrderedMap newMap newList own (om_hash om))))"

section \<open>Transient mutability and construction\<close>

definition omap_asMutable :: "nat \<Rightarrow> ('k, 'v) omap \<Rightarrow> ('k, 'v) omap upd" where
  "omap_asMutable fresh om = (if om_owner om \<noteq> None then This om else omap_ensureOwner (Some fresh) om)"

definition omap_withMutations ::
  "nat \<Rightarrow> (('k, 'v) omap \<Rightarrow> ('k, 'v) omap option) \<Rightarrow> ('k, 'v) omap \<Rightarrow> ('k, 'v) omap upd option" where
  \<comment> \<open>\<open>fn\<close> gives the state of the mutable map after the callback\<close>
  "omap_withMutations fresh fn om =
     map_option (\<lambda>mutable.
       if om_owner om \<noteq> None then This mutable
       else if omap_wasAltered mutable then New (upd_default mutable (omap_ensureOwner None mutable))
       else This om)
       (fn (upd_default om (omap_asMutable fresh om)))"

fun omap_set_all :: "('k, 'v) eqenv \<Rightarrow> nat \<Rightarrow> ('k \<times> 'v) list \<Rightarrow> ('k, 'v) omap \<Rightarrow> ('k, 'v) omap option" where
  "omap_set_all E fresh [] om = Some om"
| "omap_set_all E fresh ((k, v) # es) om =
     Option.bind (omap_set E fresh k v om) (\<lambda>u. omap_set_all E fresh es (upd_default om u))"

definition OrderedMap_of_entries :: "('k, 'v) eqenv \<Rightarrow> nat \<Rightarrow> ('k \<times> 'v) list \<Rightarrow> ('k, 'v) omap upd option" where
  \<comment> \<open>\<open>OrderedMap(value)\<close> for a finite value that is not an ordered map\<close>
  "OrderedMap_of_entries E fresh es = omap_withMutations fresh (omap_set_all E fresh es) emptyOrderedMap"

section \<open>Iteration\<close>

definition omap_iterate :: "('v \<Rightarrow> 'k \<Rightarrow> 's \<Rightarrow> 's \<times> bool) \<Rightarrow> bool \<Rightarrow> ('k, 'v) omap \<Rightarrow> 's \<Rightarrow> 's \<times> nat" where
  \<comment> \<open>the holes are not passed on, but they are counted\<close>
  "omap_iterate fn reverse om s =
     list_iterate (\<lambda>entry index s. case entry of None \<Rightarrow> (s, False) | Some e \<Rightarrow> fn (snd e) (fst e) s) reverse (om_list om) s"

definition omap_entries :: "('k, 'v) omap \<Rightarrow> ('k \<times> 'v) list" where
  "omap_entries om = live (elems (om_list om))"

end
