(* ===== verification/Imm_OrderedSpec.thy ===== *)
theory Imm_OrderedSpec
  imports Imm_OrderedMap
begin

text \<open>
  What \<open>OrderedMap\<close> promises: an abstract map is the list of its entries in insertion order, and every
  update of the code computes \<open>put_ordered\<close> on it. \<open>om_ok\<close> says that the list and the inner map are well formed
  and that the inner map finds exactly the places that hold a key; \<open>compact_enough\<close> bounds the holes.
\<close>

section \<open>Entries and holes\<close>

lemma live_simps [simp]:
  "live [] = []" "live (None # es) = live es" "live (Some e # es) = e # live es" "live (es @ es') = live es @ live es'"
  "live (map Some xs) = xs"
  by (simp_all add: live_def comp_def)

lemma split_at: "i < length es \<Longrightarrow> es = take i es @ es ! i # drop (Suc i) es"
  by (simp add: Cons_nth_drop_Suc)

lemma live_mem: "e \<in> set (live es) \<longleftrightarrow> (\<exists>i < length es. es ! i = Some e)"
  by (force simp: live_def in_set_conv_nth)

lemma live_update:
  "i < length es \<Longrightarrow> live (es[i := x]) = live (take i es) @ live [x] @ live (drop (Suc i) es)"
  by (simp add: upd_conv_take_nth_drop)
    (metis append_Cons append_Nil live_simps(4))

lemma live_at: "i < length es \<Longrightarrow> live es = live (take i es) @ live [es ! i] @ live (drop (Suc i) es)"
  using live_update [of i es "es ! i"] by simp

definition only_at :: "('e \<Rightarrow> bool) \<Rightarrow> 'e option list \<Rightarrow> nat \<Rightarrow> bool" where
  "only_at P es i \<longleftrightarrow> (\<exists>e. i < length es \<and> es ! i = Some e \<and> P e) \<and>
     (\<forall>j e. j < length es \<longrightarrow> es ! j = Some e \<longrightarrow> P e \<longrightarrow> j = i)"

lemma only_at_others:
  assumes "only_at P es i"
  shows "e \<in> set (live (take i es)) \<Longrightarrow> \<not> P e" "e \<in> set (live (drop (Suc i) es)) \<Longrightarrow> \<not> P e"
proof -
  have i: "i < length es" and u: "\<And>j e. j < length es \<Longrightarrow> es ! j = Some e \<Longrightarrow> P e \<Longrightarrow> j = i"
    using assms by (auto simp: only_at_def)
  show "\<not> P e" if e: "e \<in> set (live (take i es))"
  proof -
    obtain j where j: "j < i" "es ! j = Some e" using e i by (auto simp: live_mem)
    then show ?thesis using u [of j e] i by auto
  qed
  show "\<not> P e" if e: "e \<in> set (live (drop (Suc i) es))"
  proof -
    obtain j where j: "j < length es - Suc i" "es ! (Suc i + j) = Some e" using e i by (auto simp: live_mem)
    moreover have "Suc i + j < length es" using j(1) by linarith
    ultimately show ?thesis using u [of "Suc i + j" e] by auto
  qed
qed

lemma live_remove:
  assumes "only_at P es i" shows "live (es[i := None]) = filter (\<lambda>e. \<not> P e) (live es)"
proof -
  obtain e where i: "i < length es" "es ! i = Some e" "P e" using assms by (auto simp: only_at_def)
  show ?thesis
    using only_at_others [OF assms] i by (simp add: live_update live_at [OF i(1)] filter_id_conv)
qed

lemma length_live_remove:
  assumes "only_at P es i" shows "length (live es) = Suc (length (live (es[i := None])))"
proof -
  obtain e where i: "i < length es" "es ! i = Some e" using assms by (auto simp: only_at_def)
  show ?thesis using i by (simp add: live_update live_at [OF i(1)])
qed

lemma live_replace:
  assumes "only_at P es i" shows "live (es[i := Some x]) = map (\<lambda>e. if P e then x else e) (live es)"
proof -
  obtain e where i: "i < length es" "es ! i = Some e" "P e" using assms by (auto simp: only_at_def)
  show ?thesis
    using only_at_others [OF assms] i by (simp add: live_update live_at [OF i(1)] map_idI)
qed

lemma survivors_live: "i < length es \<Longrightarrow> survivors (int i) es = live (es[i := None])"
  unfolding survivors_def by (intro arg_cong [where f = live] nth_equalityI) (auto simp: nth_list_update)

lemma live_butlast: "es \<noteq> [] \<Longrightarrow> live (es[length es - 1 := None]) = live (butlast es)"
  by (cases es rule: rev_cases) simp_all

section \<open>Lists built by appending\<close>

lemma list_set_append:
  assumes ok: "list_ok l" and safe: "grows_safely l" and room: "l_origin l + l_size l + 1 \<le> 2 ^ 30"
  obtains u where "list_set fresh_arrays fresh (l_size l) (Some e) l = Some u" "list_ok (upd_default l u)"
    "elems (upd_default l u) = elems l @ [Some e]" "kept l (upd_default l u)" "l_origin (upd_default l u) \<le> l_origin l"
    "l_size (upd_default l u) = l_size l + 1" "grows_safely (upd_default l u)"
proof -
  have eqv: "sound_eq fresh_arrays" by (simp add: sound_eq_def fresh_arrays_def)
  obtain u where u: "list_set fresh_arrays fresh (l_size l) (Some e) l = Some u" "list_ok (upd_default l u)"
      "l_size (upd_default l u) = l_size l + 1" "take (length (elems l)) (elems (upd_default l u)) = elems l"
      "list_get (l_size l) None (upd_default l u) = Some e" "kept l (upd_default l u)" "l_origin (upd_default l u) \<le> l_origin l"
    using list_set_beyond [OF ok safe eqv order_refl, of fresh "Some e"] room by auto
  let ?m = "upd_default l u"
  have sz: "0 \<le> l_size l" using list_ok_size [OF ok] by simp
  have "elems ?m ! nat (l_size l) = Some e" using u(3,5) sz nth_elems [of "nat (l_size l)" ?m] by simp
  moreover have "length (elems ?m) = Suc (nat (l_size l))" using u(3) sz by simp
  ultimately have "elems ?m = elems l @ [Some e]"
    using take_Suc_conv_app_nth [of "nat (l_size l)" "elems ?m"] u(4) by simp
  moreover have "grows_safely ?m" using u(3,5) by (simp add: grows_safely_def)
  ultimately show ?thesis using that u by blast
qed

lemma set_from_append:
  assumes "list_ok l" "grows_safely l" "l_origin l + l_size l + int (length es) \<le> 2 ^ 30"
  shows "\<exists>l'. set_from fresh_arrays fresh (l_size l) (map Some es) l = Some l' \<and> list_ok l' \<and>
    elems l' = elems l @ map Some es \<and> kept l l'"
  using assms
proof (induction es arbitrary: l)
  case (Cons e es)
  obtain u where u: "list_set fresh_arrays fresh (l_size l) (Some e) l = Some u" "list_ok (upd_default l u)"
      "elems (upd_default l u) = elems l @ [Some e]" "kept l (upd_default l u)" "l_origin (upd_default l u) \<le> l_origin l"
      "l_size (upd_default l u) = l_size l + 1" "grows_safely (upd_default l u)"
    using list_set_append [OF Cons.prems(1,2), of fresh e] Cons.prems(3) by auto
  let ?m = "upd_default l u"
  obtain l' where l': "set_from fresh_arrays fresh (l_size ?m) (map Some es) ?m = Some l'" "list_ok l'"
      "elems l' = elems ?m @ map Some es" "kept ?m l'"
    using Cons.IH [OF u(2,7)] u(5,6) Cons.prems(3) by fastforce
  have "kept l l'" using u(4) l'(4) by (auto simp: kept_def)
  then show ?case using u(1,3,6) l' by auto
qed simp

lemma List_of_lazy_spec:
  fixes es :: "('k \<times> 'v) list"
  assumes "int (length es) \<le> 2 ^ 30"
  shows "becomes emptyList (List_of_lazy fresh es) (map Some es)"
proof -
  define m :: "('k \<times> 'v) ilist" where "m = upd_default emptyList (list_asMutable fresh emptyList)"
  note m = asMutable_same [OF emptyList_ok(1) m_def]
  have z: "l_size m = 0" "l_origin m = 0" using m(3,5) by (simp_all add: emptyList_def makeList_def)
  have z': "grows_safely m" "elems m = []" using m(2) z by (simp_all add: grows_safely_def)
  have bounds: "setListBounds fresh (Some 0) None m = Some (This m)"
    by (intro setListBounds_same) (simp_all add: new_begin_def new_end_def)
  obtain l' where l': "set_from fresh_arrays fresh 0 (map Some es) m = Some l'" "list_ok l'" "elems l' = map Some es" "kept m l'"
    using set_from_append [OF m(1) z'(1), of es fresh] assms z z'(2) by auto
  show ?thesis
    unfolding List_of_lazy_def using withMutations_list_spec [OF emptyList_ok(1), of _ fresh l'] l' bounds
    by (simp add: m_def)
qed

section \<open>The index\<close>

definition holds_at :: "('k, 'v) eqenv \<Rightarrow> ('k \<times> 'v) option list \<Rightarrow> 'k \<Rightarrow> int \<Rightarrow> bool" where
  \<comment> \<open>the place \<open>j\<close> holds an entry for a key that is \<open>x\<close>\<close>
  "holds_at E es x j \<longleftrightarrow> 0 \<le> j \<and> nat j < length es \<and> (\<exists>e. es ! nat j = Some e \<and> js_is E (fst e) x)"

definition index_of :: "('k, 'v) eqenv \<Rightarrow> ('k, int) imap \<Rightarrow> ('k \<times> 'v) option list \<Rightarrow> bool" where
  "index_of E m es \<longleftrightarrow> wf_map (index_env E) m \<and> (\<forall>x j. map_get (index_env E) x None m = Some j \<longleftrightarrow> holds_at E es x j)"

definition om_ok :: "('k, 'v) eqenv \<Rightarrow> ('k, 'v) omap \<Rightarrow> bool" where
  "om_ok E om \<longleftrightarrow>
     list_ok (om_list om) \<and> index_of E (om_map om) (elems (om_list om)) \<and> om_size om = map_size (om_map om) \<and>
     map_owner (om_map om) = om_owner om \<and> l_owner (om_list om) = om_owner om"

definition compact_enough :: "('k, 'v) omap \<Rightarrow> bool" where
  "compact_enough om \<longleftrightarrow> l_size (om_list om) \<le> 2 * om_size om + 31"

definition dense :: "('k, 'v) omap \<Rightarrow> bool" where
  "dense om \<longleftrightarrow> l_size (om_list om) = om_size om"

fun put_ordered :: "('k, 'v) eqenv \<Rightarrow> 'k \<Rightarrow> 'v option \<Rightarrow> ('k \<times> 'v) list \<Rightarrow> ('k \<times> 'v) list" where
  \<comment> \<open>the reference: a removal keeps the order, a known key keeps its place, a new key goes last\<close>
  "put_ordered E k None es = filter (\<lambda>e. \<not> js_is E (fst e) k) es"
| "put_ordered E k (Some v) es =
     (if \<exists>e \<in> set es. js_is E (fst e) k
      then map (\<lambda>e. if js_is E (fst e) k then if js_same E v (snd e) then e else (k, v) else e) es
      else es @ [(k, v)])"

lemma index_env_simps [simp]: "js_is (index_env E) = js_is E" "js_same (index_env E) = (=)" "js_hash (index_env E) = js_hash E"
  by (simp_all add: index_env_def)

definition place_entries :: "('k \<times> 'v) option list \<Rightarrow> ('k \<times> int) list" where
  "place_entries es = concat (map (\<lambda>(i, e). case e of None \<Rightarrow> [] | Some e \<Rightarrow> [(fst e, int i)]) (zip [0..<length es] es))"

lemma place_entries_snoc:
  "place_entries [] = []"
  "place_entries (es @ [x]) = place_entries es @ (case x of None \<Rightarrow> [] | Some e \<Rightarrow> [(fst e, int (length es))])"
  by (simp_all add: place_entries_def)

lemma length_place_entries: "length (place_entries es) = length (live es)"
  by (induction es rule: rev_induct) (auto simp: place_entries_snoc split: option.split)

lemma holds_at_snoc:
  "holds_at E (es @ [x]) k j \<longleftrightarrow>
     (j = int (length es) \<and> (\<exists>e. x = Some e \<and> js_is E (fst e) k)) \<or> holds_at E es k j"
  by (auto simp: holds_at_def nth_append less_Suc_eq)

lemma place_entries_mem: "(k, j) \<in> set (place_entries es) \<longleftrightarrow> (\<exists>i < length es. j = int i \<and> (\<exists>e. es ! i = Some e \<and> fst e = k))"
proof (induction es rule: rev_induct)
  case (snoc x es)
  have "(\<exists>i < length es. j = int i \<and> (\<exists>e. (es @ [x]) ! i = Some e \<and> fst e = k)) \<longleftrightarrow> (k, j) \<in> set (place_entries es)"
    unfolding snoc.IH by (intro ex_cong1 conj_cong refl) (simp add: nth_append)
  then show ?case by (cases x) (auto simp: place_entries_snoc Ex_less_Suc)
qed (simp add: place_entries_snoc)

lemma holds_at_places: "holds_at E es x j \<longleftrightarrow> (\<exists>k. (k, j) \<in> set (place_entries es) \<and> js_is E k x)"
proof
  assume "holds_at E es x j"
  then obtain e where "0 \<le> j" "nat j < length es" "es ! nat j = Some e" "js_is E (fst e) x" by (auto simp: holds_at_def)
  then show "\<exists>k. (k, j) \<in> set (place_entries es) \<and> js_is E k x"
    unfolding place_entries_mem by (intro exI [of _ "fst e"] conjI exI [of _ "nat j"] exI [of _ e]) auto
next
  assume "\<exists>k. (k, j) \<in> set (place_entries es) \<and> js_is E k x"
  then show "holds_at E es x j" by (auto simp: place_entries_mem holds_at_def)
qed

locale ordered_keys = key_equality E for E :: "('k, 'v) eqenv"
begin

sublocale places: key_equality "index_env E"
proof
  show "js_is (index_env E) k k'" if "js_is (index_env E) k' k" for k k' using that is_sym by simp
  show "js_is (index_env E) k k''" if "js_is (index_env E) k k'" "js_is (index_env E) k' k''" for k k' k''
    using that is_trans [of k k' k''] by simp
qed (simp_all add: is_hash)

lemma index_get: "index_of E m es \<Longrightarrow> map_get (index_env E) x None m = Some j \<longleftrightarrow> holds_at E es x j"
  by (simp add: index_of_def)

lemma index_unique: "index_of E m es \<Longrightarrow> holds_at E es x i \<Longrightarrow> holds_at E es x j \<Longrightarrow> i = j"
  using index_get [of m es x i] index_get [of m es x j] by simp

lemma holds_at_key: "es ! nat j = Some e \<Longrightarrow> 0 \<le> j \<Longrightarrow> nat j < length es \<Longrightarrow> holds_at E es (fst e) j"
  by (simp add: holds_at_def)

lemma holds_at_is: "js_is E x y \<Longrightarrow> holds_at E es x j = holds_at E es y j"
  by (simp add: holds_at_def is_iff_right)

lemma distinct_places:
  "(\<And>x i j. holds_at E es x i \<Longrightarrow> holds_at E es x j \<Longrightarrow> i = j) \<Longrightarrow> distinct_keys (index_env E) (place_entries es)"
proof (induction es rule: rev_induct)
  case (snoc x es)
  have IH: "distinct_keys (index_env E) (place_entries es)"
  proof (rule snoc.IH)
    show "i = j" if "holds_at E es y i" "holds_at E es y j" for y i j
      using snoc.prems [of y i j] that by (simp add: holds_at_snoc)
  qed
  have "\<not> js_is E k (fst e)" if "x = Some e" "(k, j) \<in> set (place_entries es)" for e k j
  proof
    assume k: "js_is E k (fst e)"
    have "holds_at E es (fst e) j" using that(2) k by (auto simp: holds_at_places)
    moreover have "j < int (length es)" using that(2) by (auto simp: place_entries_mem)
    ultimately
    show False using snoc.prems [of "fst e" j "int (length es)"] that(1) by (simp add: holds_at_snoc)
  qed
  then show ?case using IH by (cases x) (auto simp: place_entries_snoc places.distinct_keys_append)
qed (simp add: place_entries_snoc)

lemma places_get:
  assumes "distinct_keys (index_env E) (place_entries es)"
  shows "entry_get (index_env E) x None (place_entries es) = Some j \<longleftrightarrow> holds_at E es x j"
proof -
  have "(\<exists>e \<in> set (place_entries es). js_is E x (fst e) \<and> snd e = j) \<longleftrightarrow> (\<exists>k. (k, j) \<in> set (place_entries es) \<and> js_is E x k)"
    by force
  then show ?thesis unfolding places.entry_get_iff [OF assms] holds_at_places using is_sym by auto
qed

lemma index_size:
  assumes "index_of E m es" shows "map_size m = int (length (live es))"
proof -
  have d: "distinct_keys (index_env E) (place_entries es)" by (rule distinct_places) (rule index_unique [OF assms])
  have wf: "wf_map (index_env E) m" using assms by (simp add: index_of_def)
  have "entry_get (index_env E) x None (map_entries m) = entry_get (index_env E) x None (place_entries es)" for x
  proof (rule option.expand)
    have eq: "entry_get (index_env E) x None (place_entries es) = Some j \<longleftrightarrow> entry_get (index_env E) x None (map_entries m) = Some j" for j
      using index_get [OF assms, of x j] unfolding places_get [OF d] places.map_get_entries [OF wf] by simp
    then show "(entry_get (index_env E) x None (map_entries m) = None) = (entry_get (index_env E) x None (place_entries es) = None)"
      by (metis option.exhaust)
    show "the (entry_get (index_env E) x None (map_entries m)) = the (entry_get (index_env E) x None (place_entries es))"
      if "entry_get (index_env E) x None (map_entries m) \<noteq> None"
      using that eq eq [of "the (entry_get (index_env E) x None (map_entries m))"] by simp
  qed
  from places.lookup_length [OF places.map_distinct [OF wf] d this]
  show ?thesis using wf by (simp add: wf_map_def length_place_entries)
qed

lemma index_only:
  assumes "index_of E m es" "map_get (index_env E) k None m = Some i"
  shows "0 \<le> i" "only_at (\<lambda>e. js_is E (fst e) k) es (nat i)"
proof -
  have h: "holds_at E es k i" using assms index_get by blast
  then show "0 \<le> i" by (simp add: holds_at_def)
  have "j = nat i" if "j < length es" "es ! j = Some e" "js_is E (fst e) k" for j e
    using index_unique [OF assms(1) h, of "int j"] that by (simp add: holds_at_def)
  then show "only_at (\<lambda>e. js_is E (fst e) k) es (nat i)" using h by (auto simp: only_at_def holds_at_def)
qed

lemma index_absent:
  assumes "index_of E m es" "map_get (index_env E) k None m = None"
  shows "\<forall>e \<in> set (live es). \<not> js_is E (fst e) k"
proof -
  have "\<not> holds_at E es k j" for j using assms index_get [OF assms(1), of k j] by simp
  then have "\<not> js_is E (fst e) k" if "j < length es" "es ! j = Some e" for j e
    using that by (metis holds_at_def nat_int of_nat_0_le_iff)
  then show ?thesis by (auto simp: live_mem)
qed

lemma index_removed:
  assumes "index_of E m es" "map_get (index_env E) k None m = Some i"
  shows "index_of E (map_put (index_env E) fresh k None m) (es[nat i := None])"
proof -
  have wf: "wf_map (index_env E) m" using assms by (simp add: index_of_def)
  have h: "holds_at E es k i" using assms index_get by blast
  have "map_get (index_env E) x None (map_put (index_env E) fresh k None m) = Some j \<longleftrightarrow> holds_at E (es[nat i := None]) x j" for x j
  proof -
    have "holds_at E (es[nat i := None]) x j \<longleftrightarrow> holds_at E es x j \<and> j \<noteq> i"
      using h by (auto simp: holds_at_def nth_list_update split: if_splits)
    moreover have "j = i \<longleftrightarrow> js_is E k x" if "holds_at E es x j"
    proof
      assume "j = i" then show "js_is E k x"
        using that h by (auto simp: holds_at_def) (meson is_sym is_trans)
    next
      assume "js_is E k x" then show "j = i" using index_unique [OF assms(1) h] that holds_at_is by blast
    qed
    ultimately show ?thesis
      using fun_cong [OF places.store.put_lookup [OF wf, of fresh k None], of x] index_get [OF assms(1), of x j]
      by (auto simp: assign_def)
  qed
  then show ?thesis using places.store.put_inv [OF wf] by (simp add: index_of_def)
qed

lemma index_kept:
  assumes "index_of E m es" "nat i < length es" "es ! nat i = Some e" "js_is E (fst e) (fst e')"
  shows "index_of E m (es[nat i := Some e'])"
proof -
  have "holds_at E (es[nat i := Some e']) x j = holds_at E es x j" for x j
    using assms(2-) is_iff [OF assms(4), of x] by (cases e; cases e') (auto simp: holds_at_def nth_list_update)
  then show ?thesis using assms(1) by (simp add: index_of_def)
qed

lemma index_added:
  assumes "index_of E m es" "map_get (index_env E) k None m = None"
  shows "index_of E (map_put (index_env E) fresh k (Some (int (length es))) m) (es @ [Some (k, v)])"
proof -
  have wf: "wf_map (index_env E) m" using assms by (simp add: index_of_def)
  have no: "\<not> js_is E k x" if "holds_at E es x j" for x j
    using assms(2) index_get [OF assms(1), of k j] that holds_at_is [of k x] by auto
  have "map_get (index_env E) x None (map_put (index_env E) fresh k (Some (int (length es))) m) = Some j \<longleftrightarrow>
      holds_at E (es @ [Some (k, v)]) x j" for x j
    using fun_cong [OF places.store.put_lookup [OF wf, of fresh k "Some (int (length es))"], of x] index_get [OF assms(1), of x j] no [of x j]
    by (auto simp: assign_def holds_at_snoc)
  then show ?thesis using places.store.put_inv [OF wf] by (simp add: index_of_def)
qed

lemma keys_to_places_index:
  assumes d: "distinct_keys E es"
  shows "index_of E (upd_default emptyMap (keys_to_places E fresh (map fst es))) (map Some es)"
    and "map_owner (upd_default emptyMap (keys_to_places E fresh (map fst es))) = None"
proof -
  let ?ops = "\<lambda>es::('k \<times> 'v) list. places.sets (zip (map fst es) (map int [0..<length es]))"
  have m: "upd_default emptyMap (keys_to_places E fresh (map fst es)) =
      Map_of_entries (index_env E) fresh (zip (map fst es) (map int [0..<length es]))"
    by (simp add: keys_to_places_def Map_of_entries_def)
  have "assigns (js_is E) (?ops es) (\<lambda>_. None) x = Some j \<longleftrightarrow> holds_at E (map Some es) x j" for x j
    using d
  proof (induction es rule: rev_induct)
    case (snoc e es)
    have d': "distinct_keys E es" "\<forall>e' \<in> set es. \<not> js_is E (fst e') (fst e)"
      using snoc.prems by (auto simp: distinct_keys_append)
    have no: "\<not> js_is E (fst e) x" if "holds_at E (map Some es) x j"
    proof -
      have "nat j < length es" "js_is E (fst (es ! nat j)) x" using that by (auto simp: holds_at_def)
      then show ?thesis using d'(2) is_sym is_trans by (metis nth_mem)
    qed
    have "?ops (es @ [e]) = ?ops es @ [(fst e, Some (int (length es)))]" by (simp add: places.sets_def)
    then show ?case using snoc.IH [OF d'(1)] no holds_at_snoc [of E "map Some es" "Some e" x j]
      by (auto simp: assign_def)
  qed (simp add: places.sets_def holds_at_def)
  then show "index_of E (upd_default emptyMap (keys_to_places E fresh (map fst es))) (map Some es)"
    unfolding m index_of_def using places.Map_of_entries_spec(1,2) [of fresh "zip (map fst es) (map int [0..<length es])"]
    by (metis (no_types, lifting) index_env_simps(1))
  show "map_owner (upd_default emptyMap (keys_to_places E fresh (map fst es))) = None"
    unfolding m by (rule places.Map_of_entries_spec(3))
qed

lemma index_keys: "map fst (place_entries es) = map fst (live es)"
  by (induction es rule: rev_induct) (auto simp: place_entries_snoc split: option.split)

lemma distinct_keys_fst:
  "map fst es = map fst es' \<Longrightarrow> distinct_keys (index_env E) es = distinct_keys E es'"
proof (induction es arbitrary: es')
  case (Cons e es)
  then obtain e' es1 where es': "es' = e' # es1" "fst e = fst e'" "map fst es = map fst es1" by (cases es') auto
  have "fst ` set es = fst ` set es1" using es'(3) by (metis set_map)
  then have "(\<forall>x \<in> set es. \<not> js_is E (fst e') (fst x)) = (\<forall>x \<in> set es1. \<not> js_is E (fst e') (fst x))"
    by (metis (no_types, lifting) imageE imageI)
  then show ?case using Cons.IH [OF es'(3)] es'(1,2) by simp
qed simp

lemma index_distinct: "index_of E m es \<Longrightarrow> distinct_keys E (live es)"
  using distinct_keys_fst [OF index_keys] distinct_places index_unique by blast

lemma distinct_keys_filter: "distinct_keys E es \<Longrightarrow> distinct_keys E (filter P es)"
  by (induction es) auto

lemma index_butlast:
  assumes "index_of E m (es[length es - 1 := None])" "es \<noteq> []" shows "index_of E m (butlast es)"
proof -
  obtain ys y where "es = ys @ [y]" using assms(2) by (cases es rule: rev_cases) auto
  then have "holds_at E (es[length es - 1 := None]) x j = holds_at E (butlast es) x j" for x j
    by (simp add: holds_at_snoc)
  then show ?thesis using assms(1) by (simp add: index_of_def)
qed

lemma omap_store_list: "om_list (upd_default om (omap_store om m l)) = l" "om_size (upd_default om (omap_store om m l)) = map_size m"
  by (simp_all add: omap_store_def makeOrderedMap_def)

lemma omap_store_ok:
  assumes "list_ok l" "index_of E m (elems l)" "map_owner m = om_owner om" "l_owner l = om_owner om"
  shows "om_ok E (upd_default om (omap_store om m l)) \<and> omap_entries (upd_default om (omap_store om m l)) = live (elems l) \<and>
    om_owner (upd_default om (omap_store om m l)) = om_owner om"
  using assms by (simp add: omap_store_def om_ok_def omap_entries_def makeOrderedMap_def)

text \<open>
  The result of one update: a well-formed map with the given entries, the owner of the receiver, and
  no more holes than the compaction allows.
\<close>

definition evolves :: "('k, 'v) omap \<Rightarrow> ('k, 'v) omap upd option \<Rightarrow> ('k \<times> 'v) list \<Rightarrow> bool" where
  "evolves om r es \<longleftrightarrow> (\<exists>u. r = Some u \<and> om_ok E (upd_default om u) \<and> omap_entries (upd_default om u) = es \<and>
     om_owner (upd_default om u) = om_owner om \<and> (compact_enough om \<longrightarrow> compact_enough (upd_default om u)))"

lemma om_okD:
  assumes "om_ok E om"
  shows "list_ok (om_list om)" "index_of E (om_map om) (elems (om_list om))" "om_size om = map_size (om_map om)"
    "map_owner (om_map om) = om_owner om" "l_owner (om_list om) = om_owner om"
    "0 \<le> l_size (om_list om)"
  using assms list_ok_size [of "om_list om"] unfolding om_ok_def by blast+

lemma evolves_same: "om_ok E om \<Longrightarrow> evolves om (Some (This om)) (omap_entries om)"
  by (simp add: evolves_def)

lemma evolves_store:
  assumes "om_ok E om" "becomes (om_list om) r es" "index_of E m es" "map_owner m = om_owner om"
    and holes: "compact_enough om \<Longrightarrow> length es \<le> 2 * length (live es) + 31"
  shows "evolves om (map_option (\<lambda>newList. omap_store om m (upd_default (om_list om) newList)) r) (live es)"
proof -
  obtain u where u: "r = Some u" "list_ok (upd_default (om_list om) u)" "elems (upd_default (om_list om) u) = es"
      "kept (om_list om) (upd_default (om_list om) u)" using assms(2) by (rule becomesE)
  have "l_owner (upd_default (om_list om) u) = om_owner om" using u(4) om_okD(5) [OF assms(1)] by (simp add: kept_def)
  note store = omap_store_ok [OF u(2) _ assms(4) this]
  have "compact_enough (upd_default om (omap_store om m (upd_default (om_list om) u)))" if "compact_enough om"
  proof -
    have "l_size (upd_default (om_list om) u) = int (length es)" using size_elems [OF u(2)] u(3) by metis
    then show ?thesis using holes [OF that] index_size [OF assms(3)]
      by (simp add: compact_enough_def omap_store_list)
  qed
  then show ?thesis using store u(1,3) assms(3) by (simp add: evolves_def)
qed

lemma om_compact_evolves:
  assumes ok: "om_ok E om" and i: "map_get (index_env E) k None (om_map om) = Some i"
  shows "evolves om (omap_compact E fresh i om) (put_ordered E k None (omap_entries om))"
proof -
  note o = om_okD [OF ok]
  let ?es = "elems (om_list om)"
  note only = index_only [OF o(2) i]
  have len: "nat i < length ?es" using only(2) by (auto simp: only_at_def)
  define S where "S = live (?es[nat i := None])"
  have S: "S = put_ordered E k None (omap_entries om)"
    unfolding S_def omap_entries_def using live_remove [OF only(2)] by simp
  have "survivors i (iterateList False (om_list om)) = S"
    using survivors_live [OF len] only(1) by (simp add: iterateList_elems [OF o(1)] S_def)
  moreover have "int (length S) \<le> 2 ^ 30"
  proof -
    have "length S \<le> length ?es" unfolding S_def live_def using length_filter_le [of _ "?es[nat i := None]"] by simp
    then have "int (length S) \<le> l_size (om_list om)" using o(6) by simp
    then show ?thesis using list_ok_size [OF o(1)] by simp
  qed
  ultimately obtain u where u: "List_of_lazy fresh (survivors i (iterateList False (om_list om))) = Some u"
      "list_ok (upd_default emptyList u)" "elems (upd_default emptyList u) = map Some S"
      "kept emptyList (upd_default emptyList u)"
    using List_of_lazy_spec by (metis becomesE)
  define l where "l = upd_default emptyList u"
  define m where "m = upd_default emptyMap (keys_to_places E fresh (map fst (live (iterateList False l))))"
  have "live (iterateList False l) = S" using iterateList_elems [of l False] u(2,3) by (simp add: l_def)
  moreover have "distinct_keys E S" unfolding S put_ordered.simps omap_entries_def
    by (rule distinct_keys_filter) (rule index_distinct [OF o(2)])
  ultimately have m: "index_of E m (map Some S)" "map_owner m = None"
    using keys_to_places_index unfolding m_def by simp_all
  have l: "list_ok l" "elems l = map Some S" "l_owner l = None"
    using u(2-4) unfolding l_def by (simp_all add: kept_def emptyList_def makeList_def)
  let ?l = "if om_owner om \<noteq> None then l\<lparr>l_owner := om_owner om\<rparr> else l"
  let ?m = "if om_owner om \<noteq> None then m\<lparr>map_owner := om_owner om\<rparr> else m"
  have "list_ok ?l \<and> elems ?l = map Some S" using l same_contents [of ?l l] by simp
  moreover have "index_of E ?m (map Some S)" using m by (simp add: index_of_def wf_map_def map_get_def map_entries_def)
  ultimately have "om_ok E (upd_default om (omap_store om ?m ?l)) \<and> omap_entries (upd_default om (omap_store om ?m ?l)) = S \<and>
      om_owner (upd_default om (omap_store om ?m ?l)) = om_owner om"
    using omap_store_ok [of ?l ?m om] l(3) m(2) by simp
  moreover have "compact_enough (upd_default om (omap_store om ?m ?l))"
    using size_elems [OF l(1)] l(2) index_size [OF m(1)] by (simp add: compact_enough_def omap_store_list)
  moreover have "omap_compact E fresh i om = Some (omap_store om ?m ?l)"
    unfolding omap_compact_def u(1) by (simp add: Let_def l_def m_def)
  ultimately show ?thesis unfolding evolves_def S [symmetric] by blast
qed

lemma om_remove_evolves:
  assumes ok: "om_ok E om"
  shows "evolves om (omap_remove E fresh k om) (put_ordered E k None (omap_entries om))"
proof -
  note o = om_okD [OF ok]
  let ?es = "elems (om_list om)" and ?m = "map_put (index_env E) fresh k None (om_map om)"
  show ?thesis
  proof (cases "map_get (index_env E) k None (om_map om)")
    case None
    have "put_ordered E k None (omap_entries om) = omap_entries om"
      using index_absent [OF o(2) None] by (simp add: omap_entries_def filter_id_conv)
    then show ?thesis using evolves_same [OF ok] None by (simp add: omap_remove_def updateOrderedMap_def Let_def)
  next
    case (Some i)
    note only = index_only [OF o(2) Some]
    have len: "nat i < length ?es" using only(2) by (auto simp: only_at_def)
    have m: "index_of E ?m (?es[nat i := None])" "map_owner ?m = om_owner om"
      using index_removed [OF o(2) Some] places.updateMap_spec(3) o(2,4) by (simp_all add: index_of_def)
    have S: "live (?es[nat i := None]) = put_ordered E k None (omap_entries om)"
      using live_remove [OF only(2)] by (simp add: omap_entries_def)
    have rm: "upd_default (om_map om) (map_remove (index_env E) fresh k (om_map om)) = ?m"
      by (simp add: map_remove_def map_put_def)
    have len': "length (live ?es) = Suc (length (live (?es[nat i := None])))" by (rule length_live_remove [OF only(2)])
    have sz: "map_size (om_map om) = int (length (live ?es))" by (rule index_size [OF o(2)])
    have few: "length ?es \<le> 2 * length (live (?es[nat i := None])) + 31"
      if "\<not> (int SIZE \<le> l_size (om_list om) \<and> map_size (om_map om) * 2 \<le> l_size (om_list om))"
      using that len' unfolding sz by (auto simp: SIZE_def)
    consider (compact) "int SIZE \<le> l_size (om_list om)" "map_size (om_map om) * 2 \<le> l_size (om_list om)"
      | (pop) "\<not> (int SIZE \<le> l_size (om_list om) \<and> map_size (om_map om) * 2 \<le> l_size (om_list om))" "i = l_size (om_list om) - 1"
      | (hole) "\<not> (int SIZE \<le> l_size (om_list om) \<and> map_size (om_map om) * 2 \<le> l_size (om_list om))" "i \<noteq> l_size (om_list om) - 1"
      by blast
    then show ?thesis
    proof cases
      case compact
      then show ?thesis using om_compact_evolves [OF ok Some, of fresh] Some by (simp add: omap_remove_def updateOrderedMap_def Let_def)
    next
      case pop
      have ne: "?es \<noteq> []" "nat i = length ?es - 1" using len pop(2) by (metis list.size(3) less_nat_zero_code, simp)
      have "evolves om (map_option (\<lambda>newList. omap_store om ?m (upd_default (om_list om) newList)) (list_pop fresh (om_list om)))
          (live (butlast ?es))"
      proof (rule evolves_store [OF ok list_pop_spec [OF o(1)] _ m(2)])
        show "index_of E ?m (butlast ?es)" by (rule index_butlast [OF m(1) [unfolded ne(2)] ne(1)])
        show "length (butlast ?es) \<le> 2 * length (live (butlast ?es)) + 31"
          using few [OF pop(1)] live_butlast [OF ne(1)] ne(2) by simp
      qed
      then show ?thesis using pop Some S live_butlast [OF ne(1)] ne(2) rm
        by (auto simp: omap_remove_def updateOrderedMap_def Let_def)
    next
      case hole
      have "becomes (om_list om) (list_set fresh_arrays fresh i None (om_list om)) (?es[nat i := None])"
        using list_set_spec [OF o(1), of fresh_arrays i fresh None] only(1) len o(6)
        by (simp add: sound_eq_def fresh_arrays_def)
      from evolves_store [OF ok this m] few [OF hole(1)] hole Some S rm show ?thesis
        by (auto simp: omap_remove_def updateOrderedMap_def Let_def)
    qed
  qed
qed

lemma om_set_known_evolves:
  assumes ok: "om_ok E om" and i: "map_get (index_env E) k None (om_map om) = Some i"
  shows "evolves om (omap_set E fresh k v om) (put_ordered E k (Some v) (omap_entries om))"
proof -
  note o = om_okD [OF ok]
  let ?es = "elems (om_list om)"
  note only = index_only [OF o(2) i]
  obtain e where e: "nat i < length ?es" "?es ! nat i = Some e" "js_is E (fst e) k"
    using only(2) by (auto simp: only_at_def)
  have get: "list_get i None (om_list om) = Some e" using nth_elems [of "nat i" "om_list om"] e(1,2) only(1) by simp
  have mem: "e \<in> set (live ?es)" unfolding live_mem using e(1,2) by blast
  have one: "e' = e" if "e' \<in> set (live ?es)" "js_is E (fst e') k" for e'
    using that only(2) e unfolding live_mem only_at_def by (metis option.inject)
  have S: "put_ordered E k (Some v) (omap_entries om) =
      map (\<lambda>e'. if js_is E (fst e') k then if js_same E v (snd e) then e else (k, v) else e') (omap_entries om)"
  proof -
    have ex: "\<exists>e' \<in> set (omap_entries om). js_is E (fst e') k" using mem e(3) by (auto simp: omap_entries_def)
    have eq: "(if js_is E (fst e') k then if js_same E v (snd e') then e' else (k, v) else e') =
        (if js_is E (fst e') k then if js_same E v (snd e) then e else (k, v) else e')" if "e' \<in> set (omap_entries om)" for e'
    proof (cases "js_is E (fst e') k")
      case True
      then have "e' = e" using one that by (simp add: omap_entries_def)
      then show ?thesis by (rule ssubst) simp
    qed simp
    show ?thesis unfolding put_ordered.simps if_P [OF ex] by (rule map_cong [OF refl eq])
  qed
  show ?thesis
  proof (cases "js_same E v (snd e)")
    case True
    have "put_ordered E k (Some v) (omap_entries om) = omap_entries om"
      unfolding S using True one by (auto simp: omap_entries_def intro!: map_idI)
    then show ?thesis using evolves_same [OF ok] True i get by (simp add: omap_set_def updateOrderedMap_def Let_def)
  next
    case False
    have "becomes (om_list om) (list_set fresh_arrays fresh i (Some (k, v)) (om_list om)) (?es[nat i := Some (k, v)])"
      using list_set_spec [OF o(1), of fresh_arrays i fresh "Some (k, v)"] only(1) e(1) o(6)
      by (simp add: sound_eq_def fresh_arrays_def)
    moreover have "index_of E (om_map om) (?es[nat i := Some (k, v)])" by (rule index_kept [OF o(2) e(1,2)]) (simp add: e(3))
    ultimately have "evolves om (map_option (\<lambda>newList. omap_store om (om_map om) (upd_default (om_list om) newList))
        (list_set fresh_arrays fresh i (Some (k, v)) (om_list om))) (live (?es[nat i := Some (k, v)]))"
    proof (rule evolves_store [OF ok _ _ o(4)])
      show "length (?es[nat i := Some (k, v)]) \<le> 2 * length (live (?es[nat i := Some (k, v)])) + 31" if "compact_enough om"
        using that index_size [OF o(2)] o(3) live_replace [OF only(2), of "(k, v)"] by (simp add: compact_enough_def)
    qed
    then show ?thesis using False i get live_replace [OF only(2), of "(k, v)"]
      unfolding S by (simp add: omap_set_def updateOrderedMap_def Let_def omap_entries_def)
  qed
qed

lemma om_set_new_evolves:
  assumes ok: "om_ok E om" and i: "map_get (index_env E) k None (om_map om) = None"
    and safe: "grows_safely (om_list om)" and room: "l_capacity (om_list om) < 2 ^ 30"
  shows "evolves om (omap_set E fresh k v om) (put_ordered E k (Some v) (omap_entries om))"
proof -
  note o = om_okD [OF ok]
  let ?es = "elems (om_list om)" and ?m = "map_put (index_env E) fresh k (Some (l_size (om_list om))) (om_map om)"
  have "l_origin (om_list om) + l_size (om_list om) + 1 \<le> 2 ^ 30" using room list_ok_size [OF o(1)] by simp
  then obtain u where u: "list_set fresh_arrays fresh (l_size (om_list om)) (Some (k, v)) (om_list om) = Some u"
      "list_ok (upd_default (om_list om) u)" "elems (upd_default (om_list om) u) = ?es @ [Some (k, v)]"
      "kept (om_list om) (upd_default (om_list om) u)"
    using list_set_append [OF o(1) safe, of fresh "(k, v)"] by blast
  have b: "becomes (om_list om) (list_set fresh_arrays fresh (l_size (om_list om)) (Some (k, v)) (om_list om)) (?es @ [Some (k, v)])"
    using u by (rule becomesI)
  have "index_of E ?m (?es @ [Some (k, v)])" using index_added [OF o(2) i, of fresh v] o(6) by simp
  moreover have "map_owner ?m = om_owner om" using places.updateMap_spec(3) o(2,4) by (simp add: index_of_def)
  ultimately have "evolves om (map_option (\<lambda>newList. omap_store om ?m (upd_default (om_list om) newList))
      (list_set fresh_arrays fresh (l_size (om_list om)) (Some (k, v)) (om_list om))) (live (?es @ [Some (k, v)]))"
  proof (rule evolves_store [OF ok b])
    show "length (?es @ [Some (k, v)]) \<le> 2 * length (live (?es @ [Some (k, v)])) + 31" if "compact_enough om"
      using that index_size [OF o(2)] o(3) by (simp add: compact_enough_def)
  qed
  moreover have "put_ordered E k (Some v) (omap_entries om) = live (?es @ [Some (k, v)])"
    using index_absent [OF o(2) i] by (auto simp: omap_entries_def)
  moreover have "upd_default (om_map om) (map_set (index_env E) fresh k (l_size (om_list om)) (om_map om)) = ?m"
    by (simp add: map_set_def map_put_def)
  ultimately show ?thesis using i by (simp only: omap_set_def updateOrderedMap_def Let_def option.case)
qed

lemma update_evolves:
  assumes "om_ok E om"
    and "v = None \<or> map_has (index_env E) k (om_map om) \<or> grows_safely (om_list om) \<and> l_capacity (om_list om) < 2 ^ 30"
  shows "evolves om (updateOrderedMap E fresh k v om) (put_ordered E k v (omap_entries om))"
proof (cases v)
  case None
  then show ?thesis using om_remove_evolves [OF assms(1)] by (simp add: omap_remove_def del: put_ordered.simps)
next
  case v: (Some w)
  show ?thesis
  proof (cases "map_get (index_env E) k None (om_map om)")
    case None
    then show ?thesis using om_set_new_evolves [OF assms(1) None] assms(2) v
      by (auto simp: omap_set_def map_has_def simp del: put_ordered.simps)
  next
    case (Some i)
    show ?thesis using om_set_known_evolves [OF assms(1) Some] v by (simp add: omap_set_def del: put_ordered.simps)
  qed
qed

lemma omap_get_entry:
  assumes ok: "om_ok E om"
  shows "omap_get E k d om = Some (case List.find (\<lambda>e. js_is E (fst e) k) (omap_entries om) of None \<Rightarrow> d | Some e \<Rightarrow> Some (snd e))"
proof (cases "map_get (index_env E) k None (om_map om)")
  case None
  then have "List.find (\<lambda>e. js_is E (fst e) k) (omap_entries om) = None"
    using index_absent [OF om_okD(2) [OF ok] None] by (auto simp: omap_entries_def find_None_iff)
  then show ?thesis using None by (simp add: omap_get_def)
next
  case (Some i)
  note only = index_only [OF om_okD(2) [OF ok] Some]
  obtain e where e: "nat i < length (elems (om_list om))" "elems (om_list om) ! nat i = Some e" "js_is E (fst e) k"
    using only(2) by (auto simp: only_at_def)
  have "list_get i None (om_list om) = Some e" using nth_elems [of "nat i" "om_list om"] e(1,2) only(1) by simp
  moreover have "List.find (\<lambda>e. js_is E (fst e) k) (omap_entries om) = Some e"
  proof (cases "List.find (\<lambda>e. js_is E (fst e) k) (omap_entries om)")
    case None
    have "e \<in> set (live (elems (om_list om)))" unfolding live_mem using e(1,2) by blast
    then have False using e(3) None unfolding find_None_iff omap_entries_def by blast
    then show ?thesis ..
  next
    case (Some e')
    then have "e' \<in> set (live (elems (om_list om)))" "js_is E (fst e') k"
      by (auto simp: find_Some_iff omap_entries_def)
    then show ?thesis using Some only(2) e unfolding live_mem only_at_def by (metis option.inject)
  qed
  ultimately show ?thesis using Some by (simp add: omap_get_def)
qed

text \<open>Owners, and maps without holes.\<close>

lemma om_ensureOwner_ok:
  assumes ok: "om_ok E om" and om': "om' = upd_default om (omap_ensureOwner own om)"
  shows "om_ok E om'" "omap_entries om' = omap_entries om" "om_owner om' = own" "om_size om' = om_size om"
    "l_size (om_list om') = l_size (om_list om)" "l_origin (om_list om') = l_origin (om_list om)"
    "elems (om_list om') = elems (om_list om)" "map_root (om_map om') = map_root (om_map om)"
    "own \<noteq> None \<Longrightarrow> om_owner om = None \<Longrightarrow> \<not> omap_wasAltered om'"
proof -
  note o = om_okD [OF ok]
  let ?l = "upd_default (om_list om) (list_ensureOwner own (om_list om))"
  let ?m = "upd_default (om_map om) (map_ensureOwner own (om_map om))"
  have f: "l_size ?l = l_size (om_list om)" "l_origin ?l = l_origin (om_list om)" "l_capacity ?l = l_capacity (om_list om)"
      "l_level ?l = l_level (om_list om)" "l_root ?l = l_root (om_list om)" "l_tail ?l = l_tail (om_list om)" "l_owner ?l = own"
    using list_ok_size [OF o(1)] by (auto simp: list_ensureOwner_def makeList_def)
  note same = same_contents [OF f(1-6)]
  have m: "map_root ?m = map_root (om_map om)" "map_size ?m = map_size (om_map om)" "map_owner ?m = own"
    by (auto simp: map_ensureOwner_def)
  have i: "index_of E ?m es = index_of E (om_map om) es" for es
    using m by (simp add: index_of_def wf_map_def map_get_def map_entries_def)
  have alt: "\<not> l_altered ?l \<and> \<not> map_altered ?m" if "own \<noteq> None" "om_owner om = None"
    using that o(4,5) by (auto simp: list_ensureOwner_def map_ensureOwner_def makeList_def)
  have om'': "om_list om' = (if own = om_owner om then om_list om else ?l)" "om_map om' = (if own = om_owner om then om_map om else ?m)"
      "om_size om' = om_size om" "om_owner om' = own"
    unfolding om' using m o(3) by (auto simp: omap_ensureOwner_def Let_def makeOrderedMap_def)
  show "om_ok E om'" using ok o same f m i om'' by (simp add: om_ok_def)
  show "elems (om_list om') = elems (om_list om)" using same om'' by simp
  then show "omap_entries om' = omap_entries om" by (simp add: omap_entries_def)
  show "own \<noteq> None \<Longrightarrow> om_owner om = None \<Longrightarrow> \<not> omap_wasAltered om'"
    using alt om'' by (auto simp: omap_wasAltered_def)
  show "om_owner om' = own" "om_size om' = om_size om" using om'' by simp_all
  show "l_size (om_list om') = l_size (om_list om)" "l_origin (om_list om') = l_origin (om_list om)"
    "map_root (om_map om') = map_root (om_map om)" using om'' f m by simp_all
qed

lemma om_size_entries: "om_ok E om \<Longrightarrow> om_size om = int (length (omap_entries om))"
  using index_size om_okD(2,3) by (simp add: omap_entries_def)

lemma dense_elems:
  assumes ok: "om_ok E om" and d: "dense om" shows "elems (om_list om) = map Some (omap_entries om)"
proof -
  have "length (live (elems (om_list om))) = length (elems (om_list om))"
    using om_size_entries [OF ok] d om_okD(6) [OF ok] by (simp add: dense_def omap_entries_def)
  then have "\<forall>e \<in> set (elems (om_list om)). e \<noteq> None"
    unfolding live_def by (metis (mono_tags, lifting) length_filter_less length_map less_irrefl)
  then show ?thesis unfolding omap_entries_def live_def by (induction "elems (om_list om)") (auto simp: map_idI)
qed

lemma dense_last: "om_ok E om \<Longrightarrow> dense om \<Longrightarrow> grows_safely (om_list om)"
proof -
  assume ok: "om_ok E om" and d: "dense om"
  note o = om_okD [OF ok]
  show "grows_safely (om_list om)"
  proof (cases "l_size (om_list om) = 0")
    case False
    then have n: "nat (l_size (om_list om) - 1) < length (elems (om_list om))" "0 \<le> l_size (om_list om) - 1" using o(6) by auto
    have "\<forall>e \<in> set (elems (om_list om)). e \<noteq> None" unfolding dense_elems [OF ok d] by auto
    then have "elems (om_list om) ! nat (l_size (om_list om) - 1) \<noteq> None" using nth_mem [OF n(1)] by blast
    then show ?thesis using nth_elems [of "nat (l_size (om_list om) - 1)" "om_list om"] n by (simp add: grows_safely_def)
  qed (simp add: grows_safely_def)
qed

text \<open>A removal before the last place leaves a hole, as long as the list is short.\<close>

lemma om_remove_hole:
  assumes ok: "om_ok E om" and d: "dense om" and k: "omap_entries om = es @ e # es'" "js_is E k (fst e)" "es' \<noteq> []"
    and short: "l_size (om_list om) < 32"
  obtains u where "omap_remove E fresh k om = Some u" "l_size (om_list (upd_default om u)) = l_size (om_list om)"
proof -
  note o = om_okD [OF ok]
  have el: "elems (om_list om) = map Some (es @ e # es')" using dense_elems [OF ok d] k(1) by simp
  have n: "l_size (om_list om) = int (length es + 1 + length es')"
    using om_size_entries [OF ok] d k(1) by (simp add: dense_def)
  have "holds_at E (elems (om_list om)) k (int (length es))"
    using k(2) is_sym unfolding el by (simp add: holds_at_def nth_append)
  then have i: "map_get (index_env E) k None (om_map om) = Some (int (length es))" using index_get [OF o(2)] by blast
  have last: "int (length es) \<noteq> l_size (om_list om) - 1" using n k(3) by simp
  have "becomes (om_list om) (list_set fresh_arrays fresh (int (length es)) None (om_list om)) ((elems (om_list om))[length es := None])"
    using list_set_spec [OF o(1), of fresh_arrays "int (length es)" fresh None] n by (simp add: sound_eq_def fresh_arrays_def)
  then obtain u where u: "list_set fresh_arrays fresh (int (length es)) None (om_list om) = Some u"
      "list_ok (upd_default (om_list om) u)" "elems (upd_default (om_list om) u) = (elems (om_list om))[length es := None]"
    by (rule becomesE)
  have "length (elems (upd_default (om_list om) u)) = length (elems (om_list om))" using u(3) by simp
  then have "l_size (upd_default (om_list om) u) = l_size (om_list om)"
    using list_ok_size [OF u(2)] o(6) by (simp add: eq_nat_nat_iff)
  moreover have "omap_remove E fresh k om =
      Some (omap_store om (upd_default (om_map om) (map_remove (index_env E) fresh k (om_map om))) (upd_default (om_list om) u))"
    using i last short u(1) by (simp add: omap_remove_def updateOrderedMap_def Let_def SIZE_def)
  ultimately show ?thesis using that omap_store_list(1) by metis
qed

lemma om_set_dense:
  assumes ok: "om_ok E om" and d: "dense om" and room: "l_origin (om_list om) + l_size (om_list om) < 2 ^ 30"
  obtains om' where "map_option (upd_default om) (omap_set E fresh k v om) = Some om'" "om_ok E om'"
    "omap_entries om' = put_ordered E k (Some v) (omap_entries om)" "om_owner om' = om_owner om"
    "dense om'" "l_origin (om_list om') \<le> l_origin (om_list om)" "om_owner om \<noteq> None \<Longrightarrow> kept (om_list om) (om_list om')"
proof -
  note o = om_okD [OF ok]
  have cap: "l_capacity (om_list om) < 2 ^ 30" using room list_ok_size [OF o(1)] by simp
  show ?thesis
  proof (cases "map_get (index_env E) k None (om_map om)")
    case None
    obtain u where u: "list_set fresh_arrays fresh (l_size (om_list om)) (Some (k, v)) (om_list om) = Some u"
        "kept (om_list om) (upd_default (om_list om) u)"
        "l_origin (upd_default (om_list om) u) \<le> l_origin (om_list om)" "l_size (upd_default (om_list om) u) = l_size (om_list om) + 1"
      using list_set_append [OF o(1) dense_last [OF ok d], of fresh "(k, v)"] room by auto
    have s: "omap_set E fresh k v om = Some (omap_store om
        (upd_default (om_map om) (map_set (index_env E) fresh k (l_size (om_list om)) (om_map om))) (upd_default (om_list om) u))"
      using None u(1) by (simp only: omap_set_def updateOrderedMap_def Let_def option.case option.map)
    have ev: "evolves om (omap_set E fresh k v om) (put_ordered E k (Some v) (omap_entries om))"
      by (rule om_set_new_evolves [OF ok None dense_last [OF ok d] cap])
    have pos: "put_ordered E k (Some v) (omap_entries om) = omap_entries om @ [(k, v)]"
      using index_absent [OF o(2) None] by (auto simp: omap_entries_def)
    let ?om = "upd_default om (the (omap_set E fresh k v om))"
    have e: "om_ok E ?om" "omap_entries ?om = put_ordered E k (Some v) (omap_entries om)" "om_owner ?om = om_owner om"
      using ev by (auto simp: evolves_def simp del: put_ordered.simps)
    have l: "om_list ?om = upd_default (om_list om) u" unfolding s by (simp add: omap_store_def makeOrderedMap_def)
    have "dense ?om" using om_size_entries [OF e(1)] om_size_entries [OF ok] d u(4) unfolding dense_def l e(2) pos by simp
    then show ?thesis using that [of ?om] e u l s by simp
  next
    case (Some i)
    note only = index_only [OF o(2) Some]
    obtain e where e: "nat i < length (elems (om_list om))" "elems (om_list om) ! nat i = Some e"
      using only(2) by (auto simp: only_at_def)
    have get: "list_get i None (om_list om) = Some e" using nth_elems [of "nat i" "om_list om"] e(1,2) only(1) by simp
    have ev: "evolves om (omap_set E fresh k v om) (put_ordered E k (Some v) (omap_entries om))"
      by (rule om_set_known_evolves [OF ok Some])
    show ?thesis
    proof (cases "js_same E v (snd e)")
      case True
      then have "omap_set E fresh k v om = Some (This om)" using Some get by (simp add: omap_set_def updateOrderedMap_def Let_def)
      then show ?thesis using that [of om] ev d by (simp add: evolves_def)
    next
      case False
      let ?u = "update_inside fresh_arrays i (Some (k, v)) (om_list om)"
      have i: "0 \<le> i" "i < l_size (om_list om)" using only(1) e(1) by simp_all
      note m = update_inside_spec [OF o(1) i _ refl, of fresh_arrays "Some (k, v)"]
      have eqv: "sound_eq fresh_arrays" by (simp add: sound_eq_def fresh_arrays_def)
      have s: "omap_set E fresh k v om = Some (omap_store om (om_map om) (upd_default (om_list om) ?u))"
        using Some get False list_set_inside [OF i, of fresh_arrays fresh "Some (k, v)"]
        by (simp add: omap_set_def updateOrderedMap_def Let_def)
      let ?om = "upd_default om (the (omap_set E fresh k v om))"
      have e: "om_ok E ?om" "omap_entries ?om = put_ordered E k (Some v) (omap_entries om)" "om_owner ?om = om_owner om"
        using ev by (auto simp: evolves_def simp del: put_ordered.simps)
      have l: "om_list ?om = upd_default (om_list om) ?u" "om_size ?om = map_size (om_map om)"
        unfolding s by (simp_all add: omap_store_def makeOrderedMap_def)
      have "dense ?om" using m(3) [OF eqv] d o(3) unfolding dense_def l by simp
      then show ?thesis using that [of ?om] e l s m(4) [OF eqv] update_inside_origin [of "om_list om"] by simp
    qed
  qed
qed

lemma length_put_ordered: "length (put_ordered E k (Some v) es) \<le> Suc (length es)"
  by simp

lemma om_set_all_dense:
  assumes "om_ok E om" "dense om" "l_origin (om_list om) + l_size (om_list om) + int (length es) \<le> 2 ^ 30" "om_owner om \<noteq> None"
  shows "\<exists>om'. omap_set_all E fresh es om = Some om' \<and> om_ok E om' \<and>
    omap_entries om' = fold (\<lambda>(k, v). put_ordered E k (Some v)) es (omap_entries om) \<and> om_owner om' = om_owner om \<and>
    kept (om_list om) (om_list om')"
  using assms
proof (induction es arbitrary: om)
  case (Cons e es)
  obtain k v where e: "e = (k, v)" by force
  have room: "l_origin (om_list om) + l_size (om_list om) < 2 ^ 30" using Cons.prems(3) by simp
  obtain om1 where om1: "map_option (upd_default om) (omap_set E fresh k v om) = Some om1" "om_ok E om1"
    "omap_entries om1 = put_ordered E k (Some v) (omap_entries om)" "om_owner om1 = om_owner om"
    "dense om1" "l_origin (om_list om1) \<le> l_origin (om_list om)" "kept (om_list om) (om_list om1)"
    using om_set_dense [OF Cons.prems(1,2) room, of fresh k v] Cons.prems(4) by blast
  have "l_size (om_list om1) \<le> l_size (om_list om) + 1"
    using om1(5) Cons.prems(2) om_size_entries [OF om1(2)] om_size_entries [OF Cons.prems(1)] length_put_ordered [of k v "omap_entries om"]
    unfolding dense_def om1(3) by linarith
  then obtain om' where om': "omap_set_all E fresh es om1 = Some om'" "om_ok E om'"
      "omap_entries om' = fold (\<lambda>(k, v). put_ordered E k (Some v)) es (omap_entries om1)" "om_owner om' = om_owner om1"
      "kept (om_list om1) (om_list om')"
    using Cons.IH [OF om1(2,5)] om1(4,6) Cons.prems(3,4) by fastforce
  have "kept (om_list om) (om_list om')" using om1(7) om'(5) by (auto simp: kept_def)
  then show ?case using om' om1(1,3,4) by (auto simp: e simp del: put_ordered.simps)
qed simp

lemma emptyOrderedMap_owner [simp]: "om_owner emptyOrderedMap = None"
  by (simp add: emptyOrderedMap_def makeOrderedMap_def)

lemma emptyOrderedMap_ok: "om_ok E emptyOrderedMap" "dense emptyOrderedMap" "omap_entries emptyOrderedMap = []"
  by (simp_all add: emptyOrderedMap_def makeOrderedMap_def om_ok_def index_of_def holds_at_def dense_def omap_entries_def map_get_def)
    (simp_all add: emptyList_def makeList_def)

lemma OrderedMap_of_entries_spec:
  assumes "int (length es) \<le> 2 ^ 30"
  obtains u where "OrderedMap_of_entries E fresh es = Some u" "om_ok E (upd_default emptyOrderedMap u)"
    "om_owner (upd_default emptyOrderedMap u) = None"
    "omap_entries (upd_default emptyOrderedMap u) = fold (\<lambda>(k, v). put_ordered E k (Some v)) es []"
proof -
  define m where "m = upd_default (emptyOrderedMap :: ('k, 'v) omap) (omap_ensureOwner (Some fresh) emptyOrderedMap)"
  note m = om_ensureOwner_ok [OF emptyOrderedMap_ok(1) m_def]
  have z: "l_origin (om_list m) + l_size (om_list m) = 0" "dense m" "omap_entries m = []"
    using m emptyOrderedMap_ok by (simp_all add: dense_def emptyOrderedMap_def makeOrderedMap_def emptyList_def makeList_def)
  obtain om' where om': "omap_set_all E fresh es m = Some om'" "om_ok E om'"
      "omap_entries om' = fold (\<lambda>(k, v). put_ordered E k (Some v)) es []" "om_owner om' = Some fresh" "kept (om_list m) (om_list om')"
    using om_set_all_dense [OF m(1) z(2), of es fresh] assms z m(3) by auto
  let ?c = "upd_default om' (omap_ensureOwner None om')"
  note c = om_ensureOwner_ok [OF om'(2), of ?c None, OF refl]
  have r: "OrderedMap_of_entries E fresh es = Some (if omap_wasAltered om' then New ?c else This emptyOrderedMap)"
    using om'(1) by (simp add: OrderedMap_of_entries_def omap_withMutations_def omap_asMutable_def m_def)
  have "omap_entries om' = []" if "\<not> omap_wasAltered om'"
  proof -
    have "om_list om' = om_list m" using that om'(5) m(3) om_okD(5) [OF m(1)] by (auto simp: kept_def omap_wasAltered_def)
    then show ?thesis using z(3) by (simp add: omap_entries_def)
  qed
  then show ?thesis using that [OF r] c om'(3) emptyOrderedMap_ok by (cases "omap_wasAltered om'") simp_all
qed

end

sublocale js_objects \<subseteq> ordered: ordered_keys "js_env H" ..

end
