(* ===== verification/Imm_OrderedProps.thy ===== *)
theory Imm_OrderedProps
  imports Imm_OrderedSpec Seq_Reads
begin

text \<open>
  The properties of \<open>OrderedMap\<close>. The abstract map is the list of entries in insertion order;
  \<open>put_ordered\<close> is what an update should do to it.
\<close>

lemma omap_iterate_visit: "list_ok (om_list om) \<Longrightarrow> fst (omap_iterate fn r om s) = fst (Seq_Core.visit (directed r (omap_entries om)) fn s)"
proof -
  let ?f = "\<lambda>entry (s, index). case (case entry of None \<Rightarrow> (s, False) | Some e \<Rightarrow> fn (snd e) (fst e) s) of (s', stop) \<Rightarrow> ((s', index + 1), stop)"
  assume ok: "list_ok (om_list om)"
  have run: "fst (fst (run_until ?f es (s, i))) = fst (Seq_Core.visit (live es) fn s)" for es i s
    by (induction es arbitrary: s i) (auto simp: live_def split: option.splits prod.splits)
  have "live (directed r (elems (om_list om))) = directed r (live (elems (om_list om)))"
    by (simp add: live_def directed_filter directed_map)
  then show ?thesis
    unfolding omap_iterate_def list_iterate_def iterateList_elems [OF ok] run omap_entries_def by simp
qed

lemma omap_iterate_count:
  "list_ok (om_list om) \<Longrightarrow> (\<And>v k s. \<not> snd (fn v k s)) \<Longrightarrow> snd (omap_iterate fn r om s) = nat (l_size (om_list om))"
proof -
  let ?f = "\<lambda>entry (s, index). case (case entry of None \<Rightarrow> (s, False) | Some e \<Rightarrow> fn (snd e) (fst e) s) of (s', stop) \<Rightarrow> ((s', index + 1), stop)"
  assume ok: "list_ok (om_list om)" and n: "\<And>v k s. \<not> snd (fn v k s)"
  have run: "snd (fst (run_until ?f es (s, i))) = i + length es" for es i s
  proof (induction es arbitrary: s i)
    case (Cons e es)
    show ?case
    proof (cases e)
      case (Some p)
      then show ?thesis using Cons [of "fst (fn (snd p) (fst p) s)" "i + 1"] n [of "snd p" "fst p" s]
        by (cases "fn (snd p) (fst p) s") simp
    qed (use Cons [of s "i + 1"] in simp)
  qed simp
  show ?thesis unfolding omap_iterate_def list_iterate_def iterateList_elems [OF ok] run by simp
qed


lemma js_ordered: "js_objects H \<Longrightarrow> ordered_keys (js_env H)"
  unfolding ordered_keys_def by (rule js_objects.is_key)

text \<open>
  C21. \<open>OrderedMap\<close> refines the list of its entries in insertion order: a removal deletes the entry and
  keeps the order, setting a known key keeps its place, and setting a new key puts it last, through the inner map
  of places, the list with its holes and the compaction that rebuilds both. Every update ends
  and keeps the invariant and the owner; for a new key the last place of the list must not be a hole.
\<close>

theorem ordered_update_refines:
  assumes "js_objects H" "om_ok (js_env H) om"
    "v = None \<or> map_has (index_env (js_env H)) k (om_map om) \<or> grows_safely (om_list om) \<and> l_capacity (om_list om) < 2 ^ 30"
  shows "\<exists>u. updateOrderedMap (js_env H) fresh k v om = Some u \<and> om_ok (js_env H) (upd_default om u) \<and>
    omap_entries (upd_default om u) = put_ordered (js_env H) k v (omap_entries om) \<and> om_owner (upd_default om u) = om_owner om"
  using ordered_keys.update_evolves [OF js_ordered [OF assms(1)] assms(2,3), of fresh]
  unfolding ordered_keys.evolves_def [OF js_ordered [OF assms(1)]] by blast

theorem ordered_update_refines_witness:
  "\<exists>u. updateOrderedMap (js_env plain_objects) 3 (Num (NumInt 2)) (Some (Bool True)) emptyOrderedMap = Some u \<and>
     omap_entries (upd_default emptyOrderedMap u) = [(Num (NumInt 2), Bool True)]"
  using ordered_update_refines [OF plain.js_objects_axioms ordered_keys.emptyOrderedMap_ok(1) [OF js_ordered [OF plain.js_objects_axioms]],
      of "Some (Bool True)" "Num (NumInt 2)" 3]
  by (auto simp: emptyOrderedMap_def makeOrderedMap_def emptyList_def makeList_def grows_safely_def omap_entries_def elems_def)

text \<open>
  C22. The compaction bounds the holes: an update of an ordered map of \<open>n\<close> entries leaves at most
  \<open>2 * n' + 31\<close> places in its list, \<open>n'\<close> the new number of entries, when that held before.
\<close>

theorem ordered_holes_bounded:
  assumes "js_objects H" "om_ok (js_env H) om" "l_size (om_list om) \<le> 2 * om_size om + 31"
    "v = None \<or> map_has (index_env (js_env H)) k (om_map om) \<or> grows_safely (om_list om) \<and> l_capacity (om_list om) < 2 ^ 30"
    "updateOrderedMap (js_env H) fresh k v om = Some u"
  shows "l_size (om_list (upd_default om u)) \<le> 2 * om_size (upd_default om u) + 31 \<and>
    om_size (upd_default om u) = int (length (omap_entries (upd_default om u)))"
proof -
  note o = js_ordered [OF assms(1)]
  have "om_ok (js_env H) (upd_default om u)" "compact_enough (upd_default om u)"
    using ordered_keys.update_evolves [OF o assms(2,4), of fresh] assms(3,5)
    unfolding ordered_keys.evolves_def [OF o] by (auto simp: compact_enough_def)
  then show ?thesis using ordered_keys.om_size_entries [OF o] by (simp add: compact_enough_def)
qed

theorem ordered_holes_bounded_witness:
  "\<exists>u. updateOrderedMap (js_env plain_objects) 3 (Num (NumInt 2)) (Some (Bool True)) emptyOrderedMap = Some u \<and>
     l_size (om_list (upd_default emptyOrderedMap u)) \<le> 33"
proof -
  note o = js_ordered [OF plain.js_objects_axioms]
  note e = ordered_keys.emptyOrderedMap_ok(1) [OF o]
  let ?o = "emptyOrderedMap :: (jsval, jsval) omap"
  have h: "grows_safely (om_list ?o)" "l_capacity (om_list ?o) < 2 ^ 30" "l_size (om_list ?o) \<le> 2 * om_size ?o + 31"
      "omap_entries ?o = []"
    by (simp_all add: emptyOrderedMap_def makeOrderedMap_def emptyList_def makeList_def grows_safely_def omap_entries_def elems_def)
  obtain u where u: "updateOrderedMap (js_env plain_objects) 3 (Num (NumInt 2)) (Some (Bool True)) emptyOrderedMap = Some u"
      "omap_entries (upd_default emptyOrderedMap u) = [(Num (NumInt 2), Bool True)]"
    using ordered_keys.update_evolves [OF o e, of "Some (Bool True)" "Num (NumInt 2)" 3] h
    unfolding ordered_keys.evolves_def [OF o] by auto
  show ?thesis
    using ordered_holes_bounded [OF plain.js_objects_axioms e h(3) _ u(1)] u h(1,2) by simp
qed

text \<open>
  C23. Building an ordered map from entries, reading it and iterating it: the entries are those of the
  abstract map in insertion order, \<open>get\<close> answers the value of the entry whose key \<open>is\<close> equates, and
  \<open>__iterate\<close> visits the entries in that order, or backwards.
\<close>

theorem ordered_construct_read:
  assumes "js_objects H" "int (length es) \<le> 2 ^ 30"
  shows "\<exists>u. OrderedMap_of_entries (js_env H) fresh es = Some u \<and>
    (let om = upd_default emptyOrderedMap u; es' = fold (\<lambda>(k, v). put_ordered (js_env H) k (Some v)) es []
     in omap_entries om = es' \<and>
        omap_get (js_env H) k d om = Some (case List.find (\<lambda>e. is_value H (fst e) k) es' of None \<Rightarrow> d | Some e \<Rightarrow> Some (snd e)) \<and>
        fst (omap_iterate fn r om s) = fst (Seq_Core.visit (directed r es') fn s))"
proof -
  note o = js_ordered [OF assms(1)]
  obtain u where u: "OrderedMap_of_entries (js_env H) fresh es = Some u" "om_ok (js_env H) (upd_default emptyOrderedMap u)"
      "omap_entries (upd_default emptyOrderedMap u) = fold (\<lambda>(k, v). put_ordered (js_env H) k (Some v)) es []"
    using ordered_keys.OrderedMap_of_entries_spec [OF o assms(2), of fresh] by blast
  show ?thesis
    using ordered_keys.omap_get_entry [OF o u(2), of k d] omap_iterate_visit [OF ordered_keys.om_okD(1) [OF o u(2)], of fn r s] u(1,3)
    by (simp add: Let_def)
qed

theorem ordered_construct_read_witness:
  "\<exists>u. OrderedMap_of_entries (js_env plain_objects) 3
       [(Num (NumInt 2), Bool True), (Num (NumInt 1), Bool False), (Num (NumInt 2), Undefined)] = Some u \<and>
     omap_entries (upd_default emptyOrderedMap u) = [(Num (NumInt 2), Undefined), (Num (NumInt 1), Bool False)]"
proof -
  let ?es = "[(Num (NumInt 2), Bool True), (Num (NumInt 1), Bool False), (Num (NumInt 2), Undefined)]"
  have "fold (\<lambda>(k, v). put_ordered (js_env plain_objects) k (Some v)) ?es [] = [(Num (NumInt 2), Undefined), (Num (NumInt 1), Bool False)]"
    by (simp add: is_value_def same_value_eq strict_eq_def equals_call_def)
  then show ?thesis
    using ordered_construct_read [OF plain.js_objects_axioms, of ?es 3 "Num (NumInt 2)" None "\<lambda>v k s. (s, False)" False "()"]
    by (auto simp: Let_def)
qed

text \<open>
  The hash of an ordered map depends on holes that no reader can see: \<open>hashIterable\<close> mixes in the
  count that \<open>__iterate\<close> answers, which includes the holes. Two well-formed ordered maps with the same entries in
  the same order, one built by setting a key, the other by setting two and removing the first,
  have different hash codes, so \<open>is\<close> can equate keys that hash differently.
\<close>

definition ordered_hash :: "objects \<Rightarrow> (jsval, jsval) omap \<Rightarrow> int32" where
  \<comment> \<open>\<open>hashCode\<close>, for a map without a cached hash\<close>
  "ordered_hash H om = hashIterable True True (hash_value H) (hash_value H) (Some (NumInt (om_size om))) (\<lambda>fn r. omap_iterate fn r om)"

lemma ordered_hash_places:
  assumes "list_ok (om_list om)"
  shows "ordered_hash H om = murmurHashOfSize (of_nat (nat (l_size (om_list om))))
    (fst (Seq_Core.visit (omap_entries om) (hash_entry True True (hash_value H) (hash_value H)) 1))"
proof -
  let ?fn = "hash_entry True True (hash_value H) (hash_value H)"
  have "omap_iterate ?fn False om 1 = (fst (Seq_Core.visit (omap_entries om) ?fn 1), nat (l_size (om_list om)))"
    using omap_iterate_visit [OF assms, of ?fn False 1] omap_iterate_count [OF assms, of ?fn False 1]
    by (simp add: prod_eq_iff hash_entry_def)
  then show ?thesis by (simp add: ordered_hash_def hashIterable_def NumInt_def)
qed

lemma smi_two: "smi 2 = 2"
  by (simp add: smi_def ushr32_def)

lemma murmur_test: "murmurHashOfSize 2 (31 + hashMerge 1 2) \<noteq> murmurHashOfSize 1 (31 + hashMerge 1 2)"
  by (simp add: murmurHashOfSize_def hashMerge_def Let_def shl32_def ushr32_def sshr32_def imul_times smi_def)


lemma demo_insert:
  fixes om :: "(jsval, jsval) omap"
  assumes "om_ok (js_env plain_objects) om" "dense om" "l_origin (om_list om) + l_size (om_list om) < 2 ^ 30"
    "\<forall>e \<in> set (omap_entries om). fst e \<noteq> Num (NumInt i)"
    "\<forall>e \<in> set (omap_entries om). \<exists>j. fst e = Num (NumInt j)"
  obtains om' where "om_ok (js_env plain_objects) om'" "dense om'" "omap_entries om' = omap_entries om @ [(Num (NumInt i), Bool True)]"
    "l_origin (om_list om') \<le> l_origin (om_list om)"
proof -
  note o = js_ordered [OF plain.js_objects_axioms]
  have "\<not> is_value plain_objects (fst e) (Num (NumInt i))" if mem: "e \<in> set (omap_entries om)" for e
  proof -
    obtain j where "fst e = Num (NumInt j)" "j \<noteq> i" using bspec [OF assms(4) mem] bspec [OF assms(5) mem] by auto
    then show ?thesis by (simp add: is_value_def same_value_eq equals_call_def)
  qed
  then have "put_ordered (js_env plain_objects) (Num (NumInt i)) (Some (Bool True)) (omap_entries om) =
      omap_entries om @ [(Num (NumInt i), Bool True)]" by simp
  then show ?thesis using ordered_keys.om_set_dense [OF o assms(1-3), of 3 "Num (NumInt i)" "Bool True"] that by metis
qed

theorem ordered_hash_counts_holes:
  "\<exists>om om' u. om_ok (js_env plain_objects) om \<and> om_ok (js_env plain_objects) om' \<and>
     omap_remove (js_env plain_objects) 7 (Num (NumInt 1)) om = Some u \<and> om_ok (js_env plain_objects) (upd_default om u) \<and>
     omap_entries (upd_default om u) = omap_entries om' \<and>
     ordered_hash plain_objects (upd_default om u) \<noteq> ordered_hash plain_objects om'"
proof -
  let ?E = "js_env plain_objects" and ?o = "emptyOrderedMap :: (jsval, jsval) omap"
  let ?e = "\<lambda>i. (Num (NumInt i), Bool True)"
  note o = js_ordered [OF plain.js_objects_axioms]
  note e = ordered_keys.emptyOrderedMap_ok [OF o]
  have z: "l_origin (om_list ?o) = 0" "l_size (om_list ?o) = 0" "omap_entries ?o = []"
    by (simp_all add: emptyOrderedMap_def makeOrderedMap_def emptyList_def makeList_def omap_entries_def elems_def)
  obtain om1 where om1: "om_ok ?E om1" "dense om1" "omap_entries om1 = [?e 2]"
    using demo_insert [OF e(1,2), of 2] z by auto
  obtain om2 where om2: "om_ok ?E om2" "dense om2" "omap_entries om2 = [?e 1]" "l_origin (om_list om2) \<le> l_origin (om_list ?o)"
    using demo_insert [OF e(1,2), of 1] z by auto
  have s: "l_size (om_list om) = int (length (omap_entries om))" if "om_ok ?E om" "dense om" for om
    using that ordered_keys.om_size_entries [OF o] by (simp add: dense_def)
  obtain om3 where om3: "om_ok ?E om3" "dense om3" "omap_entries om3 = [?e 1, ?e 2]"
    using demo_insert [OF om2(1,2), of 2] om2(3,4) z s [OF om2(1,2)] by auto
  obtain u where u: "omap_remove ?E 7 (Num (NumInt 1)) om3 = Some u" "l_size (om_list (upd_default om3 u)) = 2"
    using ordered_keys.om_remove_hole [OF o om3(1,2), of "[]" "?e 1" "[?e 2]" "Num (NumInt 1)" 7] om3(3) s [OF om3(1,2)]
    by (auto simp: is_value_def same_value_eq)
  have ev: "om_ok ?E (upd_default om3 u)" "omap_entries (upd_default om3 u) = [?e 2]"
    using ordered_keys.om_remove_evolves [OF o om3(1), of 7 "Num (NumInt 1)"] u(1) om3(3)
    by (auto simp: ordered_keys.evolves_def [OF o] is_value_def same_value_eq equals_call_def)
  have "ordered_hash plain_objects (upd_default om3 u) \<noteq> ordered_hash plain_objects om1"
    using murmur_test ordered_hash_places [OF ordered_keys.om_okD(1) [OF o ev(1)]] ordered_hash_places [OF ordered_keys.om_okD(1) [OF o om1(1)]]
    unfolding ev(2) om1(3) u(2) s [OF om1(1,2)]
    by (simp add: hash_entry_def hash_value_def hash_after_def hashNumber_int smi_two)
  then show ?thesis using om3(1) om1(1,3) u(1) ev by (intro exI [of _ om3] exI [of _ om1] exI [of _ u]) simp
qed

end
