(* ===== verification/Imm_Record.thy ===== *)
theory Imm_Record
  imports JS_Keys Seq_Views
begin

text \<open>
  \<open>Record\<close> of \<open>static/drf-yasg/immutable.js\<close>: a type with fields and default values, made by
  \<open>Record(defaultValues, name)\<close>, and its instances, each a \<open>Map\<close> of the fields that were set. The names of fields are
  strings, as the property names of \<open>defaultValues\<close> are; field names that hide a method of
  the prototype (\<open>get\<close>, \<open>has\<close> and the like) are not modelled. \<open>E\<close> compares the keys of the map. The
  specification reads an instance as a total function on its fields.
\<close>

type_synonym fields = "(jsstring \<times> jsval) list"
  \<comment> \<open>the own enumerable properties of an object, in the order of \<open>Object.keys\<close>\<close>

type_synonym jsenv = "(jsval, jsval) eqenv"

record rtype =
  rt_name :: jsstring
  rt_defaults :: fields

record rec_instance =
  rec_type :: rtype
  rec_map :: "(jsval, jsval) imap"
  rec_owner :: owner

datatype rec_error =
  UnknownKey jsstring jsstring  \<comment> \<open>\<open>Cannot set unknown key "k" on name\<close>\<close>
| ImmutableRecord  \<comment> \<open>\<open>Cannot set on an immutable record.\<close>\<close>

section \<open>Construction\<close>

definition recordName :: "rec_instance \<Rightarrow> jsstring" where
  \<comment> \<open>the constructor is a function expression called \<open>Record\<close>\<close>
  "recordName r = (if rt_name (rec_type r) \<noteq> [] then rt_name (rec_type r) else js_str ''Record'')"

definition reserved :: "jsstring set" where
  \<comment> \<open>the properties that the constructor assigns after \<open>setProps\<close> has defined the accessors\<close>
  "reserved = {js_str ''size'', js_str ''_name'', js_str ''_keys'', js_str ''_defaultValues'', js_str ''_map''}"

definition Record_new :: "jsenv \<Rightarrow> nat \<Rightarrow> rtype \<Rightarrow> fields \<Rightarrow> rec_error + rec_instance" where
  \<comment> \<open>\<open>new RecordType(values)\<close>, the first one of its type. A field of a reserved name has an
    accessor by then, whose setter throws.\<close>
  "Record_new E fresh t values =
     (if \<exists>k \<in> fst ` set (rt_defaults t). k \<in> reserved then Inl ImmutableRecord
      else Inr \<lparr>rec_type = t, rec_map = Map_of_entries E fresh (map (\<lambda>(k, v). (Str k, v)) values), rec_owner = None\<rparr>)"

definition makeRecord :: "rec_instance \<Rightarrow> (jsval, jsval) imap \<Rightarrow> owner \<Rightarrow> rec_instance" where
  "makeRecord likeRecord m own = \<lparr>rec_type = rec_type likeRecord, rec_map = m, rec_owner = own\<rparr>"

section \<open>Access\<close>

abbreviation default_of :: "jsstring \<Rightarrow> rec_instance \<Rightarrow> jsval option" where
  "default_of k r \<equiv> map_of (rt_defaults (rec_type r)) k"

definition rec_has :: "jsstring \<Rightarrow> rec_instance \<Rightarrow> bool" where
  "rec_has k r \<longleftrightarrow> default_of k r \<noteq> None"

definition rec_get :: "jsenv \<Rightarrow> jsstring \<Rightarrow> jsval option \<Rightarrow> rec_instance \<Rightarrow> jsval option" where
  "rec_get E k notSet r =
     (if \<not> rec_has k r then notSet else map_get E (Str k) (default_of k r) (rec_map r))"

definition field :: "jsenv \<Rightarrow> rec_instance \<Rightarrow> jsstring \<Rightarrow> jsval" where
  \<comment> \<open>\<open>this.get(k)\<close>\<close>
  "field E r k = (case rec_get E k None r of None \<Rightarrow> Undefined | Some v \<Rightarrow> v)"

section \<open>Modification\<close>

definition store_map :: "rec_instance \<Rightarrow> (jsval, jsval) imap upd \<Rightarrow> rec_instance upd" where
  \<comment> \<open>the end of \<open>set\<close> and \<open>remove\<close>: the map of an owned record is edited in place\<close>
  "store_map r newMap =
     (if rec_owner r \<noteq> None \<or> is_this newMap then This (r\<lparr>rec_map := upd_default (rec_map r) newMap\<rparr>)
      else New (makeRecord r (upd_default (rec_map r) newMap) None))"

definition rec_set :: "jsenv \<Rightarrow> nat \<Rightarrow> jsstring \<Rightarrow> jsval \<Rightarrow> rec_instance \<Rightarrow> rec_error + rec_instance upd" where
  "rec_set E fresh k v r =
     (case default_of k r of
        None \<Rightarrow> Inl (UnknownKey k (recordName r))
      | Some defaultVal \<Rightarrow>
          Inr (if \<not> map_has E (Str k) (rec_map r) \<and> strict_eq v defaultVal then This r
               else store_map r (map_set E fresh (Str k) v (rec_map r))))"

definition rec_remove :: "jsenv \<Rightarrow> nat \<Rightarrow> jsstring \<Rightarrow> rec_instance \<Rightarrow> rec_instance upd" where
  "rec_remove E fresh k r =
     (if \<not> rec_has k r then This r else store_map r (map_remove E fresh (Str k) (rec_map r)))"

definition rec_clear :: "rec_instance \<Rightarrow> rec_instance upd" where
  "rec_clear r =
     (if rec_owner r \<noteq> None then This (r\<lparr>rec_map := upd_default (rec_map r) (map_clear (rec_map r))\<rparr>)
      else New (makeRecord r emptyMap None))"

definition rec_assign :: "jsenv \<Rightarrow> nat \<Rightarrow> jsstring \<Rightarrow> jsval \<Rightarrow> rec_instance \<Rightarrow> rec_error + rec_instance upd" where
  \<comment> \<open>the setter of \<open>setProp\<close>: \<open>record.k = v\<close>\<close>
  "rec_assign E fresh k v r = (if rec_owner r = None then Inl ImmutableRecord else rec_set E fresh k v r)"

section \<open>Owners\<close>

definition rec_ensureOwner :: "owner \<Rightarrow> rec_instance \<Rightarrow> rec_instance upd" where
  "rec_ensureOwner own r =
     (if own = rec_owner r then This r
      else (let newMap = upd_default (rec_map r) (map_ensureOwner own (rec_map r))
            in if own = None then This (r\<lparr>rec_owner := None, rec_map := newMap\<rparr>) else New (makeRecord r newMap own)))"

definition rec_withMutations :: "nat \<Rightarrow> (rec_instance \<Rightarrow> rec_instance) \<Rightarrow> rec_instance \<Rightarrow> rec_instance upd" where
  "rec_withMutations fresh fn r =
     (if rec_owner r \<noteq> None then This (fn r)
      else (let mutable = fn (upd_default r (rec_ensureOwner (Some fresh) r))
            in if map_altered (rec_map mutable) then New (upd_default mutable (rec_ensureOwner (rec_owner r) mutable)) else This r))"

section \<open>Iteration\<close>

definition rec_iterate :: "jsenv \<Rightarrow> rec_instance \<Rightarrow> (jsstring, jsval, 's) iterate" where
  "rec_iterate E r = map_seq_iterate (\<lambda>_ k. field E r k) (ObjectSeq_iterate (rt_defaults (rec_type r)))"

definition object_pairs :: "fields \<Rightarrow> bool \<Rightarrow> (jsstring \<times> jsval, nat) stepper" where
  \<comment> \<open>the entries of \<open>ObjectSeq.__iterator\<close>, as \<open>mapFactory\<close> asks for them\<close>
  "object_pairs obj reverse ii =
     Some (if ii \<ge> length obj then (iteratorDone, ii + 1)
           else (Step (Some (obj ! (if reverse then length obj - 1 - ii else ii))) False, ii + 1))"

definition rec_next :: "jsenv \<Rightarrow> rec_instance \<Rightarrow> iter_type \<Rightarrow> bool \<Rightarrow> ((jsstring, jsval) item, nat) stepper" where
  "rec_next E r type reverse = map_seq_next (\<lambda>_ k. field E r k) (object_pairs (rt_defaults (rec_type r)) reverse) type"

section \<open>A record is a total function on its fields\<close>

definition rec_ok :: "jsenv \<Rightarrow> rec_instance \<Rightarrow> bool" where
  "rec_ok E r \<longleftrightarrow> wf_map E (rec_map r) \<and> map_owner (rec_map r) = rec_owner r \<and> distinct (map fst (rt_defaults (rec_type r)))"

definition rec_entries :: "jsenv \<Rightarrow> rec_instance \<Rightarrow> fields" where
  "rec_entries E r = map (\<lambda>(k, _). (k, field E r k)) (rt_defaults (rec_type r))"

definition rec_becomes :: "jsenv \<Rightarrow> rec_instance \<Rightarrow> rec_instance upd \<Rightarrow> (jsstring \<Rightarrow> jsval) \<Rightarrow> bool" where
  \<comment> \<open>the result is a well-formed record of the same type and owner with the given fields, and an
    ownerless receiver is not edited\<close>
  "rec_becomes E r u f \<longleftrightarrow>
     (let r' = upd_default r u
      in rec_ok E r' \<and> rec_type r' = rec_type r \<and> rec_owner r' = rec_owner r \<and>
         (\<forall>k. rec_has k r \<longrightarrow> field E r' k = f k) \<and> (rec_owner r = None \<longrightarrow> is_this u \<longrightarrow> r' = r))"

lemma makeRecord_simps [simp]:
  "rec_type (makeRecord r m own) = rec_type r" "rec_map (makeRecord r m own) = m" "rec_owner (makeRecord r m own) = own"
  by (simp_all add: makeRecord_def)

lemma Str_is [simp]: "is_value H (Str a) (Str b) \<longleftrightarrow> a = b"
  by (auto simp: is_value_def same_value_eq equals_call_def)

context js_objects
begin

abbreviation (input) E where "E \<equiv> js_env H"

lemma field_eq:
  assumes "rec_ok E r" "rec_has k r"
  shows "field E r k = (case map_get E (Str k) None (rec_map r) of None \<Rightarrow> the (default_of k r) | Some v \<Rightarrow> v)"
proof -
  obtain d where d: "default_of k r = Some d" using assms(2) by (auto simp: rec_has_def)
  have "map_get E (Str k) (Some d) (rec_map r) = (case map_get E (Str k) None (rec_map r) of None \<Rightarrow> Some d | Some v \<Rightarrow> Some v)"
    using assms(1) by (intro key.map_get_default) (simp add: rec_ok_def)
  then show ?thesis using assms(2) d by (simp add: field_def rec_get_def split: option.split)
qed

lemma store_becomes:
  assumes ok: "rec_ok E r"
  shows "rec_becomes E r (store_map r (updateMap E fresh (Str k) v (rec_map r)))
    (\<lambda>x. if x = k then (case v of None \<Rightarrow> the (default_of k r) | Some y \<Rightarrow> y) else field E r x)"
proof -
  have wf: "wf_map E (rec_map r)" and own: "map_owner (rec_map r) = rec_owner r" using ok by (simp_all add: rec_ok_def)
  let ?u = "store_map r (updateMap E fresh (Str k) v (rec_map r))"
  let ?r = "upd_default r ?u"
  have m: "rec_map ?r = map_put E fresh (Str k) v (rec_map r)" "rec_type ?r = rec_type r" "rec_owner ?r = rec_owner r"
    by (auto simp: store_map_def map_put_def)
  have ok': "rec_ok E ?r"
    using ok key.map_put_inv [OF wf, of fresh "Str k" v] key.updateMap_spec(3) [OF wf, of fresh "Str k" v] own
    by (simp add: rec_ok_def m)
  have "field E ?r x = (if x = k then (case v of None \<Rightarrow> the (default_of k r) | Some y \<Rightarrow> y) else field E r x)" if "rec_has x r" for x
  proof -
    have "rec_has x ?r" using that m(2) by (simp add: rec_has_def)
    then show ?thesis
      using field_eq [OF ok'] field_eq [OF ok that] fun_cong [OF key.map_put_lookup [OF wf, of fresh "Str k" v], of "Str x"] m(2)
      by (auto simp: m(1) assign_def split: option.split)
  qed
  moreover have "is_this ?u \<longrightarrow> ?r = r" if "rec_owner r = None"
  proof
    assume "is_this ?u"
    then have "is_this (updateMap E fresh (Str k) v (rec_map r))" using that by (auto simp: store_map_def split: if_splits)
    then have "upd_default (rec_map r) (updateMap E fresh (Str k) v (rec_map r)) = rec_map r"
      using key.updateMap_persistent [of "rec_map r" fresh "Str k" v] own that
      by (cases "updateMap E fresh (Str k) v (rec_map r)") auto
    then show "?r = r" using \<open>is_this ?u\<close> by (auto simp: store_map_def split: if_splits)
  qed
  ultimately show ?thesis using ok' m by (simp add: rec_becomes_def Let_def)
qed

lemma rec_set_becomes:
  assumes ok: "rec_ok E r" and k: "rec_has k r"
  obtains u where "rec_set E fresh k v r = Inr u" "rec_becomes E r u ((field E r)(k := v))"
proof -
  obtain d where d: "default_of k r = Some d" using k by (auto simp: rec_has_def)
  show ?thesis
  proof (cases "\<not> map_has E (Str k) (rec_map r) \<and> strict_eq v d")
    case True
    then have "field E r k = v" using field_eq [OF ok k] d by (simp add: map_has_def strict_eq_def)
    then have "rec_becomes E r (This r) ((field E r)(k := v))" using ok by (simp add: rec_becomes_def)
    then show ?thesis using that [of "This r"] True d by (simp add: rec_set_def)
  next
    case False
    have "rec_becomes E r (store_map r (map_set E fresh (Str k) v (rec_map r))) ((field E r)(k := v))"
      using store_becomes [OF ok, of fresh k "Some v"] by (simp add: map_set_def fun_upd_def cong: if_cong)
    then show ?thesis using that False d by (auto simp: rec_set_def)
  qed
qed

lemma rec_remove_becomes:
  assumes ok: "rec_ok E r" and k: "rec_has k r"
  shows "rec_becomes E r (rec_remove E fresh k r) ((field E r)(k := the (default_of k r)))"
  using store_becomes [OF ok, of fresh k None] k by (simp add: rec_remove_def map_remove_def fun_upd_def cong: if_cong)

lemma rec_clear_becomes:
  assumes ok: "rec_ok E r"
  shows "rec_becomes E r (rec_clear r) (\<lambda>k. the (default_of k r))"
proof -
  have wf: "wf_map E (rec_map r)" using ok by (simp add: rec_ok_def)
  let ?r = "upd_default r (rec_clear r)"
  have t: "rec_type ?r = rec_type r" "rec_owner ?r = rec_owner r" by (simp_all add: rec_clear_def)
  have m: "wf_map E (rec_map ?r)" "map_owner (rec_map ?r) = rec_owner r" "map_get E x None (rec_map ?r) = None" for x
    using key.clear_spec [OF wf] ok by (auto simp: rec_clear_def rec_ok_def map_get_def)
  have ok': "rec_ok E ?r" using ok m(1,2) t by (simp add: rec_ok_def)
  have "field E ?r k = the (default_of k r)" if "rec_has k r" for k
    using field_eq [OF ok', of k] that t m(3) by (simp add: rec_has_def)
  then show ?thesis using ok' t by (auto simp: rec_becomes_def Let_def rec_clear_def)
qed

end

lemma rec_delivers: "delivers (rec_iterate E r) rv (directed rv (rec_entries E r))"
  using map_seq_delivers [OF ObjectSeq_delivers, of "\<lambda>_ k. field E r k" "rt_defaults (rec_type r)" rv]
  by (simp add: rec_iterate_def rec_entries_def directed_map split_def)

lemma object_pairs_yields: "yields (object_pairs obj r) 0 (directed r obj)"
  by (rule index_yields) (auto simp: object_pairs_def iteratorDone_def nth_directed)

lemma rec_yields: "yields (rec_next E r type rv) 0 (items type (directed rv (rec_entries E r)))"
  using map_seq_yields [OF object_pairs_yields, where f = "\<lambda>_ k. field E r k" and type = type]
  by (simp add: rec_next_def rec_entries_def directed_map split_def)

end
