(* ===== verification/Imm_RecordProps.thy ===== *)
theory Imm_RecordProps
  imports Imm_Record
begin

text \<open>
  The properties of \<open>Record\<close>. \<open>rec_becomes E r u f\<close> says that a call on \<open>r\<close> returns a well-formed record of
  the same type whose fields read as \<open>f\<close>, and does not edit an ownerless receiver.
\<close>

lemma Record_new_ok:
  assumes "js_objects H" "Record_new (js_env H) fresh t values = Inr r" "distinct (map fst (rt_defaults t))"
  shows "rec_ok (js_env H) r"
  using key_equality.Map_of_entries_spec(1,3) [OF js_objects.is_key [OF assms(1)], of fresh "map (\<lambda>(k, v). (Str k, v)) values"] assms(2,3)
  by (auto simp: Record_new_def rec_ok_def split: if_splits)

text \<open>
  C31. A record refines a total function on the fields of its type: \<open>set\<close> changes one field and throws on an
  unknown name, naming it and the record; \<open>remove\<close> and \<open>clear\<close> bring back the default values; iteration in both
  protocols goes through all fields in the order of the defaults with their present values, set or not.
\<close>

theorem record_refines_fields:
  assumes "js_objects H" "rec_ok (js_env H) r"
  shows "(case rec_set (js_env H) fresh k v r of
       Inl e \<Rightarrow> \<not> rec_has k r \<and> e = UnknownKey k (recordName r)
     | Inr u \<Rightarrow> rec_has k r \<and> rec_becomes (js_env H) r u ((field (js_env H) r)(k := v))) \<and>
    rec_becomes (js_env H) r (rec_remove (js_env H) fresh k r)
      (if rec_has k r then (field (js_env H) r)(k := the (map_of (rt_defaults (rec_type r)) k)) else field (js_env H) r) \<and>
    rec_becomes (js_env H) r (rec_clear r) (\<lambda>x. the (map_of (rt_defaults (rec_type r)) x)) \<and>
    delivers (rec_iterate (js_env H) r) rv (directed rv (rec_entries (js_env H) r)) \<and>
    yields (rec_next (js_env H) r type rv) 0 (items type (directed rv (rec_entries (js_env H) r)))"
proof (cases "rec_has k r")
  case True
  obtain u where "rec_set (js_env H) fresh k v r = Inr u" "rec_becomes (js_env H) r u ((field (js_env H) r)(k := v))"
    by (rule js_objects.rec_set_becomes [OF assms True])
  then show ?thesis
    using js_objects.rec_remove_becomes [OF assms True] js_objects.rec_clear_becomes [OF assms] True rec_delivers rec_yields by simp
next
  case False
  have "rec_becomes (js_env H) r (This r) (field (js_env H) r)" using assms(2) by (simp add: rec_becomes_def)
  then show ?thesis
    using js_objects.rec_clear_becomes [OF assms] False rec_delivers rec_yields by (simp add: rec_set_def rec_remove_def rec_has_def)
qed

definition demo_type :: rtype where
  "demo_type = \<lparr>rt_name = [], rt_defaults = [(js_str ''a'', Num (NumInt 1)), (js_str ''b'', Null)]\<rparr>"

definition demo_record :: rec_instance where
  "demo_record = \<lparr>rec_type = demo_type, rec_map = emptyMap, rec_owner = None\<rparr>"

theorem record_refines_fields_witness:
  "(\<exists>u. rec_set (js_env plain_objects) 5 (js_str ''a'') (Bool True) demo_record = Inr u \<and>
      field (js_env plain_objects) (upd_default demo_record u) (js_str ''a'') = Bool True) \<and>
   field (js_env plain_objects) (upd_default demo_record (rec_clear demo_record)) (js_str ''a'') = Num (NumInt 1)"
proof -
  have ok: "rec_ok (js_env plain_objects) demo_record"
    by (simp add: rec_ok_def demo_record_def demo_type_def js_str_def)
  have has: "rec_has (js_str ''a'') demo_record" "map_of (rt_defaults (rec_type demo_record)) (js_str ''a'') = Some (Num (NumInt 1))"
    by (simp_all add: rec_has_def demo_record_def demo_type_def)
  note p = record_refines_fields [OF plain.js_objects_axioms ok, where fresh = 5 and k = "js_str ''a''" and v = "Bool True"]
  have "rec_becomes (js_env plain_objects) demo_record (rec_clear demo_record) (\<lambda>x. the (map_of (rt_defaults (rec_type demo_record)) x))"
    using p by blast
  moreover obtain u where "rec_set (js_env plain_objects) 5 (js_str ''a'') (Bool True) demo_record = Inr u"
      "rec_becomes (js_env plain_objects) demo_record u ((field (js_env plain_objects) demo_record)(js_str ''a'' := Bool True))"
    using p [THEN conjunct1] has(1) by (cases "rec_set (js_env plain_objects) 5 (js_str ''a'') (Bool True) demo_record") simp_all
  ultimately show ?thesis using has by (simp add: rec_becomes_def Let_def)
qed

text \<open>A type with a field called \<open>size\<close> cannot be instantiated: its accessor is there before the constructor stores the size.\<close>

lemma record_size_field: "rt_defaults t = [(js_str ''size'', d)] \<Longrightarrow> Record_new E fresh t values = Inl ImmutableRecord"
  by (simp add: Record_new_def reserved_def)

end
