(* ===== verification/JS_Strings.thy ===== *)
theory JS_Strings
  imports JS_Hash
begin

text \<open>
  Strings of JavaScript and the functions on them that the Core API client uses: splitting and joining,
  \<open>encodeURI\<close>, \<open>encodeURIComponent\<close> and \<open>decodeURIComponent\<close>. A string is a list of 16-bit code units. The
  URI functions read UTF-16, write UTF-8 in percent triplets and back; \<open>None\<close> is a \<open>URIError\<close>.
  \<open>toLowerCase\<close> and \<open>toUpperCase\<close> are modelled on the letters of ASCII.
\<close>

section \<open>Characters\<close>

abbreviation cu :: "char \<Rightarrow> 16 word" where "cu c \<equiv> of_char c"

definition js_in :: "16 word \<Rightarrow> string \<Rightarrow> bool" where
  "js_in c s \<longleftrightarrow> c \<in> set (js_str s)"

definition is_upper :: "16 word \<Rightarrow> bool" where "is_upper c \<longleftrightarrow> 65 \<le> unat c \<and> unat c \<le> 90"
definition is_lower :: "16 word \<Rightarrow> bool" where "is_lower c \<longleftrightarrow> 97 \<le> unat c \<and> unat c \<le> 122"
definition is_digit :: "16 word \<Rightarrow> bool" where "is_digit c \<longleftrightarrow> 48 \<le> unat c \<and> unat c \<le> 57"

definition is_alnum :: "16 word \<Rightarrow> bool" where "is_alnum c \<longleftrightarrow> is_upper c \<or> is_lower c \<or> is_digit c"

definition lower_char :: "16 word \<Rightarrow> 16 word" where "lower_char c = (if is_upper c then c + 32 else c)"
definition upper_char :: "16 word \<Rightarrow> 16 word" where "upper_char c = (if is_lower c then c - 32 else c)"

definition toLowerCase :: "jsstring \<Rightarrow> jsstring" where "toLowerCase = map lower_char"
definition toUpperCase :: "jsstring \<Rightarrow> jsstring" where "toUpperCase = map upper_char"

lemma unat_of_char: "unat (cu c) = of_char c"
proof -
  have "unat (of_nat (of_char c) :: 16 word) = of_char c"
    using nat_of_char_less_256 [of c] by (simp add: unat_of_nat take_bit_nat_eq_self_iff del: nat_of_char_less_256)
  then show ?thesis by (simp only: of_nat_of_char)
qed

lemma js_str_inject [simp]: "js_str s = js_str t \<longleftrightarrow> s = t"
proof -
  have "inj (of_char :: char \<Rightarrow> 16 word)" by (rule injI) (metis of_char_eq_iff unat_of_char)
  then show ?thesis by (simp add: js_str_def inj_map_eq_map)
qed

section \<open>Splitting and joining\<close>

fun split_on :: "16 word \<Rightarrow> jsstring \<Rightarrow> jsstring list" where
  \<comment> \<open>\<open>s.split(c)\<close> for a separator of one code unit\<close>
  "split_on d [] = [[]]"
| "split_on d (c # s) = (if c = d then [] # split_on d s else (case split_on d s of p # ps \<Rightarrow> (c # p) # ps | [] \<Rightarrow> [[c]]))"

fun join_with :: "jsstring \<Rightarrow> jsstring list \<Rightarrow> jsstring" where
  \<comment> \<open>\<open>ps.join(sep)\<close>\<close>
  "join_with sep [] = []"
| "join_with sep [p] = p"
| "join_with sep (p # q # ps) = p @ sep @ join_with sep (q # ps)"

lemma split_on_not_Nil [simp]: "split_on d s \<noteq> []"
  by (induction s) (auto split: list.splits)

lemma join_with_Cons: "ps \<noteq> [] \<Longrightarrow> join_with sep (p # ps) = p @ sep @ join_with sep ps"
  by (cases ps) auto

lemma join_split [simp]: "join_with [d] (split_on d s) = s"
proof (induction s)
  case (Cons c s)
  then show ?case by (cases "split_on d s"; cases "tl (split_on d s)") (auto simp: join_with_Cons)
qed simp

lemma split_on_append: "d \<notin> set p \<Longrightarrow> split_on d (p @ d # s) = p # split_on d s"
  by (induction p) auto

lemma split_on_none: "d \<notin> set p \<Longrightarrow> split_on d p = [p]"
  by (induction p) auto

lemma split_join: "\<forall>p \<in> set ps. d \<notin> set p \<Longrightarrow> ps \<noteq> [] \<Longrightarrow> split_on d (join_with [d] ps) = ps"
proof (induction ps)
  case (Cons p ps)
  then show ?case by (cases "ps = []") (auto simp: join_with_Cons split_on_append split_on_none)
qed simp

lemma split_on_free: "p \<in> set (split_on d s) \<Longrightarrow> d \<notin> set p"
  by (induction s arbitrary: p) (auto split: if_splits list.splits)

section \<open>UTF-8\<close>

definition utf8 :: "nat \<Rightarrow> nat list" where
  "utf8 n =
     (if n < 128 then [n]
      else if n < 2048 then [192 + n div 64, 128 + n mod 64]
      else if n < 65536 then [224 + n div 4096, 128 + n div 64 mod 64, 128 + n mod 64]
      else [240 + n div 262144, 128 + n div 4096 mod 64, 128 + n div 64 mod 64, 128 + n mod 64])"

definition is_high :: "16 word \<Rightarrow> bool" where "is_high c \<longleftrightarrow> 55296 \<le> unat c \<and> unat c \<le> 56319"
definition is_low :: "16 word \<Rightarrow> bool" where "is_low c \<longleftrightarrow> 56320 \<le> unat c \<and> unat c \<le> 57343"

definition pair_value :: "16 word \<Rightarrow> 16 word \<Rightarrow> nat" where
  "pair_value h l = (unat h - 55296) * 1024 + (unat l - 56320) + 65536"

definition utf16 :: "nat \<Rightarrow> jsstring" where
  "utf16 n = (if n < 65536 then [of_nat n] else [of_nat (55296 + (n - 65536) div 1024), of_nat (56320 + (n - 65536) mod 1024)])"

section \<open>Percent triplets\<close>

definition hex_digit :: "nat \<Rightarrow> 16 word" where
  "hex_digit n = (if n < 10 then of_nat (48 + n) else of_nat (55 + n))"

definition hex_value :: "16 word \<Rightarrow> nat option" where
  "hex_value c =
     (let n = unat c
      in if is_digit c then Some (n - 48)
         else if 65 \<le> n \<and> n \<le> 70 then Some (n - 55) else if 97 \<le> n \<and> n \<le> 102 then Some (n - 87) else None)"

definition percent :: "nat \<Rightarrow> jsstring" where
  "percent b = [37, hex_digit (b div 16), hex_digit (b mod 16)]"

definition octets :: "nat \<Rightarrow> jsstring" where
  "octets n = concat (map percent (utf8 n))"

definition uri_mark :: "16 word \<Rightarrow> bool" where
  "uri_mark c \<longleftrightarrow> js_in c ''-_.!~*()'' \<or> c = 39"

definition uri_reserved :: "16 word \<Rightarrow> bool" where
  "uri_reserved c \<longleftrightarrow> js_in c '';/?:@&=+$,#''"

fun encode_uri :: "(16 word \<Rightarrow> bool) \<Rightarrow> jsstring \<Rightarrow> jsstring option" where
  "encode_uri keep [] = Some []"
| "encode_uri keep (c # s) =
     (if keep c then map_option ((#) c) (encode_uri keep s)
      else if is_low c then None
      else if is_high c
      then (case s of
              [] \<Rightarrow> None
            | d # t \<Rightarrow> if is_low d then map_option ((@) (octets (pair_value c d))) (encode_uri keep t) else None)
      else map_option ((@) (octets (unat c))) (encode_uri keep s))"

definition uri_unescaped :: "16 word \<Rightarrow> bool" where
  "uri_unescaped c \<longleftrightarrow> is_alnum c \<or> uri_mark c"

definition encodeURIComponent :: "jsstring \<Rightarrow> jsstring option" where
  "encodeURIComponent = encode_uri uri_unescaped"

definition encodeURI :: "jsstring \<Rightarrow> jsstring option" where
  "encodeURI = encode_uri (\<lambda>c. uri_unescaped c \<or> uri_reserved c)"

fun octet :: "jsstring \<Rightarrow> (nat \<times> jsstring) option" where
  \<comment> \<open>one percent triplet\<close>
  "octet (p # h # l # s) =
     (if p = 37 then (case (hex_value h, hex_value l) of (Some a, Some b) \<Rightarrow> Some (16 * a + b, s) | _ \<Rightarrow> None) else None)"
| "octet _ = None"

fun continuation :: "nat \<Rightarrow> nat \<Rightarrow> jsstring \<Rightarrow> (nat \<times> jsstring) option" where
  \<comment> \<open>\<open>m\<close> more octets of a sequence that has the value \<open>v\<close> so far\<close>
  "continuation 0 v s = Some (v, s)"
| "continuation (Suc m) v s =
     (case octet s of None \<Rightarrow> None | Some (b, s') \<Rightarrow> if b div 64 = 2 then continuation m (64 * v + b mod 64) s' else None)"

definition code_point :: "jsstring \<Rightarrow> (nat \<times> jsstring) option" where
  \<comment> \<open>one encoded code point; overlong forms, surrogates and values over \<open>10FFFF\<close> are refused\<close>
  "code_point s =
     (case octet s of
        None \<Rightarrow> None
      | Some (b, s') \<Rightarrow>
          if b < 128 then Some (b, s')
          else if b div 32 = 6 then (case continuation 1 (b mod 32) s' of None \<Rightarrow> None | Some (v, t) \<Rightarrow> if 128 \<le> v then Some (v, t) else None)
          else if b div 16 = 14 then (case continuation 2 (b mod 16) s' of None \<Rightarrow> None
                | Some (v, t) \<Rightarrow> if 2048 \<le> v \<and> \<not> (55296 \<le> v \<and> v \<le> 57343) then Some (v, t) else None)
          else if b div 8 = 30 then (case continuation 3 (b mod 8) s' of None \<Rightarrow> None
                | Some (v, t) \<Rightarrow> if 65536 \<le> v \<and> v \<le> 1114111 then Some (v, t) else None)
          else None)"

lemma octet_shorter: "octet s = Some (b, t) \<Longrightarrow> length t < length s"
  by (cases s rule: octet.cases) (auto split: if_splits option.splits)

lemma continuation_shorter: "continuation m v s = Some (w, t) \<Longrightarrow> length t \<le> length s"
proof (induction m v s rule: continuation.induct)
  case (2 m v s)
  then show ?case by (fastforce split: option.splits if_splits dest: octet_shorter)
qed simp

lemma code_point_shorter: "code_point s = Some (v, t) \<Longrightarrow> length t < length s"
  unfolding code_point_def
  by (auto split: option.splits if_splits simp del: continuation.simps dest!: octet_shorter continuation_shorter)

function decodeURIComponent :: "jsstring \<Rightarrow> jsstring option" where
  "decodeURIComponent [] = Some []"
| "decodeURIComponent (c # s) =
     (if c = 37 then (case code_point (c # s) of None \<Rightarrow> None | Some (v, t) \<Rightarrow> map_option ((@) (utf16 v)) (decodeURIComponent t))
      else map_option ((#) c) (decodeURIComponent s))"
  by pat_completeness auto
termination by (relation "measure length") (auto dest: code_point_shorter)

declare decodeURIComponent.simps(2) [simp del]

section \<open>Decoding inverts encoding\<close>

lemma unat_code_unit [simp]: "n < 65536 \<Longrightarrow> unat (of_nat n :: 16 word) = n"
  by (simp add: unat_of_nat)

lemma hex_value_digit [simp]: "n < 16 \<Longrightarrow> hex_value (hex_digit n) = Some n"
  by (auto simp: hex_value_def hex_digit_def is_digit_def Let_def simp del: of_nat_add of_nat_numeral)

lemma octet_percent [simp]: "b < 256 \<Longrightarrow> octet (percent b @ s) = Some (b, s)"
  by (simp add: percent_def)

lemma div_mod_lead: "m < k \<Longrightarrow> (k * a + m) div k = a \<and> (k * a + m) mod k = m" for m k a :: nat
  by simp

lemma utf8_bits:
  fixes m :: nat
  shows "m < 64 \<Longrightarrow> (128 + m) div 64 = 2" "m < 64 \<Longrightarrow> (128 + m) mod 64 = m"
    "m < 32 \<Longrightarrow> (192 + m) div 32 = 6" "m < 32 \<Longrightarrow> (192 + m) mod 32 = m"
    "m < 16 \<Longrightarrow> (224 + m) div 32 = 7" "m < 16 \<Longrightarrow> (224 + m) div 16 = 14" "m < 16 \<Longrightarrow> (224 + m) mod 16 = m"
    "m < 8 \<Longrightarrow> (240 + m) div 32 = 7" "m < 8 \<Longrightarrow> (240 + m) div 16 = 15" "m < 8 \<Longrightarrow> (240 + m) div 8 = 30"
    "m < 8 \<Longrightarrow> (240 + m) mod 8 = m"
  using div_mod_lead [of m 64 2] div_mod_lead [of m 32 6] div_mod_lead [of m 32 7] div_mod_lead [of m 16 14]
    div_mod_lead [of m 16 15] div_mod_lead [of m 8 30]
  by simp_all

lemma utf8_sum:
  fixes n :: nat
  shows "64 * (n div 64) + n mod 64 = n" "64 * (n div 4096) + n div 64 mod 64 = n div 64"
    "64 * (n div 262144) + n div 4096 mod 64 = n div 4096"
  using mult_div_mod_eq [of 64 n] mult_div_mod_eq [of 64 "n div 64"] mult_div_mod_eq [of 64 "n div 4096"]
  by (simp_all add: div_mult2_eq [symmetric])

lemma continuation_percent:
  "m < 64 \<Longrightarrow> continuation (Suc k) v (percent (128 + m) @ s) = continuation k (64 * v + m) s"
  by (simp add: utf8_bits)

lemma code_point_lead:
  "m < 32 \<Longrightarrow> code_point (percent (192 + m) @ s) =
     (case continuation 1 m s of None \<Rightarrow> None | Some (v, t) \<Rightarrow> if 128 \<le> v then Some (v, t) else None)"
  "m < 16 \<Longrightarrow> code_point (percent (224 + m) @ s) =
     (case continuation 2 m s of None \<Rightarrow> None
      | Some (v, t) \<Rightarrow> if 2048 \<le> v \<and> \<not> (55296 \<le> v \<and> v \<le> 57343) then Some (v, t) else None)"
  "m < 8 \<Longrightarrow> code_point (percent (240 + m) @ s) =
     (case continuation 3 m s of None \<Rightarrow> None | Some (v, t) \<Rightarrow> if 65536 \<le> v \<and> v \<le> 1114111 then Some (v, t) else None)"
  by (simp_all only: code_point_def octet_percent utf8_bits option.case prod.case) simp_all

lemma code_point_octets:
  assumes "n \<le> 1114111" "n < 55296 \<or> 57343 < n"
  shows "code_point (octets n @ s) = Some (n, s)"
proof -
  have c: "continuation 1 v (percent (128 + a mod 64) @ t) = Some (64 * v + a mod 64, t)"
    "continuation 2 v (percent (128 + a mod 64) @ percent (128 + b mod 64) @ t) = Some (64 * (64 * v + a mod 64) + b mod 64, t)"
    "continuation 3 v (percent (128 + a mod 64) @ percent (128 + b mod 64) @ percent (128 + d mod 64) @ t) =
       Some (64 * (64 * (64 * v + a mod 64) + b mod 64) + d mod 64, t)" for v a b d t
    unfolding numeral_2_eq_2 numeral_3_eq_3 One_nat_def
    by (simp_all only: continuation_percent mod_less_divisor zero_less_numeral continuation.simps(1))
  consider "n < 128" | "128 \<le> n" "n < 2048" | "2048 \<le> n" "n < 65536" | "65536 \<le> n" by linarith
  then show ?thesis
  proof cases
    case 1 then show ?thesis by (simp add: octets_def utf8_def code_point_def)
  next
    case 2
    then have "n div 64 < 32" by (simp add: less_mult_imp_div_less)
    moreover have "octets n = percent (192 + n div 64) @ percent (128 + n mod 64)" using 2 by (simp add: octets_def utf8_def)
    ultimately show ?thesis using 2 by (simp only: append_assoc code_point_lead c utf8_sum) simp
  next
    case 3
    then have "n div 4096 < 16" by (simp add: less_mult_imp_div_less)
    moreover have "octets n = percent (224 + n div 4096) @ percent (128 + n div 64 mod 64) @ percent (128 + n mod 64)"
      using 3 by (simp add: octets_def utf8_def)
    ultimately show ?thesis using 3 assms(2) by (simp only: append_assoc code_point_lead c utf8_sum) auto
  next
    case 4
    then have "n div 262144 < 8" using assms(1) by (simp add: less_mult_imp_div_less)
    moreover have "octets n =
        percent (240 + n div 262144) @ percent (128 + n div 4096 mod 64) @ percent (128 + n div 64 mod 64) @ percent (128 + n mod 64)"
      using 4 by (simp add: octets_def utf8_def)
    ultimately show ?thesis using 4 assms by (simp only: append_assoc code_point_lead c utf8_sum) simp
  qed
qed

lemma decode_octets:
  assumes "n \<le> 1114111" "n < 55296 \<or> 57343 < n"
  shows "decodeURIComponent (octets n @ s) = map_option ((@) (utf16 n)) (decodeURIComponent s)"
proof -
  have "\<exists>t. octets n @ s = 37 # t" by (simp add: octets_def utf8_def percent_def)
  then obtain t where "octets n @ s = 37 # t" by blast
  then show ?thesis using code_point_octets [OF assms, of s] by (simp add: decodeURIComponent.simps(2))
qed

lemma pair_value_range: "is_high h \<Longrightarrow> is_low l \<Longrightarrow> pair_value h l \<le> 1114111 \<and> 57343 < pair_value h l"
  unfolding is_high_def is_low_def pair_value_def by linarith

lemma utf16_pair:
  assumes "is_high h" "is_low l" shows "utf16 (pair_value h l) = [h, l]"
proof -
  have l: "unat l - 56320 < 1024" using assms(2) unfolding is_low_def by linarith
  have "pair_value h l - 65536 = (unat h - 55296) * 1024 + (unat l - 56320)" by (simp add: pair_value_def)
  then have "(pair_value h l - 65536) div 1024 = unat h - 55296" "(pair_value h l - 65536) mod 1024 = unat l - 56320"
    using l by simp_all
  moreover have "\<not> pair_value h l < 65536" by (simp add: pair_value_def)
  moreover have "55296 + (unat h - 55296) = unat h" "56320 + (unat l - 56320) = unat l"
    using assms unfolding is_high_def is_low_def by linarith+
  ultimately show ?thesis by (simp only: utf16_def if_False) simp
qed

lemma decode_kept: "c \<noteq> 37 \<Longrightarrow> decodeURIComponent (c # s) = map_option ((#) c) (decodeURIComponent s)"
  by (simp add: decodeURIComponent.simps(2))

lemma utf16_single: "utf16 (unat c) = [c]" for c :: "16 word"
  using unsigned_less [of c] by (simp add: utf16_def)

lemma decode_encode:
  assumes "encode_uri keep s = Some e" "\<not> keep 37"
  shows "decodeURIComponent (e @ t) = map_option ((@) s) (decodeURIComponent t)"
  using assms
proof (induction keep s arbitrary: e rule: encode_uri.induct)
  case (1 keep)
  then show ?case by (simp add: option.map_ident)
next
  case (2 keep c s)
  have u: "unat c < 65536" using unsigned_less [of c] by simp
  consider "keep c" | "\<not> keep c" "\<not> is_low c" "is_high c" | "\<not> keep c" "\<not> is_low c" "\<not> is_high c"
    using 2 by (auto split: if_splits)
  then show ?case
  proof cases
    case 1
    then obtain e' where "encode_uri keep s = Some e'" "e = c # e'" using 2(4) by auto
    moreover have "c \<noteq> 37" using 1 2(5) by auto
    ultimately show ?thesis using 2 1 by (auto simp: decode_kept option.map_comp o_def)
  next
    case c: 2
    obtain d s' e' where s: "s = d # s'" "is_low d" "encode_uri keep s' = Some e'" "e = octets (pair_value c d) @ e'"
      using 2(4) c by (auto split: list.splits if_splits)
    then show ?thesis using 2 c pair_value_range [OF c(3) s(2)]
      by (simp add: decode_octets utf16_pair option.map_comp o_def)
  next
    case c: 3
    then obtain e' where s: "encode_uri keep s = Some e'" "e = octets (unat c) @ e'" using 2(4) by auto
    then have "decodeURIComponent (e @ t) = map_option ((@) (utf16 (unat c))) (decodeURIComponent (e' @ t))"
      using c u decode_octets [of "unat c" "e' @ t"] unfolding is_high_def is_low_def by auto
    then show ?thesis using 2 c s by (simp add: utf16_single option.map_comp o_def)
  qed
qed

lemma decode_encode_all: "encode_uri keep s = Some e \<Longrightarrow> \<not> keep 37 \<Longrightarrow> decodeURIComponent e = Some s"
  using decode_encode [of keep s e "[]"] by simp

section \<open>What an encoding consists of\<close>

lemma hex_digit_alnum [simp]: "n < 16 \<Longrightarrow> is_alnum (hex_digit n)"
  by (auto simp: hex_digit_def is_alnum_def is_digit_def is_upper_def simp del: of_nat_add of_nat_numeral)

lemma utf8_bytes: "n \<le> 1114111 \<Longrightarrow> b \<in> set (utf8 n) \<Longrightarrow> b < 256"
proof -
  assume n: "n \<le> 1114111" "b \<in> set (utf8 n)"
  have "n div 262144 < 16" using n(1) by (simp add: less_mult_imp_div_less)
  moreover have "n div 4096 < 16" if "n < 65536" using that by (simp add: less_mult_imp_div_less)
  moreover have "n div 64 < 32" if "n < 2048" using that by (simp add: less_mult_imp_div_less)
  moreover have "m mod 64 < 64" for m :: nat by simp
  ultimately show ?thesis using n by (fastforce simp: utf8_def split: if_splits)
qed

lemma octets_chars: "n \<le> 1114111 \<Longrightarrow> c \<in> set (octets n) \<Longrightarrow> c = 37 \<or> is_alnum c"
proof -
  assume n: "n \<le> 1114111" "c \<in> set (octets n)"
  then obtain b where b: "b \<in> set (utf8 n)" "c \<in> set (percent b)" by (auto simp: octets_def)
  then have "b div 16 < 16" using utf8_bytes [OF n(1) b(1)] by (simp add: less_mult_imp_div_less)
  then show ?thesis using b(2) by (auto simp: percent_def)
qed

lemma encode_chars:
  "encode_uri keep s = Some e \<Longrightarrow> c \<in> set e \<Longrightarrow> c \<in> set s \<and> keep c \<or> c = 37 \<or> is_alnum c"
proof (induction keep s arbitrary: e rule: encode_uri.induct)
  case (2 keep d s)
  have u: "unat d < 65536" using unsigned_less [of d] by simp
  consider "keep d" | "\<not> keep d" "is_high d" "\<not> is_low d" | "\<not> keep d" "\<not> is_high d" "\<not> is_low d"
    using 2 by (auto split: if_splits)
  then show ?case
  proof cases
    case 2: 2
    then obtain l s' e' where s: "s = l # s'" "is_low l" "encode_uri keep s' = Some e'" "e = octets (pair_value d l) @ e'"
      using "2.prems" by (auto split: list.splits if_splits)
    then show ?thesis using 2 "2.prems" "2.IH" pair_value_range [OF 2(2) s(2)] octets_chars by fastforce
  qed (use 2 u octets_chars [of "unat d" c] in auto)
qed simp

lemmas string_eval =
  js_str_def js_in_def is_upper_def is_lower_def is_digit_def is_alnum_def is_high_def is_low_def lower_char_def upper_char_def
  toLowerCase_def toUpperCase_def uri_unescaped_def uri_mark_def uri_reserved_def octets_def utf8_def percent_def
  hex_digit_def pair_value_def encodeURIComponent_def encodeURI_def
  \<comment> \<open>evaluate strings\<close>

end
