(* ===== verification/Api_Values.thy ===== *)
theory Api_Values
  imports JS_Strings JS_Index
begin

text \<open>
  The values that the Core API client (\<open>static/rest_framework/js/coreapi-0.1.1.js\<close>) computes with: what
  \<open>JSON.parse\<close> returns, with \<open>undefined\<close>. A number is given by the string that it prints as, the
  only thing the client asks of it. An object is the list of its own enumerable properties in the order of
  \<open>for ... in\<close>: array indices first, ascending, then the other names as they were added. Errors are values.
\<close>

datatype js_error = URIError | TypeError | ParameterError jsstring | LinkLookupError | GeneralError jsstring

datatype jvalue =
  JUndef
| JNull
| JBool bool
| JNum jsstring
| JStr jsstring
| JArr "jvalue list"
| JObj "(jsstring \<times> jvalue) list"

type_synonym 'v props = "(jsstring \<times> 'v) list"

section \<open>Errors\<close>

fun and_then :: "'e + 'a \<Rightarrow> ('a \<Rightarrow> 'e + 'b) \<Rightarrow> 'e + 'b" where
  "and_then (Inl e) f = Inl e"
| "and_then (Inr x) f = f x"

fun map_ok :: "('a \<Rightarrow> 'e + 'b) \<Rightarrow> 'a list \<Rightarrow> 'e + 'b list" where
  \<comment> \<open>a loop that pushes the result of each round, and ends with the first exception\<close>
  "map_ok f [] = Inr []"
| "map_ok f (x # xs) = and_then (f x) (\<lambda>y. and_then (map_ok f xs) (\<lambda>ys. Inr (y # ys)))"

fun or_error :: "'e \<Rightarrow> 'a option \<Rightarrow> 'e + 'a" where
  "or_error e None = Inl e"
| "or_error e (Some x) = Inr x"

lemma and_then_Inr: "and_then r f = Inr y \<longleftrightarrow> (\<exists>x. r = Inr x \<and> f x = Inr y)"
  by (cases r) auto

lemma or_error_Inr [simp]: "or_error e r = Inr x \<longleftrightarrow> r = Some x"
  by (cases r) auto

lemma map_ok_Inr: "map_ok f xs = Inr ys \<longleftrightarrow> list_all2 (\<lambda>x y. f x = Inr y) xs ys"
proof (induction xs arbitrary: ys)
  case (Cons x xs)
  then show ?case by (cases ys) (auto simp: and_then_Inr)
qed auto

lemma map_ok_cong [fundef_cong]: "xs = ys \<Longrightarrow> (\<And>x. x \<in> set ys \<Longrightarrow> f x = g x) \<Longrightarrow> map_ok f xs = map_ok g ys"
proof (induction ys arbitrary: xs)
  case (Cons y ys)
  then show ?case by simp
qed simp

lemma and_then_cong [fundef_cong]: "r = r' \<Longrightarrow> (\<And>x. r' = Inr x \<Longrightarrow> f x = g x) \<Longrightarrow> and_then r f = and_then r' g"
  by (cases r') auto

lemma and_then_weak_cong: "r = r' \<Longrightarrow> and_then r f = and_then r' f"
  by simp

lemmas eval_congs =
  and_then_weak_cong prod.case_cong_weak let_weak_cong option.case_cong_weak jvalue.case_cong_weak list.case_cong_weak
  \<comment> \<open>evaluate the argument first\<close>

section \<open>Properties\<close>

definition index_key :: "jsstring \<Rightarrow> nat option" where
  "index_key k = (if \<forall>c \<in> set k. is_digit c then array_index (map (\<lambda>c. char_of (unat c)) k) else None)"

definition key_before :: "jsstring \<Rightarrow> jsstring \<Rightarrow> bool" where
  \<comment> \<open>a property \<open>j\<close> that exists already is enumerated before a new property \<open>k\<close>\<close>
  "key_before j k = (case index_key k of None \<Rightarrow> True | Some n \<Rightarrow> (case index_key j of None \<Rightarrow> False | Some m \<Rightarrow> m < n))"

definition obj_put :: "jsstring \<Rightarrow> 'v \<Rightarrow> 'v props \<Rightarrow> 'v props" where
  \<comment> \<open>\<open>o[k] = v\<close>\<close>
  "obj_put k v ps =
     (if k \<in> fst ` set ps then map (\<lambda>(j, w). (j, if j = k then v else w)) ps
      else takeWhile (\<lambda>(j, w). key_before j k) ps @ (k, v) # dropWhile (\<lambda>(j, w). key_before j k) ps)"

definition ordered_props :: "'v props \<Rightarrow> bool" where
  \<comment> \<open>the properties of some object\<close>
  "ordered_props ps \<longleftrightarrow> distinct (map fst ps) \<and> sorted_wrt key_before (map fst ps)"

definition object_names :: "string list" where
  \<comment> \<open>what every object inherits from \<open>Object.prototype\<close>\<close>
  "object_names =
     [''constructor'', ''__proto__'', ''__defineGetter__'', ''__defineSetter__'', ''__lookupGetter__'', ''__lookupSetter__'',
      ''hasOwnProperty'', ''isPrototypeOf'', ''propertyIsEnumerable'', ''toLocaleString'', ''toString'', ''valueOf'']"

definition inherited :: "jsstring \<Rightarrow> bool" where
  "inherited k \<longleftrightarrow> k \<in> set (map js_str object_names)"

lemma obj_put_new:
  assumes "ordered_props (ps @ [(k, v)])" shows "obj_put k v ps = ps @ [(k, v)]"
proof -
  have "takeWhile (\<lambda>(j, w). key_before j k) ps = ps" "dropWhile (\<lambda>(j, w). key_before j k) ps = []"
    using assms by (auto simp: ordered_props_def sorted_wrt_append takeWhile_eq_all_conv dropWhile_eq_Nil_conv)
  then show ?thesis using assms by (auto simp: obj_put_def ordered_props_def)
qed

lemma map_of_replace:
  "map_of (map (\<lambda>(j, w). (j, if j = k then v else w)) ps) x =
     (if x = k \<and> k \<in> fst ` set ps then Some v else map_of ps x)"
proof (induction ps)
  case (Cons p ps)
  then show ?case by (cases p; cases "x = k"; cases "k = fst p") simp_all
qed simp

lemma map_of_insert: "k \<notin> fst ` set as \<Longrightarrow> map_of (as @ (k, v) # bs) x = (if x = k then Some v else map_of (as @ bs) x)"
  by (induction as) auto

lemma map_of_obj_put: "map_of (obj_put k v ps) x = (if x = k then Some v else map_of ps x)"
proof (cases "k \<in> fst ` set ps")
  case False
  let ?b = "\<lambda>(j, w). key_before j k"
  have "k \<notin> fst ` set (takeWhile ?b ps)" using False by (auto dest: set_takeWhileD)
  then show ?thesis using False map_of_insert [of k "takeWhile ?b ps" v "dropWhile ?b ps" x] by (simp add: obj_put_def)
qed (simp add: obj_put_def map_of_replace)

section \<open>Conversion to strings\<close>

fun truthy :: "jvalue \<Rightarrow> bool" where
  "truthy JUndef = False"
| "truthy JNull = False"
| "truthy (JBool b) = b"
| "truthy (JNum n) = (n \<noteq> js_str ''0'' \<and> n \<noteq> js_str ''NaN'')"
| "truthy (JStr s) = (s \<noteq> [])"
| "truthy _ = True"

fun to_string :: "jvalue \<Rightarrow> js_error + jsstring" where
  \<comment> \<open>\<open>String(v)\<close>; an own property \<open>toString\<close> that is no function is in the way\<close>
  "to_string JUndef = Inr (js_str ''undefined'')"
| "to_string JNull = Inr (js_str ''null'')"
| "to_string (JBool b) = Inr (js_str (if b then ''true'' else ''false''))"
| "to_string (JNum n) = Inr n"
| "to_string (JStr s) = Inr s"
| "to_string (JArr vs) =
     and_then (map_ok (\<lambda>v. if v = JUndef \<or> v = JNull then Inr [] else to_string v) vs) (\<lambda>ss. Inr (join_with (js_str '','') ss))"
| "to_string (JObj ps) =
     (if js_str ''toString'' \<in> fst ` set ps then Inl TypeError else Inr (js_str ''[object Object]''))"

fun get_prop :: "jvalue \<Rightarrow> jsstring \<Rightarrow> js_error + jvalue" where
  \<comment> \<open>\<open>v[k]\<close>, for names that are not inherited by \<open>v\<close>\<close>
  "get_prop JUndef k = Inl TypeError"
| "get_prop JNull k = Inl TypeError"
| "get_prop (JObj ps) k = Inr (case map_of ps k of None \<Rightarrow> JUndef | Some v \<Rightarrow> v)"
| "get_prop (JArr vs) k = Inr (case index_key k of None \<Rightarrow> JUndef | Some i \<Rightarrow> (case nth_opt vs i of None \<Rightarrow> JUndef | Some v \<Rightarrow> v))"
| "get_prop (JStr s) k = Inr (case index_key k of None \<Rightarrow> JUndef | Some i \<Rightarrow> (case nth_opt s i of None \<Rightarrow> JUndef | Some c \<Rightarrow> JStr [c]))"
| "get_prop _ k = Inr JUndef"

end
