(* ===== verification/Api_Query.thy ===== *)
theory Api_Query
  imports Api_Values
begin

text \<open>
  The query strings of the Core API client: the module \<open>querystringify\<close> of
  \<open>static/rest_framework/js/coreapi-0.1.1.js\<close>. \<open>stringify\<close> prints an object, \<open>parse\<close> reads one back.
\<close>

section \<open>Printing\<close>

definition query_pair :: "jsstring \<times> jvalue \<Rightarrow> js_error + jsstring" where
  "query_pair = (\<lambda>(key, value).
     and_then (or_error URIError (encodeURIComponent key)) (\<lambda>k.
     and_then (to_string value) (\<lambda>s.
     and_then (or_error URIError (encodeURIComponent s)) (\<lambda>v. Inr (k @ 61 # v)))))"

definition querystringify :: "jvalue props \<Rightarrow> jvalue \<Rightarrow> js_error + jsstring" where
  "querystringify obj prefix =
     (let prefix = (if truthy prefix then prefix else JStr []);
          prefix = (case prefix of JStr s \<Rightarrow> s | _ \<Rightarrow> js_str ''?'')
      in and_then (map_ok query_pair obj) (\<lambda>pairs. Inr (if pairs = [] then [] else prefix @ join_with (js_str ''&'') pairs)))"

section \<open>Parsing\<close>

definition name_char :: "16 word \<Rightarrow> bool" where
  "name_char c \<longleftrightarrow> c \<noteq> 61 \<and> c \<noteq> 63 \<and> c \<noteq> 38"

function query_parts :: "jsstring \<Rightarrow> (jsstring \<times> jsstring) list" where
  \<comment> \<open>the matches of \<open>/([^=?&]+)=?([^&]*)/g\<close>\<close>
  "query_parts s =
     (let s = dropWhile (\<lambda>c. \<not> name_char c) s
      in if s = [] then []
         else let rest = dropWhile name_char s;
                  rest = (case rest of [] \<Rightarrow> [] | c # t \<Rightarrow> if c = 61 then t else rest)
              in (takeWhile name_char s, takeWhile (\<lambda>c. c \<noteq> 38) rest) # query_parts (dropWhile (\<lambda>c. c \<noteq> 38) rest))"
  by pat_completeness auto
termination
proof (relation "measure length")
  fix s t u v :: jsstring
  assume t: "t = dropWhile (\<lambda>c. \<not> name_char c) s" "t \<noteq> []" and u: "u = dropWhile name_char t"
    and v: "v = (case u of [] \<Rightarrow> [] | c # r \<Rightarrow> if c = 61 then r else u)"
  have "name_char (hd t)" using t hd_dropWhile by metis
  then have "length u < length t" using t(2) u by (cases t) (auto intro: le_imp_less_Suc length_dropWhile_le)
  moreover have "length v \<le> length u" using v by (cases u) auto
  ultimately show "(dropWhile (\<lambda>c. c \<noteq> 38) v, s) \<in> measure length"
    using t(1) length_dropWhile_le [of "\<lambda>c. c \<noteq> 38" v] length_dropWhile_le [of "\<lambda>c. \<not> name_char c" s] by simp
qed simp

declare query_parts.simps [simp del]

definition assign_string :: "jsstring \<Rightarrow> jsstring \<Rightarrow> jvalue props \<Rightarrow> jvalue props" where
  \<comment> \<open>\<open>__proto__\<close> cannot be set to a string\<close>
  "assign_string k v ps = (if k = js_str ''__proto__'' then ps else obj_put k (JStr v) ps)"

fun assign_parts :: "(jsstring \<times> jsstring) list \<Rightarrow> jvalue props \<Rightarrow> js_error + jvalue props" where
  "assign_parts [] result = Inr result"
| "assign_parts ((k, v) # parts) result =
     and_then (or_error URIError (decodeURIComponent k)) (\<lambda>k.
     and_then (or_error URIError (decodeURIComponent v)) (\<lambda>v. assign_parts parts (assign_string k v result)))"

definition querystring :: "jsstring \<Rightarrow> js_error + jvalue props" where
  "querystring query = assign_parts (query_parts query) []"

section \<open>Parsing inverts printing\<close>

lemma encoded_name_char:
  "encodeURIComponent s = Some e \<Longrightarrow> c \<in> set e \<Longrightarrow> name_char c"
proof -
  assume "encodeURIComponent s = Some e" "c \<in> set e"
  then have "uri_unescaped c \<or> c = 37 \<or> is_alnum c" by (auto simp: encodeURIComponent_def dest: encode_chars)
  then show ?thesis
    by (auto simp: name_char_def uri_unescaped_def uri_mark_def js_in_def js_str_def is_alnum_def is_upper_def is_lower_def is_digit_def)
qed

lemma encoded_not_Nil: "encodeURIComponent s = Some e \<Longrightarrow> s \<noteq> [] \<Longrightarrow> e \<noteq> []"
  by (cases s) (auto simp: encodeURIComponent_def octets_def utf8_def percent_def split: if_splits list.splits)

lemma percent_escaped [simp]: "\<not> uri_unescaped 37"
  by (simp add: uri_unescaped_def uri_mark_def is_alnum_def is_upper_def is_lower_def is_digit_def js_in_def js_str_def)

lemma decode_encoded: "encodeURIComponent s = Some e \<Longrightarrow> decodeURIComponent e = Some s"
  using decode_encode_all [of uri_unescaped s e] by (simp add: encodeURIComponent_def)

lemma query_parts_skip: "\<not> name_char c \<Longrightarrow> query_parts (c # s) = query_parts s"
  by (subst (1 2) query_parts.simps) simp

lemma query_parts_pair:
  assumes "\<forall>c \<in> set k. name_char c" "k \<noteq> []" "\<forall>c \<in> set v. name_char c" "s = [] \<or> hd s = 38"
  shows "query_parts (k @ 61 # v @ s) = (k, v) # query_parts s"
proof -
  have "dropWhile (\<lambda>c. \<not> name_char c) (k @ 61 # v @ s) = k @ 61 # v @ s" using assms(1,2) by (cases k) auto
  moreover have "takeWhile name_char (k @ 61 # v @ s) = k" "dropWhile name_char (k @ 61 # v @ s) = 61 # v @ s"
    using assms(1) by (auto simp: takeWhile_append2 dropWhile_append2 name_char_def)
  moreover have "\<forall>c \<in> set v. c \<noteq> 38" using assms(3) by (auto simp: name_char_def)
  then have "takeWhile (\<lambda>c. c \<noteq> 38) (v @ s) = v" "dropWhile (\<lambda>c. c \<noteq> 38) (v @ s) = s"
    using assms(4) by (cases s; auto simp: takeWhile_append2 dropWhile_append2)+
  ultimately show ?thesis by (subst query_parts.simps) simp
qed

lemma query_parts_join:
  "\<forall>(k, v) \<in> set kvs. (\<forall>c \<in> set k. name_char c) \<and> k \<noteq> [] \<and> (\<forall>c \<in> set v. name_char c) \<Longrightarrow>
     query_parts (join_with (js_str ''&'') (map (\<lambda>(k, v). k @ 61 # v) kvs)) = kvs"
proof (induction kvs)
  case Nil
  then show ?case by (simp add: query_parts.simps)
next
  case (Cons p kvs)
  obtain k v where p: "p = (k, v)" by (cases p)
  have ih: "query_parts (join_with (js_str ''&'') (map (\<lambda>(k, v). k @ 61 # v) kvs)) = kvs" using Cons by simp
  show ?case
  proof (cases "kvs = []")
    case True
    then show ?thesis using Cons.prems ih query_parts_pair [of k v "[]"] by (simp add: p)
  next
    case False
    then show ?thesis using Cons.prems ih query_parts_pair [of k v "38 # join_with (js_str ''&'') (map (\<lambda>(k, v). k @ 61 # v) kvs)"]
      by (simp add: p join_with_Cons query_parts_skip name_char_def js_str_def)
  qed
qed

definition string_props :: "jvalue props \<Rightarrow> bool" where
  \<comment> \<open>an object of strings with names that a query can carry\<close>
  "string_props ps \<longleftrightarrow> ordered_props ps \<and> (\<forall>(k, v) \<in> set ps. k \<noteq> [] \<and> k \<noteq> js_str ''__proto__'' \<and> (\<exists>s. v = JStr s))"

lemma assign_parts_append:
  assumes "list_all2 (\<lambda>(k, v) (k', v'). decodeURIComponent k = Some k' \<and> decodeURIComponent v = Some v') parts strs"
    "string_props (done @ map (\<lambda>(k, v). (k, JStr v)) strs)"
  shows "assign_parts parts done = Inr (done @ map (\<lambda>(k, v). (k, JStr v)) strs)"
  using assms
proof (induction parts strs arbitrary: "done" rule: list_all2_induct)
  case (Cons p ps q qs)
  obtain k v k' v' where pq: "p = (k, v)" "q = (k', v')" by (cases p; cases q)
  have "obj_put k' (JStr v') done = done @ [(k', JStr v')]"
    using Cons.prems pq by (intro obj_put_new) (auto simp: string_props_def ordered_props_def sorted_wrt_append)
  moreover have "k' \<noteq> js_str ''__proto__''" using Cons.prems pq by (auto simp: string_props_def)
  moreover have "string_props ((done @ [(k', JStr v')]) @ map (\<lambda>(k, v). (k, JStr v)) qs)" using Cons.prems pq by simp
  ultimately show ?case using Cons.hyps Cons.IH pq by (simp add: assign_string_def)
qed simp

lemma query_pair_string:
  "query_pair (k, JStr v) = Inr p \<longleftrightarrow>
     (\<exists>k' v'. encodeURIComponent k = Some k' \<and> encodeURIComponent v = Some v' \<and> p = k' @ 61 # v')"
  by (auto simp: query_pair_def and_then_Inr)

lemma query_pairs:
  "list_all2 (\<lambda>x y. query_pair x = Inr y) (map (\<lambda>(k, v). (k, JStr v)) strs) prs \<Longrightarrow>
   \<exists>kvs. prs = map (\<lambda>(k, v). k @ 61 # v) kvs \<and>
     list_all2 (\<lambda>(k, v) (k', v'). encodeURIComponent k' = Some k \<and> encodeURIComponent v' = Some v) kvs strs"
proof (induction strs arbitrary: prs)
  case (Cons p strs)
  obtain k v where p: "p = (k, v)" by (cases p)
  with Cons.prems obtain q prs' k' v' where q: "prs = q # prs'" "encodeURIComponent k = Some k'" "encodeURIComponent v = Some v'"
    "q = k' @ 61 # v'" "list_all2 (\<lambda>x y. query_pair x = Inr y) (map (\<lambda>(k, v). (k, JStr v)) strs) prs'"
    by (auto simp: list_all2_Cons1 query_pair_string)
  from Cons.IH [OF q(5)] obtain kvs where
    "prs' = map (\<lambda>(k, v). k @ 61 # v) kvs"
    "list_all2 (\<lambda>(k, v) (k', v'). encodeURIComponent k' = Some k \<and> encodeURIComponent v' = Some v) kvs strs" by blast
  then show ?case using p q by (intro exI [of _ "(k', v') # kvs"]) simp
qed simp

lemma encoded_parts:
  assumes "list_all2 (\<lambda>(k, v) (k', v'). encodeURIComponent k' = Some k \<and> encodeURIComponent v' = Some v) kvs strs"
    "\<forall>(k', v') \<in> set strs. k' \<noteq> []"
  shows "\<forall>(k, v) \<in> set kvs. (\<forall>c \<in> set k. name_char c) \<and> k \<noteq> [] \<and> (\<forall>c \<in> set v. name_char c)"
  using assms
proof (induction kvs strs rule: list_all2_induct)
  case (Cons p ps q qs)
  obtain k v k' v' where "p = (k, v)" "q = (k', v')" by (cases p; cases q)
  then show ?case using Cons encoded_name_char [of k' k] encoded_name_char [of v' v] encoded_not_Nil [of k' k] by auto
qed simp

lemma querystring_querystringify:
  assumes "string_props ps" "querystringify ps prefix = Inr q" "prefix = JUndef \<or> prefix = JBool True"
  shows "querystring q = Inr ps"
proof -
  obtain pairs where pairs: "map_ok query_pair ps = Inr pairs"
    "q = (if pairs = [] then [] else (if truthy prefix then js_str ''?'' else []) @ join_with (js_str ''&'') pairs)"
    using assms(2,3) by (auto simp: querystringify_def and_then_Inr)
  define strs where "strs = map (\<lambda>(k, v). (k, case v of JStr s \<Rightarrow> s)) ps"
  have ps: "map (\<lambda>(k, v). (k, JStr v)) strs = ps"
    unfolding strs_def using assms(1) by (auto simp: string_props_def intro!: map_idI)
  have "list_all2 (\<lambda>x y. query_pair x = Inr y) (map (\<lambda>(k, v). (k, JStr v)) strs) pairs"
    using pairs(1) unfolding map_ok_Inr ps .
  from query_pairs [OF this] obtain kvs where kvs: "pairs = map (\<lambda>(k, v). k @ 61 # v) kvs"
    "list_all2 (\<lambda>(k, v) (k', v'). encodeURIComponent k' = Some k \<and> encodeURIComponent v' = Some v) kvs strs" by blast
  have "\<forall>(k', v') \<in> set strs. k' \<noteq> []" using assms(1) by (auto simp: strs_def string_props_def)
  then have "query_parts q = kvs"
    using query_parts_join [OF encoded_parts [OF kvs(2)]] pairs(2) kvs(1) by (auto simp: query_parts_skip name_char_def js_str_def query_parts.simps [of "[]"])
  moreover have "assign_parts kvs [] = Inr ([] @ map (\<lambda>(k, v). (k, JStr v)) strs)"
    using assms(1) ps by (intro assign_parts_append list_all2_mono [OF kvs(2)]) (auto dest: decode_encoded)
  ultimately show ?thesis by (simp add: querystring_def ps)
qed

end
