(* ===== verification/Api_Url.thy ===== *)
theory Api_Url
  imports Api_Query
begin

text \<open>
  The module \<open>url-parse\<close> of \<open>static/rest_framework/js/coreapi-0.1.1.js\<close>: parsing a URL by its rules, resolving it
  against a base, changing a part and printing it. The page's own location is a parameter (\<open>page\<close>); pages
  with a \<open>blob:\<close> location are not modelled. A URL object keeps its query as text, or as an object once
  \<open>set\<close> has put one there.
\<close>

section \<open>Rules\<close>

definition required :: "jsstring \<Rightarrow> jsstring \<Rightarrow> bool" where
  \<comment> \<open>the module \<open>requires-port\<close>, on a port that is empty or consists of digits\<close>
  "required port protocol =
     (let scheme = hd (split_on (cu CHR '':'') protocol); n = fold (\<lambda>c n. 10 * n + (unat c - 48)) port (0 :: nat)
      in if n = 0 then False
         else if scheme = js_str ''http'' \<or> scheme = js_str ''ws'' then n \<noteq> 80
         else if scheme = js_str ''https'' \<or> scheme = js_str ''wss'' then n \<noteq> 443
         else if scheme = js_str ''ftp'' then n \<noteq> 21
         else if scheme = js_str ''gopher'' then n \<noteq> 70
         else if scheme = js_str ''file'' then False
         else n \<noteq> 0)"

definition scheme_char :: "16 word \<Rightarrow> bool" where
  "scheme_char c \<longleftrightarrow> is_alnum c \<or> js_in c ''.+-''"

fun strip_slashes :: "jsstring \<Rightarrow> bool \<times> jsstring" where
  "strip_slashes (a # b # s) = (if a = cu CHR ''/'' \<and> b = cu CHR ''/'' then (True, s) else (False, a # b # s))"
| "strip_slashes s = (False, s)"

definition extractProtocol :: "jsstring \<Rightarrow> jsstring \<times> bool \<times> jsstring" where
  \<comment> \<open>\<open>/^([a-z][a-z0-9.+-]*:)?(\/\/)?([\S\s]*)/i\<close>; the protocol, the slashes and the rest\<close>
  "extractProtocol address =
     (let scheme = takeWhile scheme_char address; after = dropWhile scheme_char address
      in if scheme \<noteq> [] \<and> (is_lower (hd scheme) \<or> is_upper (hd scheme)) \<and> after \<noteq> [] \<and> hd after = cu CHR '':''
         then (case strip_slashes (tl after) of (slashes, rest) \<Rightarrow> (toLowerCase (scheme @ js_str '':''), slashes, rest))
         else (case strip_slashes address of (slashes, rest) \<Rightarrow> ([], slashes, rest)))"

section \<open>Resolving a path\<close>

fun resolve_loop :: "jsstring list \<Rightarrow> jsstring list \<Rightarrow> nat \<Rightarrow> bool \<Rightarrow> jsstring list \<times> bool" where
  \<comment> \<open>the segments before index \<open>i\<close>, last one first, and those that are kept after it\<close>
  "resolve_loop [] kept up unshift = (kept, unshift)"
| "resolve_loop (p # prev) kept up unshift =
     (if p = js_str ''.'' then resolve_loop prev kept up unshift
      else if p = js_str ''..'' then resolve_loop prev kept (up + 1) unshift
      else if up > 0 then resolve_loop prev kept (up - 1) (unshift \<or> prev = [])
      else resolve_loop prev (p # kept) up unshift)"

definition resolve :: "jsstring \<Rightarrow> jsstring \<Rightarrow> jsstring" where
  "resolve relative base =
     (let path = butlast (split_on (cu CHR ''/'') (if base = [] then js_str ''/'' else base)) @ split_on (cu CHR ''/'') relative;
          last' = last path
      in case resolve_loop (rev path) [] 0 False of
           (kept, unshift) \<Rightarrow>
             join_with (js_str ''/'')
               ((if unshift then [[]] else []) @ kept @ (if last' = js_str ''.'' \<or> last' = js_str ''..'' then [[]] else [])))"

section \<open>URLs\<close>

datatype query = QText jsstring | QObj "jvalue props"

record url =
  u_slashes :: bool
  u_protocol :: jsstring
  u_hash :: jsstring
  u_query :: query
  u_pathname :: jsstring
  u_auth :: jsstring
  u_host :: jsstring
  u_port :: jsstring
  u_hostname :: jsstring
  u_username :: jsstring
  u_password :: jsstring
  u_origin :: jsstring
  u_href :: jsstring

record location =
  \<comment> \<open>what \<open>URL\<close> reads of the location defaults; a missing property is empty\<close>
  l_slashes :: bool
  l_protocol :: jsstring
  l_host :: jsstring
  l_port :: jsstring
  l_hostname :: jsstring
  l_pathname :: jsstring

definition no_location :: location where
  "no_location = \<lparr>l_slashes = False, l_protocol = [], l_host = [], l_port = [], l_hostname = [], l_pathname = []\<rparr>"

definition url_string :: "url \<Rightarrow> jsstring \<Rightarrow> jsstring" where
  \<comment> \<open>\<open>toString\<close>, after the query has been made a text\<close>
  "url_string url q =
     (let protocol = (if u_protocol url \<noteq> [] \<and> last (u_protocol url) \<noteq> cu CHR '':'' then u_protocol url @ js_str '':'' else u_protocol url)
      in protocol @ (if u_slashes url then js_str ''//'' else []) @
         (if u_username url \<noteq> []
          then u_username url @ (if u_password url \<noteq> [] then js_str '':'' @ u_password url else []) @ js_str ''@''
          else []) @
         u_host url @ u_pathname url @
         (if q \<noteq> [] then (if hd q \<noteq> cu CHR ''?'' then js_str ''?'' @ q else q) else []) @ u_hash url)"

definition url_toString :: "url \<Rightarrow> js_error + jsstring" where
  "url_toString url =
     and_then (case u_query url of QText q \<Rightarrow> Inr q | QObj ps \<Rightarrow> querystringify ps JUndef) (\<lambda>q. Inr (url_string url q))"

definition url_origin :: "url \<Rightarrow> jsstring" where
  "url_origin url =
     (if u_protocol url \<noteq> [] \<and> u_host url \<noteq> [] \<and> u_protocol url \<noteq> js_str ''file:''
      then u_protocol url @ js_str ''//'' @ u_host url else js_str ''null'')"

definition cut_from :: "16 word \<Rightarrow> jsstring \<Rightarrow> jsstring \<times> jsstring" where
  \<comment> \<open>a rule that takes what starts with \<open>c\<close>; and what is left\<close>
  "cut_from c address = (dropWhile (\<lambda>d. d \<noteq> c) address, takeWhile (\<lambda>d. d \<noteq> c) address)"

definition cut_auth :: "jsstring \<Rightarrow> jsstring \<times> jsstring" where
  "cut_auth address =
     (if cu CHR ''@'' \<in> set address
      then (takeWhile (\<lambda>d. d \<noteq> cu CHR ''@'') address, tl (dropWhile (\<lambda>d. d \<noteq> cu CHR ''@'') address)) else ([], address))"

definition cut_port :: "jsstring \<Rightarrow> jsstring \<times> jsstring" where
  \<comment> \<open>\<open>/:(\d+)$/\<close>\<close>
  "cut_port address =
     (let digits = rev (takeWhile is_digit (rev address)); prev = rev (dropWhile is_digit (rev address))
      in if digits \<noteq> [] \<and> prev \<noteq> [] \<and> last prev = cu CHR '':'' then (digits, butlast prev) else ([], address))"

definition or_else :: "jsstring \<Rightarrow> jsstring \<Rightarrow> jsstring" where
  "or_else s t = (if s \<noteq> [] then s else t)"

definition nth_or :: "jsstring list \<Rightarrow> nat \<Rightarrow> jsstring" where
  "nth_or ss i = (case nth_opt ss i of None \<Rightarrow> [] | Some s \<Rightarrow> s)"

definition newline :: "16 word \<Rightarrow> bool" where
  \<comment> \<open>what \<open>.\<close> does not match\<close>
  "newline c \<longleftrightarrow> c = 10 \<or> c = 13 \<or> c = 0x2028 \<or> c = 0x2029"

definition URL_at :: "location \<Rightarrow> jsstring \<Rightarrow> url" where
  "URL_at loc address =
     (case extractProtocol address of (protocol, slashes, rest) \<Rightarrow>
      let relative = (protocol = [] \<and> \<not> slashes);
          inherit = (\<lambda>s. if relative then s else []);
          (hash, a) = cut_from (cu CHR ''#'') rest;
          (query, a) = cut_from (cu CHR ''?'') a;
          (pathname, a) = (if slashes then cut_from (cu CHR ''/'') a else (takeWhile (\<lambda>c. \<not> newline c) a, []));
          (auth, a) = cut_auth a;
          host = toLowerCase (or_else a (inherit (l_host loc)));
          (digits, a) = cut_port a;
          port = or_else digits (inherit (l_port loc));
          hostname = toLowerCase (or_else a (inherit (l_hostname loc)));
          url_slashes = (slashes \<or> relative \<and> l_slashes loc);
          url_protocol = or_else protocol (l_protocol loc);
          pathname = (if relative \<and> l_slashes loc \<and> (pathname = [] \<or> hd pathname \<noteq> cu CHR ''/'') \<and> (pathname \<noteq> [] \<or> l_pathname loc \<noteq> [])
                      then resolve pathname (l_pathname loc) else pathname);
          needed = required port url_protocol;
          user = (if auth = [] then [] else split_on (cu CHR '':'') auth);
          url = \<lparr>u_slashes = url_slashes, u_protocol = url_protocol, u_hash = hash, u_query = QText query, u_pathname = pathname,
                 u_auth = auth, u_host = (if needed then host else hostname), u_port = (if needed then port else []),
                 u_hostname = hostname, u_username = nth_or user 0, u_password = nth_or user 1, u_origin = [], u_href = []\<rparr>;
          url = url\<lparr>u_origin := url_origin url\<rparr>
      in url\<lparr>u_href := url_string url query\<rparr>)"

definition lolcation :: "location \<Rightarrow> jsstring option \<Rightarrow> location" where
  \<comment> \<open>an absent or empty base is replaced by the location of the page\<close>
  "lolcation page loc =
     (case loc of
        None \<Rightarrow> page
      | Some s \<Rightarrow>
          if s = [] then page
          else let url = URL_at no_location s
               in \<lparr>l_slashes = u_slashes url, l_protocol = u_protocol url, l_host = u_host url, l_port = u_port url,
                   l_hostname = u_hostname url, l_pathname = u_pathname url\<rparr>)"

definition URL :: "location \<Rightarrow> jsstring \<Rightarrow> jsstring option \<Rightarrow> url" where
  "URL page address loc = URL_at (lolcation page loc) address"

section \<open>Changing a part\<close>

datatype part =
  Query query
| Port jsstring
| Hostname jsstring
| Host jsstring
| Protocol jsstring bool
| Pathname jsstring
  \<comment> \<open>the name with the value of \<open>set\<close>; \<open>Protocol\<close> with its third argument too\<close>

fun set_part :: "part \<Rightarrow> url \<Rightarrow> js_error + url" where
  "set_part (Query q) url =
     (case q of
        QObj ps \<Rightarrow> Inr (url\<lparr>u_query := q\<rparr>)
      | QText s \<Rightarrow> if s = [] then Inr (url\<lparr>u_query := q\<rparr>)
                   else and_then (querystring s) (\<lambda>ps. Inr (url\<lparr>u_query := QObj ps\<rparr>)))"
| "set_part (Port v) url =
     Inr (if \<not> required v (u_protocol url) then url\<lparr>u_host := u_hostname url, u_port := []\<rparr>
          else url\<lparr>u_port := v, u_host := u_hostname url @ js_str '':'' @ v\<rparr>)"
| "set_part (Hostname v) url =
     Inr (url\<lparr>u_hostname := v, u_host := (if u_port url \<noteq> [] then v @ js_str '':'' @ u_port url else v)\<rparr>)"
| "set_part (Host v) url =
     Inr (if fst (cut_port v) \<noteq> []
          then url\<lparr>u_host := v, u_port := last (split_on (cu CHR '':'') v),
                   u_hostname := join_with (js_str '':'') (butlast (split_on (cu CHR '':'') v))\<rparr>
          else url\<lparr>u_host := v, u_hostname := v, u_port := []\<rparr>)"
| "set_part (Protocol v no_slashes) url = Inr (url\<lparr>u_protocol := toLowerCase v, u_slashes := \<not> no_slashes\<rparr>)"
| "set_part (Pathname v) url = Inr (url\<lparr>u_pathname := (if v \<noteq> [] \<and> hd v \<noteq> cu CHR ''/'' then js_str ''/'' @ v else v)\<rparr>)"

definition url_set :: "part \<Rightarrow> url \<Rightarrow> js_error + url" where
  "url_set p url =
     and_then (set_part p url) (\<lambda>url.
       let url = url\<lparr>u_host := toLowerCase (u_host url), u_hostname := toLowerCase (u_hostname url)\<rparr>;
           url = url\<lparr>u_origin := url_origin url\<rparr>
       in and_then (url_toString url) (\<lambda>href. Inr (url\<lparr>u_href := href\<rparr>)))"

section \<open>Resolution removes dot segments\<close>

fun remove_dots :: "jsstring list \<Rightarrow> jsstring list \<Rightarrow> jsstring list" where
  \<comment> \<open>the reference: a stack of segments, on which \<open>..\<close> pops and \<open>.\<close> does nothing\<close>
  "remove_dots st [] = rev st"
| "remove_dots st (s # ss) =
     (if s = js_str ''.'' then remove_dots st ss
      else if s = js_str ''..'' then remove_dots (tl st) ss
      else remove_dots (s # st) ss)"

fun backwards :: "jsstring list \<Rightarrow> jsstring list \<times> nat" where
  \<comment> \<open>what the loop keeps of a list of segments, and how many \<open>..\<close> are left at its front\<close>
  "backwards [] = ([], 0)"
| "backwards (s # ss) =
     (case backwards ss of
        (kept, up) \<Rightarrow>
          if s = js_str ''.'' then (kept, up)
          else if s = js_str ''..'' then (kept, up + 1)
          else if up > 0 then (kept, up - 1) else (s # kept, 0))"

lemma remove_dots_backwards: "remove_dots st ss = rev (drop (snd (backwards ss)) st) @ fst (backwards ss)"
proof (induction st ss rule: remove_dots.induct)
  case (2 st s ss)
  then show ?case
    by (cases "backwards ss"; cases "snd (backwards ss)") (auto simp: drop_Suc)
qed simp

lemma resolve_loop_backwards:
  "prev \<noteq> [] \<Longrightarrow> resolve_loop (rev ss @ prev) kept 0 unshift =
     resolve_loop prev (fst (backwards ss) @ kept) (snd (backwards ss)) unshift"
  by (induction ss arbitrary: prev) (auto split: prod.splits)

definition dot_end :: "jsstring list \<Rightarrow> jsstring list" where
  \<comment> \<open>a path that ends in a dot segment names a directory\<close>
  "dot_end segs = (if last segs = js_str ''.'' \<or> last segs = js_str ''..'' then [[]] else [])"

lemma resolve_remove_dots:
  assumes "base = cu CHR ''/'' # dir"
  shows "resolve relative base =
     (let segs = butlast (split_on (cu CHR ''/'') dir) @ split_on (cu CHR ''/'') relative
      in join_with (js_str ''/'') ([] # remove_dots [] segs @ dot_end segs))"
proof -
  define segs where "segs = butlast (split_on (cu CHR ''/'') dir) @ split_on (cu CHR ''/'') relative"
  have path: "butlast (split_on (cu CHR ''/'') base) @ split_on (cu CHR ''/'') relative = [] # segs" "segs \<noteq> []"
    by (simp_all add: assms segs_def)
  have "resolve_loop (rev ([] # segs)) [] 0 False = resolve_loop [[]] (fst (backwards segs)) (snd (backwards segs)) False"
    using resolve_loop_backwards [of "[[]]" segs "[]" False] by simp
  then show ?thesis
    using path remove_dots_backwards [of "[]" segs]
    by (simp add: resolve_def Let_def assms segs_def [symmetric] dot_end_def js_str_def)
qed

section \<open>Absolute URLs\<close>

definition url_parts :: "jsstring \<Rightarrow> jsstring \<Rightarrow> jsstring \<Rightarrow> jsstring \<Rightarrow> jsstring \<Rightarrow> jsstring \<Rightarrow> bool" where
  \<comment> \<open>a scheme, a host name, a port and the three parts behind them, in the form in which \<open>URL\<close> prints them\<close>
  "url_parts scheme hostname port path query hash \<longleftrightarrow>
     scheme \<noteq> [] \<and> is_lower (hd scheme) \<and> (\<forall>c \<in> set scheme. scheme_char c \<and> \<not> is_upper c) \<and>
     hostname \<noteq> [] \<and> (\<forall>c \<in> set hostname. \<not> js_in c ''/?#@:'' \<and> \<not> is_upper c) \<and> (\<forall>c \<in> set port. is_digit c) \<and>
     (path = [] \<or> hd path = cu CHR ''/'') \<and> (\<forall>c \<in> set path. \<not> js_in c ''?#'') \<and>
     (query = [] \<or> hd query = cu CHR ''?'') \<and> (\<forall>c \<in> set query. \<not> js_in c ''#'') \<and>
     (hash = [] \<or> hd hash = cu CHR ''#'')"

definition with_port :: "jsstring \<Rightarrow> jsstring \<Rightarrow> jsstring" where
  "with_port hostname port = (if port = [] then hostname else hostname @ js_str '':'' @ port)"

lemma toLowerCase_id: "\<forall>c \<in> set s. \<not> is_upper c \<Longrightarrow> toLowerCase s = s"
  by (simp add: toLowerCase_def lower_char_def map_idI)

lemma extractProtocol_absolute:
  assumes "scheme \<noteq> []" "is_lower (hd scheme)" "\<forall>c \<in> set scheme. scheme_char c \<and> \<not> is_upper c"
  shows "extractProtocol (scheme @ js_str ''://'' @ rest) = (scheme @ js_str '':'', True, rest)"
proof -
  have colon: "\<not> scheme_char 58" "\<not> is_upper 58"
    by (simp_all add: scheme_char_def is_alnum_def is_upper_def is_lower_def is_digit_def js_in_def js_str_def)
  have "takeWhile scheme_char (scheme @ js_str ''://'' @ rest) = scheme"
    "dropWhile scheme_char (scheme @ js_str ''://'' @ rest) = js_str ''://'' @ rest"
    using assms(3) colon by (simp_all add: takeWhile_append2 dropWhile_append2 js_str_def)
  then show ?thesis
    using assms colon by (simp add: extractProtocol_def Let_def js_str_def toLowerCase_id)
qed

lemma cut_from_append:
  "\<forall>d \<in> set a. d \<noteq> c \<Longrightarrow> b = [] \<or> hd b = c \<Longrightarrow> cut_from c (a @ b) = (b, a)"
  by (cases b) (auto simp: cut_from_def takeWhile_append2 dropWhile_append2)

lemma cut_port_with_port:
  assumes "\<forall>c \<in> set hostname. c \<noteq> 58" "\<forall>c \<in> set port. is_digit c"
  shows "cut_port (with_port hostname port) = (port, hostname)"
proof (cases "port = []")
  case True
  define prev where "prev = rev (dropWhile is_digit (rev hostname))"
  have "prev \<noteq> [] \<Longrightarrow> last prev \<noteq> 58"
    using assms(1) set_dropWhileD [of "last prev" is_digit "rev hostname"] last_in_set [of prev] by (auto simp: prev_def)
  then show ?thesis using True by (auto simp: cut_port_def with_port_def prev_def [symmetric] Let_def)
next
  case False
  have "\<not> is_digit 58" by (simp add: is_digit_def)
  then have "takeWhile is_digit (rev port @ 58 # rev hostname) = rev port"
    "dropWhile is_digit (rev port @ 58 # rev hostname) = 58 # rev hostname"
    using assms(2) by (simp_all add: takeWhile_append dropWhile_append)
  then show ?thesis using False by (simp add: cut_port_def with_port_def Let_def js_str_def)
qed

lemma URL_absolute:
  assumes "url_parts scheme hostname port path query hash"
  defines "p \<equiv> (if required port (scheme @ js_str '':'') then port else [])"
  shows "let url = URL_at loc (scheme @ js_str ''://'' @ with_port hostname port @ path @ query @ hash)
    in u_protocol url = scheme @ js_str '':'' \<and> u_slashes url \<and> u_hostname url = hostname \<and> u_port url = p \<and>
       u_host url = with_port hostname p \<and> u_pathname url = path \<and> u_query url = QText query \<and> u_hash url = hash \<and> u_username url = [] \<and>
       u_origin url = (if scheme = js_str ''file'' then js_str ''null'' else scheme @ js_str ''://'' @ with_port hostname p) \<and>
       u_href url = scheme @ js_str ''://'' @ with_port hostname p @ path @ query @ hash"
proof -
  let ?h = "with_port hostname port"
  have parts: "scheme \<noteq> []" "is_lower (hd scheme)" "\<forall>c \<in> set scheme. scheme_char c \<and> \<not> is_upper c"
    "hostname \<noteq> []" "\<forall>c \<in> set hostname. \<not> js_in c ''/?#@:'' \<and> \<not> is_upper c" "\<forall>c \<in> set port. is_digit c"
    "path = [] \<or> hd path = cu CHR ''/''" "\<forall>c \<in> set path. \<not> js_in c ''?#''" "query = [] \<or> hd query = cu CHR ''?''"
    "\<forall>c \<in> set query. \<not> js_in c ''#''" "hash = [] \<or> hd hash = cu CHR ''#''"
    using assms(1) by (simp_all add: url_parts_def)
  have dig: "\<not> js_in c ''/?#@'' \<and> \<not> is_upper c" if "is_digit c" for c
    using that by (auto simp: is_digit_def is_upper_def js_in_def js_str_def)
  have h: "\<forall>c \<in> set ?h. \<not> js_in c ''/?#@'' \<and> \<not> is_upper c" "?h \<noteq> []"
    using parts(4,5,6) dig by (auto simp: with_port_def js_in_def js_str_def is_upper_def)
  have colon: "\<forall>c \<in> set hostname. c \<noteq> 58" using parts(5) by (auto simp: js_in_def js_str_def)
  have "cut_from (cu CHR ''#'') ((?h @ path @ query) @ hash) = (hash, ?h @ path @ query)"
    by (rule cut_from_append) (use h parts in \<open>auto simp: js_in_def js_str_def\<close>)
  moreover have "cut_from (cu CHR ''?'') ((?h @ path) @ query) = (query, ?h @ path)"
    by (rule cut_from_append) (use h parts in \<open>auto simp: js_in_def js_str_def\<close>)
  moreover have "cut_from (cu CHR ''/'') (?h @ path) = (path, ?h)"
    by (rule cut_from_append) (use h parts in \<open>auto simp: js_in_def js_str_def\<close>)
  moreover have "cut_auth ?h = ([], ?h)" using h(1) by (auto simp: cut_auth_def js_in_def js_str_def)
  moreover have "toLowerCase ?h = ?h" "toLowerCase hostname = hostname" using h(1) parts(5) by (simp_all add: toLowerCase_id)
  moreover note cut_port_with_port [OF colon parts(6)] extractProtocol_absolute [OF parts(1-3)]
  ultimately show ?thesis
    using parts(1,4,9) h(2)
    by (auto simp: URL_at_def url_string_def url_origin_def or_else_def nth_or_def Let_def p_def with_port_def js_str_def)
qed

end
