(* ===== verification/Api_Document.thy ===== *)
theory Api_Document
  imports Api_Url
begin

text \<open>
  Documents of the Core API client and their codec: the modules \<open>document\<close> and \<open>codecs/corejson\<close> of
  \<open>static/rest_framework/js/coreapi-0.1.1.js\<close>, and \<open>lookupLink\<close> of its \<open>client\<close>. A document is decoded from JSON data,
  its links then found along a path of keys. Properties called \<open>__proto__\<close> become prototypes and not
  properties; what is inherited through them is not modelled.
\<close>

section \<open>Documents\<close>

record link_field =
  f_name :: jsstring
  f_required :: bool
  f_location :: jsstring
  f_description :: jsstring

record link =
  k_url :: jsstring
  k_method :: jsstring
  k_encoding :: jsstring
  k_fields :: "link_field list"
  k_title :: jsstring
  k_description :: jsstring

datatype node =
  Document jsstring jsstring jsstring "(jsstring \<times> node) list"
| Link link
| Plain jvalue
| NObj "(jsstring \<times> node) list"
| NArr "node list"

section \<open>Reading JSON data\<close>

definition ends_with :: "jsstring \<Rightarrow> jsstring \<Rightarrow> bool" where
  "ends_with t s \<longleftrightarrow> drop (length s - length t) s = t"

definition unescapeKey :: "jsstring \<Rightarrow> jsstring" where
  \<comment> \<open>\<open>/__(type|meta)$/\<close>\<close>
  "unescapeKey key = (if ends_with (js_str ''__type'') key \<or> ends_with (js_str ''__meta'') key then tl key else key)"

definition getString :: "jvalue \<Rightarrow> jsstring \<Rightarrow> js_error + jsstring" where
  "getString obj key = and_then (get_prop obj key) (\<lambda>v. Inr (case v of JStr s \<Rightarrow> s | _ \<Rightarrow> []))"

definition getBoolean :: "jvalue \<Rightarrow> jsstring \<Rightarrow> js_error + bool" where
  "getBoolean obj key = and_then (get_prop obj key) (\<lambda>v. Inr (case v of JBool b \<Rightarrow> b | _ \<Rightarrow> False))"

definition getObject :: "jvalue \<Rightarrow> jsstring \<Rightarrow> js_error + jvalue" where
  \<comment> \<open>the type of \<open>null\<close> is \<open>object\<close>\<close>
  "getObject obj key =
     and_then (get_prop obj key) (\<lambda>v. Inr (case v of JNull \<Rightarrow> v | JArr _ \<Rightarrow> v | JObj _ \<Rightarrow> v | _ \<Rightarrow> JObj []))"

definition getArray :: "jvalue \<Rightarrow> jsstring \<Rightarrow> js_error + jvalue list" where
  "getArray obj key = and_then (get_prop obj key) (\<lambda>v. Inr (case v of JArr vs \<Rightarrow> vs | _ \<Rightarrow> []))"

definition has_type :: "string \<Rightarrow> jvalue \<Rightarrow> bool" where
  "has_type t data = (case data of JObj ps \<Rightarrow> map_of ps (js_str ''_type'') = Some (JStr (js_str t)) | _ \<Rightarrow> False)"

definition assign_prop :: "jsstring \<Rightarrow> 'v \<Rightarrow> 'v props \<Rightarrow> 'v props" where
  "assign_prop k v ps = (if k = js_str ''__proto__'' then ps else obj_put k v ps)"

definition own_props :: "jvalue props \<Rightarrow> js_error + jvalue props" where
  \<comment> \<open>the loop \<open>for (p in data) if (data.hasOwnProperty(p))\<close>: a property of that name is in the way\<close>
  "own_props ps = (if js_str ''hasOwnProperty'' \<in> fst ` set ps then Inl TypeError else Inr ps)"

definition absolute_url :: "location \<Rightarrow> jsstring \<Rightarrow> jsstring option \<Rightarrow> js_error + jsstring" where
  \<comment> \<open>\<open>relativeUrl ? URL(relativeUrl, baseUrl).toString() : ''\<close>\<close>
  "absolute_url page relativeUrl baseUrl = (if relativeUrl = [] then Inr [] else url_toString (URL page relativeUrl baseUrl))"

definition decode_field :: "jvalue \<Rightarrow> js_error + link_field" where
  "decode_field value =
     and_then (getString value (js_str ''name'')) (\<lambda>name.
     and_then (getBoolean value (js_str ''required'')) (\<lambda>required.
     and_then (getString value (js_str ''location'')) (\<lambda>location.
     and_then (getString value (js_str ''fieldDescription'')) (\<lambda>description.
       Inr \<lparr>f_name = name, f_required = required, f_location = location, f_description = description\<rparr>))))"

definition decode_link :: "location \<Rightarrow> jvalue \<Rightarrow> jsstring option \<Rightarrow> js_error + link" where
  "decode_link page data baseUrl =
     and_then (getString data (js_str ''url'')) (\<lambda>relativeUrl.
     and_then (absolute_url page relativeUrl baseUrl) (\<lambda>url.
     and_then (getString data (js_str ''action'')) (\<lambda>method.
     and_then (getString data (js_str ''title'')) (\<lambda>title.
     and_then (getString data (js_str ''description'')) (\<lambda>description.
     and_then (getArray data (js_str ''fields'')) (\<lambda>fieldsData.
     and_then (map_ok decode_field fieldsData) (\<lambda>fields.
       Inr \<lparr>k_url = url, k_method = or_else method (js_str ''get''), k_encoding = js_str ''application/json'',
            k_fields = fields, k_title = title, k_description = description\<rparr>)))))))"

definition document_url :: "location \<Rightarrow> jvalue \<Rightarrow> jsstring option \<Rightarrow> js_error + jsstring" where
  "document_url page data baseUrl =
     and_then (getObject data (js_str ''_meta'')) (\<lambda>meta.
     and_then (getString meta (js_str ''url'')) (\<lambda>relativeUrl. absolute_url page relativeUrl baseUrl))"

definition document_text :: "jvalue \<Rightarrow> string \<Rightarrow> js_error + jsstring" where
  "document_text data key = and_then (getObject data (js_str ''_meta'')) (\<lambda>meta. getString meta (js_str key))"

definition content_props :: "jvalue props \<Rightarrow> jvalue props" where
  \<comment> \<open>what \<open>getContent\<close> does not exclude\<close>
  "content_props ps = filter (\<lambda>(k, v). k \<noteq> js_str ''_type'' \<and> k \<noteq> js_str ''_meta'') ps"

definition assign_all :: "(jsstring \<times> 'v) list \<Rightarrow> 'v props" where
  "assign_all kvs = fold (\<lambda>(k, v). assign_prop k v) kvs []"

lemma filter_size [termination_simp]: "(k, v) \<in> set (content_props ps) \<Longrightarrow> size v < Suc (size_list (size_prod (\<lambda>x. 0) size) ps)"
  using mem_size_list [of "(k, v)" ps "size_prod (\<lambda>x. 0) size"] by (auto simp: content_props_def)

lemma prop_size [termination_simp]: "(k, v) \<in> set ps \<Longrightarrow> size v < Suc (size_list (size_prod (\<lambda>x. 0) size) ps)"
  using mem_size_list [of "(k, v)" ps "size_prod (\<lambda>x. 0) size"] by auto

function primitiveToNode :: "location \<Rightarrow> jvalue \<Rightarrow> jsstring option \<Rightarrow> js_error + node" where
  "primitiveToNode page (JObj ps) baseUrl =
     (if has_type ''document'' (JObj ps)
      then and_then (document_url page (JObj ps) baseUrl) (\<lambda>url.
           and_then (document_text (JObj ps) ''title'') (\<lambda>title.
           and_then (document_text (JObj ps) ''description'') (\<lambda>description.
           and_then (own_props ps) (\<lambda>_.
           and_then (map_ok (\<lambda>(k, v). and_then (primitiveToNode page v (Some url)) (\<lambda>n. Inr (unescapeKey k, n))) (content_props ps))
             (\<lambda>kns. Inr (Document url title description (assign_all kns)))))))
      else if has_type ''link'' (JObj ps) then and_then (decode_link page (JObj ps) baseUrl) (\<lambda>l. Inr (Link l))
      else and_then (own_props ps) (\<lambda>_.
           and_then (map_ok (\<lambda>(k, v). and_then (primitiveToNode page v baseUrl) (\<lambda>n. Inr (k, n))) ps)
             (\<lambda>kns. Inr (NObj (assign_all kns)))))"
| "primitiveToNode page (JArr vs) baseUrl =
     and_then (map_ok (\<lambda>v. primitiveToNode page v baseUrl) vs) (\<lambda>ns. Inr (NArr ns))"
| "primitiveToNode page JUndef baseUrl = Inr (Plain JUndef)"
| "primitiveToNode page JNull baseUrl = Inr (Plain JNull)"
| "primitiveToNode page (JBool b) baseUrl = Inr (Plain (JBool b))"
| "primitiveToNode page (JNum n) baseUrl = Inr (Plain (JNum n))"
| "primitiveToNode page (JStr s) baseUrl = Inr (Plain (JStr s))"
  by pat_completeness auto
termination
  by (relation "measure (\<lambda>(page, v, base). size v)") (auto simp: filter_size prop_size mem_size_list)

declare primitiveToNode.simps(1) [simp del]

section \<open>Finding a link\<close>

definition present :: "node option \<Rightarrow> node option" where
  \<comment> \<open>\<open>node === undefined\<close>\<close>
  "present n = (if n = Some (Plain JUndef) then None else n)"

fun lookupLink :: "node \<Rightarrow> jsstring list \<Rightarrow> js_error + link" where
  \<comment> \<open>of own properties only. \<open>node[key]\<close> also reads inherited names: apart from the links of a \<open>__proto__\<close> in the data,
    none of them is a link, but a path through \<open>null\<close>, like \<open>__proto__\<close>, \<open>__proto__\<close>, \<open>x\<close>, is a \<open>TypeError\<close> in the code
    and a \<open>LinkLookupError\<close> here\<close>
  "lookupLink (Link l) [] = Inr l"
| "lookupLink _ [] = Inl LinkLookupError"
| "lookupLink (Document _ _ _ content) (k # ks) =
     (case present (map_of content k) of None \<Rightarrow> Inl LinkLookupError | Some n \<Rightarrow> lookupLink n ks)"
| "lookupLink (NObj ps) (k # ks) =
     (case present (map_of ps k) of None \<Rightarrow> Inl LinkLookupError | Some n \<Rightarrow> lookupLink n ks)"
| "lookupLink (NArr ns) (k # ks) =
     (case index_key k of
        None \<Rightarrow> Inl LinkLookupError
      | Some i \<Rightarrow> (case present (nth_opt ns i) of None \<Rightarrow> Inl LinkLookupError | Some n \<Rightarrow> lookupLink n ks))"
| "lookupLink (Plain v) (k # ks) = (if v = JNull \<or> v = JUndef then Inl TypeError else Inl LinkLookupError)"
| "lookupLink (Link _) (k # ks) = Inl LinkLookupError"

section \<open>Finding a link without decoding the rest\<close>

definition last_value :: "(jsstring \<times> 'v) list \<Rightarrow> jsstring \<Rightarrow> 'v option" where
  \<comment> \<open>what an object made by these assignments has under a name\<close>
  "last_value kvs k = (if k = js_str ''__proto__'' then None else map_of (rev kvs) k)"

lemma map_of_assign_all: "map_of (assign_all kvs) k = last_value kvs k"
proof -
  have "map_of (fold (\<lambda>(k, v). assign_prop k v) kvs ps) k =
      (if k = js_str ''__proto__'' then map_of ps k else case map_of (rev kvs) k of None \<Rightarrow> map_of ps k | Some v \<Rightarrow> Some v)" for ps
    by (induction kvs arbitrary: ps)
       (auto simp: assign_prop_def map_of_obj_put map_add_def split: option.splits)
  from this [of "[]"] show ?thesis by (simp add: assign_all_def last_value_def split: option.split)
qed

lemma last_value_map:
  assumes "list_all2 (\<lambda>(k, v) (k', n). k' = g k \<and> f v = Inr n) kvs kns"
  shows "case last_value (map (\<lambda>(k, v). (g k, v)) kvs) k of
      None \<Rightarrow> last_value kns k = None | Some v \<Rightarrow> (\<exists>n. last_value kns k = Some n \<and> f v = Inr n)"
proof -
  have "list_all2 (\<lambda>(k, v) (k', n). k' = g k \<and> f v = Inr n) (rev kvs) (rev kns)" using assms by simp
  then have "case map_of (map (\<lambda>(k, v). (g k, v)) (rev kvs)) k of
      None \<Rightarrow> map_of (rev kns) k = None | Some v \<Rightarrow> (\<exists>n. map_of (rev kns) k = Some n \<and> f v = Inr n)"
    by (induction rule: list_all2_induct) (auto split: option.splits)
  then show ?thesis by (cases "k = js_str ''__proto__''") (auto simp: last_value_def rev_map split: option.splits)
qed

lemma map_ok_pairs:
  "map_ok (\<lambda>(k, v). and_then (f v) (\<lambda>n. Inr (g k, n))) kvs = Inr kns \<Longrightarrow>
     list_all2 (\<lambda>(k, v) (k', n). k' = g k \<and> f v = Inr n) kvs kns"
  unfolding map_ok_Inr by (erule list_all2_mono) (auto simp: and_then_Inr)

function find_link :: "location \<Rightarrow> jvalue \<Rightarrow> jsstring option \<Rightarrow> jsstring list \<Rightarrow> js_error + link" where
  \<comment> \<open>the walk on the JSON data: only the objects on the path matter\<close>
  "find_link page data baseUrl [] =
     (if \<not> has_type ''document'' data \<and> has_type ''link'' data then decode_link page data baseUrl else Inl LinkLookupError)"
| "find_link page data baseUrl (k # ks) =
     (case data of
        JObj ps \<Rightarrow>
          if has_type ''document'' data
          then and_then (document_url page data baseUrl) (\<lambda>url.
                 case last_value (map (\<lambda>(k, v). (unescapeKey k, v)) (content_props ps)) k of
                   None \<Rightarrow> Inl LinkLookupError
                 | Some v \<Rightarrow> if v = JUndef then Inl LinkLookupError else find_link page v (Some url) ks)
          else if has_type ''link'' data then Inl LinkLookupError
          else (case last_value ps k of
                  None \<Rightarrow> Inl LinkLookupError
                | Some v \<Rightarrow> if v = JUndef then Inl LinkLookupError else find_link page v baseUrl ks)
      | JArr vs \<Rightarrow>
          (case index_key k of
             None \<Rightarrow> Inl LinkLookupError
           | Some i \<Rightarrow> (case nth_opt vs i of
                         None \<Rightarrow> Inl LinkLookupError
                       | Some v \<Rightarrow> if v = JUndef then Inl LinkLookupError else find_link page v baseUrl ks))
      | JNull \<Rightarrow> Inl TypeError
      | JUndef \<Rightarrow> Inl TypeError
      | _ \<Rightarrow> Inl LinkLookupError)"
  by pat_completeness auto
termination by (relation "measure (\<lambda>(page, v, base, ks). length ks)") simp_all

lemma primitiveToNode_Undef: "primitiveToNode page v base = Inr n \<Longrightarrow> n = Plain JUndef \<longleftrightarrow> v = JUndef"
  by (cases v) (auto simp: primitiveToNode.simps(1) and_then_Inr split: if_splits)

lemma primitiveToNode_UndefD: "primitiveToNode page v base = Inr (Plain JUndef) \<Longrightarrow> v = JUndef"
  using primitiveToNode_Undef by blast

lemma lookup_after_decode:
  "primitiveToNode page data baseUrl = Inr node \<Longrightarrow> lookupLink node keys = find_link page data baseUrl keys"
proof (induction page data baseUrl keys arbitrary: node rule: find_link.induct)
  case (1 page data baseUrl)
  then show ?case by (cases data) (auto simp: primitiveToNode.simps(1) and_then_Inr has_type_def split: if_splits)
next
  case (2 page data baseUrl k ks)
  show ?case
  proof (cases data)
    case (JObj ps)
    have step: "(case present (map_of (assign_all kns) k) of None \<Rightarrow> Inl LinkLookupError | Some n \<Rightarrow> lookupLink n ks) =
        (case last_value (map (\<lambda>(k, v). (g k, v)) kvs) k of
           None \<Rightarrow> Inl LinkLookupError | Some v \<Rightarrow> if v = JUndef then Inl LinkLookupError else find_link page v base' ks)"
      if "map_ok (\<lambda>(k, v). and_then (primitiveToNode page v base') (\<lambda>n. Inr (g k, n))) kvs = Inr kns"
        and ih: "\<And>v n. last_value (map (\<lambda>(k, v). (g k, v)) kvs) k = Some v \<Longrightarrow> v \<noteq> JUndef \<Longrightarrow>
          primitiveToNode page v base' = Inr n \<Longrightarrow> lookupLink n ks = find_link page v base' ks"
      for g kvs kns base'
      using last_value_map [OF map_ok_pairs [OF that(1)], of k] ih
      by (auto simp: map_of_assign_all present_def split: option.splits dest: primitiveToNode_UndefD)
    show ?thesis
    proof (cases "has_type ''document'' data")
      case True
      then obtain url title description kns where
        "document_url page data baseUrl = Inr url" "node = Document url title description (assign_all kns)"
        "map_ok (\<lambda>(k, v). and_then (primitiveToNode page v (Some url)) (\<lambda>n. Inr (unescapeKey k, n))) (content_props ps) = Inr kns"
        using 2(4) JObj by (auto simp: primitiveToNode.simps(1) and_then_Inr)
      note dec = this
      have "find_link page data baseUrl (k # ks) =
          (case last_value (map (\<lambda>(k, v). (unescapeKey k, v)) (content_props ps)) k of
             None \<Rightarrow> Inl LinkLookupError
           | Some v \<Rightarrow> if v = JUndef then Inl LinkLookupError else find_link page v (Some url) ks)"
        using True dec(1) by (simp only: find_link.simps JObj jvalue.case if_True and_then.simps)
      moreover have "lookupLink node (k # ks) =
          (case present (map_of (assign_all kns) k) of None \<Rightarrow> Inl LinkLookupError | Some n \<Rightarrow> lookupLink n ks)"
        by (simp only: dec(2) lookupLink.simps)
      moreover have ih: "lookupLink n ks = find_link page v (Some url) ks"
        if "last_value (map (\<lambda>(k, v). (unescapeKey k, v)) (content_props ps)) k = Some v" "v \<noteq> JUndef"
          "primitiveToNode page v (Some url) = Inr n" for v n
        by (rule 2(2) [OF JObj True dec(1) that])
      ultimately show ?thesis by (simp only:) (rule step [OF dec(3)], rule ih)
    next
      case False
      show ?thesis
      proof (cases "has_type ''link'' data")
        case no_link: False
        then obtain kns where dec: "node = NObj (assign_all kns)"
          "map_ok (\<lambda>(k, v). and_then (primitiveToNode page v baseUrl) (\<lambda>n. Inr (k, n))) ps = Inr kns"
          using 2(4) JObj False by (auto simp: primitiveToNode.simps(1) and_then_Inr)
        have "find_link page data baseUrl (k # ks) =
            (case last_value (map (\<lambda>(k, v). (k, v)) ps) k of
               None \<Rightarrow> Inl LinkLookupError
             | Some v \<Rightarrow> if v = JUndef then Inl LinkLookupError else find_link page v baseUrl ks)"
          using False no_link by (simp only: find_link.simps JObj jvalue.case if_False) simp
        moreover have "lookupLink node (k # ks) =
            (case present (map_of (assign_all kns) k) of None \<Rightarrow> Inl LinkLookupError | Some n \<Rightarrow> lookupLink n ks)"
          by (simp only: dec(1) lookupLink.simps)
        moreover have ih: "lookupLink n ks = find_link page v baseUrl ks"
          if "last_value (map (\<lambda>(k, v). (k, v)) ps) k = Some v" "v \<noteq> JUndef" "primitiveToNode page v baseUrl = Inr n" for v n
          using 2(3) [OF JObj False no_link _ that(2,3)] that(1) by simp
        ultimately show ?thesis by (simp only:) (rule step [OF dec(2)], rule ih)
      qed (use 2(4) JObj False in \<open>auto simp: primitiveToNode.simps(1) and_then_Inr\<close>)
    qed
  next
    case (JArr vs)
    then obtain ns where ns: "node = NArr ns" "list_all2 (\<lambda>v n. primitiveToNode page v baseUrl = Inr n) vs ns"
      using 2(4) by (auto simp: and_then_Inr map_ok_Inr)
    show ?thesis
    proof (cases "index_key k")
      case (Some i)
      show ?thesis
      proof (cases "i < length vs")
        case True
        then have "primitiveToNode page (vs ! i) baseUrl = Inr (ns ! i)" "i < length ns"
          using ns(2) by (auto simp: list_all2_conv_all_nth)
        then show ?thesis using 2(1) JArr ns(1) Some True by (auto simp: present_def primitiveToNode_Undef)
      qed (use JArr ns Some in \<open>auto simp: present_def list_all2_conv_all_nth\<close>)
    qed (use JArr ns(1) in simp)
  qed (use 2(4) in auto)
qed

end
