(* ===== verification/Api_Template.thy ===== *)
theory Api_Template
  imports Api_Values
begin

text \<open>
  URL templates: the module \<open>url-template\<close> of \<open>static/rest_framework/js/coreapi-0.1.1.js\<close>, which the client uses to put
  path parameters into the URL of a link. An operator is \<open>None\<close> for \<open>null\<close>; a modifier is the digits after a
  colon or \<open>*\<close>. The context is an object, so that a name it does not own may still be inherited.
\<close>

section \<open>Encodings\<close>

definition is_hex :: "16 word \<Rightarrow> bool" where
  "is_hex c \<longleftrightarrow> hex_value c \<noteq> None"

fun push_char :: "16 word \<Rightarrow> jsstring list \<Rightarrow> jsstring list" where
  "push_char c (p # ps) = (c # p) # ps"
| "push_char c [] = [[c]]"

fun split_triplets :: "jsstring \<Rightarrow> jsstring list" where
  \<comment> \<open>\<open>str.split(/(%[0-9A-Fa-f]{2})/g)\<close>\<close>
  "split_triplets (c # h # l # s) =
     (if c = 37 \<and> is_hex h \<and> is_hex l then [] # [c, h, l] # split_triplets s else push_char c (split_triplets (h # l # s)))"
| "split_triplets s = [s]"

fun has_escape :: "jsstring \<Rightarrow> bool" where
  \<comment> \<open>\<open>/%[0-9A-Fa-f]/.test(part)\<close>\<close>
  "has_escape (c # h # s) \<longleftrightarrow> c = 37 \<and> is_hex h \<or> has_escape (h # s)"
| "has_escape _ \<longleftrightarrow> False"

fun replace_triplet :: "jsstring \<Rightarrow> 16 word \<Rightarrow> jsstring \<Rightarrow> jsstring" where
  \<comment> \<open>\<open>replace(/t/g, r)\<close> for a triplet \<open>t\<close>\<close>
  "replace_triplet t r (c # h # l # s) =
     (if [c, h, l] = t then r # replace_triplet t r s else c # replace_triplet t r (h # l # s))"
| "replace_triplet t r s = s"

definition encode_part :: "jsstring \<Rightarrow> jsstring option" where
  "encode_part part =
     (if has_escape part then Some part
      else map_option (\<lambda>e. replace_triplet (js_str ''%5D'') (cu CHR '']'') (replace_triplet (js_str ''%5B'') (cu CHR ''['') e))
             (encodeURI part))"

definition encodeReserved :: "jsstring \<Rightarrow> js_error + jsstring" where
  "encodeReserved str =
     and_then (map_ok (\<lambda>part. or_error URIError (encode_part part)) (split_triplets str)) (\<lambda>parts. Inr (concat parts))"

definition encodeUnreserved :: "jsstring \<Rightarrow> js_error + jsstring" where
  "encodeUnreserved str =
     and_then (or_error URIError (encodeURIComponent str)) (\<lambda>e.
       Inr (concat (map (\<lambda>c. if js_in c ''!()*'' \<or> c = 39 then percent (unat c) else [c]) e)))"

definition encodeValue :: "16 word option \<Rightarrow> jvalue \<Rightarrow> jsstring option \<Rightarrow> js_error + jsstring" where
  \<comment> \<open>\<open>encodeReserved\<close> calls \<open>split\<close>, which only strings have\<close>
  "encodeValue operator value key =
     and_then (if operator = Some (cu CHR ''+'') \<or> operator = Some (cu CHR ''#'')
               then (case value of JStr s \<Rightarrow> encodeReserved s | _ \<Rightarrow> Inl TypeError)
               else and_then (to_string value) encodeUnreserved) (\<lambda>v.
       case key of None \<Rightarrow> Inr v
       | Some k \<Rightarrow> if k = [] then Inr v else and_then (encodeUnreserved k) (\<lambda>k'. Inr (k' @ 61 # v)))"

definition isDefined :: "jvalue \<Rightarrow> bool" where
  "isDefined value \<longleftrightarrow> value \<noteq> JUndef \<and> value \<noteq> JNull"

definition isKeyOperator :: "16 word option \<Rightarrow> bool" where
  "isKeyOperator operator \<longleftrightarrow>
     operator = Some (cu CHR '';'') \<or> operator = Some (cu CHR ''&'') \<or> operator = Some (cu CHR ''?'')"

section \<open>Expressions\<close>

definition context_value :: "jvalue props \<Rightarrow> jsstring \<Rightarrow> jvalue" where
  \<comment> \<open>\<open>context[key]\<close>; an inherited function has no own enumerable properties\<close>
  "context_value context key =
     (case map_of context key of Some v \<Rightarrow> v | None \<Rightarrow> if inherited key then JObj [] else JUndef)"

fun digits_value :: "jsstring \<Rightarrow> nat \<Rightarrow> nat" where
  \<comment> \<open>\<open>parseInt(modifier, 10)\<close> on digits\<close>
  "digits_value [] n = n"
| "digits_value (c # s) n = digits_value s (10 * n + (unat c - 48))"

definition star :: "jsstring option" where
  "star = Some (js_str ''*'')"

definition scalar_values :: "16 word option \<Rightarrow> jsstring \<Rightarrow> jsstring option \<Rightarrow> jsstring \<Rightarrow> js_error + jsstring list" where
  "scalar_values operator key modifier value =
     (let value = (case modifier of None \<Rightarrow> value | Some m \<Rightarrow> if modifier = star then value else take (digits_value m 0) value)
      in and_then (encodeValue operator (JStr value) (if isKeyOperator operator then Some key else None)) (\<lambda>v. Inr [v]))"

definition exploded_values :: "16 word option \<Rightarrow> jsstring \<Rightarrow> jvalue \<Rightarrow> js_error + jsstring list" where
  \<comment> \<open>with the modifier \<open>*\<close>\<close>
  "exploded_values operator key value =
     (case value of
        JArr vs \<Rightarrow> map_ok (\<lambda>v. encodeValue operator v (if isKeyOperator operator then Some key else None)) (filter isDefined vs)
      | JObj ps \<Rightarrow> map_ok (\<lambda>(k, v). encodeValue operator v (Some k)) (filter (\<lambda>(k, v). isDefined v) ps)
      | _ \<Rightarrow> Inr [])"

definition joined_values :: "16 word option \<Rightarrow> jvalue \<Rightarrow> js_error + jsstring list" where
  \<comment> \<open>the array \<open>tmp\<close>\<close>
  "joined_values operator value =
     (case value of
        JArr vs \<Rightarrow> map_ok (\<lambda>v. encodeValue operator v None) (filter isDefined vs)
      | JObj ps \<Rightarrow> and_then (map_ok (\<lambda>(k, v).
            and_then (encodeUnreserved k) (\<lambda>k'. and_then (to_string v) (\<lambda>s.
              and_then (encodeValue operator (JStr s) None) (\<lambda>v'. Inr [k', v'])))) (filter (\<lambda>(k, v). isDefined v) ps))
            (\<lambda>kvs. Inr (concat kvs))
      | _ \<Rightarrow> Inr [])"

definition getValues :: "jvalue props \<Rightarrow> 16 word option \<Rightarrow> jsstring \<Rightarrow> jsstring option \<Rightarrow> js_error + jsstring list" where
  "getValues context operator key modifier =
     (let value = context_value context key
      in if isDefined value \<and> value \<noteq> JStr []
         then (case value of
                 JStr s \<Rightarrow> scalar_values operator key modifier s
               | JNum n \<Rightarrow> scalar_values operator key modifier n
               | JBool b \<Rightarrow> scalar_values operator key modifier (js_str (if b then ''true'' else ''false''))
               | _ \<Rightarrow>
                   if modifier = star then exploded_values operator key value
                   else and_then (joined_values operator value) (\<lambda>tmp.
                          if isKeyOperator operator
                          then and_then (encodeUnreserved key) (\<lambda>k. Inr [k @ 61 # join_with (js_str '','') tmp])
                          else Inr (if tmp \<noteq> [] then [join_with (js_str '','') tmp] else [])))
         else if operator = Some (cu CHR '';'')
              then (if isDefined value then and_then (encodeUnreserved key) (\<lambda>k. Inr [k]) else Inr [])
              else if value = JStr [] \<and> (operator = Some (cu CHR ''&'') \<or> operator = Some (cu CHR ''?''))
              then and_then (encodeUnreserved key) (\<lambda>k. Inr [k @ [61]])
              else Inr (if value = JStr [] then [[]] else []))"

section \<open>Templates\<close>

datatype piece = Expr jsstring | Literal jsstring | Brace "16 word"

definition no_brace :: "16 word \<Rightarrow> bool" where
  "no_brace c \<longleftrightarrow> c \<noteq> cu CHR ''{'' \<and> c \<noteq> cu CHR ''}''"

function pieces :: "jsstring \<Rightarrow> piece list" where
  \<comment> \<open>the matches of \<open>/\{([^\{\}]+)\}|([^\{\}]+)/g\<close>, and the braces between them, which \<open>replace\<close> keeps\<close>
  "pieces [] = []"
| "pieces (c # s) =
     (if c = cu CHR ''{''
      then (let run = takeWhile no_brace s; rest = dropWhile no_brace s
            in if run \<noteq> [] \<and> rest \<noteq> [] \<and> hd rest = cu CHR ''}'' then Expr run # pieces (tl rest) else Brace c # pieces s)
      else if c = cu CHR ''}'' then Brace c # pieces s
      else Literal (c # takeWhile no_brace s) # pieces (dropWhile no_brace s))"
  by pat_completeness auto
termination
proof (relation "measure length")
  fix c :: "16 word" and s run rest :: jsstring
  assume "rest = dropWhile no_brace s"
  then show "(tl rest, c # s) \<in> measure length" using length_dropWhile_le [of no_brace s] by auto
qed (auto simp: le_imp_less_Suc length_dropWhile_le)

declare pieces.simps(2) [simp del]

definition operators :: string where
  "operators = ''+#./;?&''"

definition variable_parts :: "jsstring \<Rightarrow> jsstring \<times> jsstring option" where
  \<comment> \<open>\<open>/([^:\*]*)(?::(\d+)|(\*))?/.exec(variable)\<close>: the name and \<open>tmp[2] || tmp[3]\<close>\<close>
  "variable_parts v =
     (let name = takeWhile (\<lambda>c. c \<noteq> cu CHR '':'' \<and> c \<noteq> cu CHR ''*'') v;
          rest = dropWhile (\<lambda>c. c \<noteq> cu CHR '':'' \<and> c \<noteq> cu CHR ''*'') v
      in (name, case rest of
                  [] \<Rightarrow> None
                | c # t \<Rightarrow> if c = cu CHR ''*'' then star
                          else if takeWhile is_digit t \<noteq> [] then Some (takeWhile is_digit t) else None))"

definition expand_expression :: "jvalue props \<Rightarrow> jsstring \<Rightarrow> js_error + jsstring" where
  "expand_expression context expression =
     (let operator = (if js_in (hd expression) operators then Some (hd expression) else None);
          expression = (if operator = None then expression else tl expression)
      in and_then (map_ok (\<lambda>variable. case variable_parts variable of (name, modifier) \<Rightarrow> getValues context operator name modifier)
                     (split_on (cu CHR '','') expression)) (\<lambda>vss.
           let values = concat vss
           in case operator of
                None \<Rightarrow> Inr (join_with (js_str '','') values)
              | Some c \<Rightarrow>
                  if c = cu CHR ''+'' then Inr (join_with (js_str '','') values)
                  else let separator = (if c = cu CHR ''?'' then js_str ''&'' else if c \<noteq> cu CHR ''#'' then [c] else js_str '','')
                       in Inr ((if values \<noteq> [] then [c] else []) @ join_with separator values)))"

fun expand_piece :: "jvalue props \<Rightarrow> piece \<Rightarrow> js_error + jsstring" where
  "expand_piece context (Expr expression) = expand_expression context expression"
| "expand_piece context (Literal literal) = encodeReserved literal"
| "expand_piece context (Brace c) = Inr [c]"

definition expand :: "jsstring \<Rightarrow> jvalue props \<Rightarrow> js_error + jsstring" where
  "expand template context = and_then (map_ok (expand_piece context) (pieces template)) (\<lambda>parts. Inr (concat parts))"

section \<open>Values are harmless\<close>

text \<open>
  The characters that structure a URL. A simple expression, one without an operator, cannot add any of them, and the
  encoding of a literal keeps those that the template has.
\<close>

definition delimiter :: "16 word \<Rightarrow> bool" where
  "delimiter c \<longleftrightarrow> js_in c ''/?#&:@;+$''"

definition harmless :: "jsstring \<Rightarrow> bool" where
  "harmless s \<longleftrightarrow> filter delimiter s = []"

lemma harmless_append [simp]: "harmless (s @ t) \<longleftrightarrow> harmless s \<and> harmless t"
  by (simp add: harmless_def)

lemma harmless_Nil [simp]: "harmless []"
  by (simp add: harmless_def)

lemma harmless_Cons [simp]: "harmless (c # s) \<longleftrightarrow> \<not> delimiter c \<and> harmless s"
  by (simp add: harmless_def)

lemma harmless_join: "harmless sep \<Longrightarrow> \<forall>p \<in> set ps. harmless p \<Longrightarrow> harmless (join_with sep ps)"
  by (induction sep ps rule: join_with.induct) auto

lemma harmless_concat [simp]: "harmless (concat ss) \<longleftrightarrow> (\<forall>s \<in> set ss. harmless s)"
  by (induction ss) auto

lemma harmless_iff: "harmless s \<longleftrightarrow> (\<forall>c \<in> set s. \<not> delimiter c)"
  by (induction s) auto

lemma not_delimiter:
  "is_alnum c \<Longrightarrow> \<not> delimiter c" "\<not> delimiter 37" "\<not> delimiter 44" "\<not> delimiter 61" "uri_unescaped c \<Longrightarrow> \<not> delimiter c"
  by (auto simp: delimiter_def js_in_def js_str_def uri_unescaped_def uri_mark_def is_alnum_def is_upper_def is_lower_def is_digit_def)

lemma reserved_delimiter: "delimiter c \<Longrightarrow> uri_reserved c"
  by (auto simp: delimiter_def uri_reserved_def js_in_def js_str_def)

definition unreserved :: "16 word \<Rightarrow> bool" where
  "unreserved c \<longleftrightarrow> uri_unescaped c \<and> \<not> (js_in c ''!()*'' \<or> c = 39)"

lemma mark_escaped:
  assumes "js_in c ''!()*'' \<or> c = 39" shows "octets (unat c) = percent (unat c)" "uri_unescaped c" "\<not> is_low c" "\<not> is_high c"
  using assms by (auto simp: js_in_def js_str_def octets_def utf8_def uri_unescaped_def uri_mark_def is_low_def is_high_def)

lemma concat_map_single: "(\<And>x. x \<in> set xs \<Longrightarrow> f x = [x]) \<Longrightarrow> concat (map f xs) = xs"
  by (induction xs) auto

lemma octets_unmarked:
  assumes "n \<le> 1114111"
  shows "concat (map (\<lambda>c. if js_in c ''!()*'' \<or> c = 39 then percent (unat c) else [c]) (octets n)) = octets n"
proof -
  have "\<not> (js_in c ''!()*'' \<or> c = 39)" if "c \<in> set (octets n)" for c
    using octets_chars [OF assms that] by (auto simp: js_in_def js_str_def is_alnum_def is_upper_def is_lower_def is_digit_def)
  then show ?thesis by (intro concat_map_single) simp
qed

definition escape_marks :: "jsstring \<Rightarrow> jsstring" where
  "escape_marks e = concat (map (\<lambda>c. if js_in c ''!()*'' \<or> c = 39 then percent (unat c) else [c]) e)"

lemma escape_marks_append: "escape_marks (s @ t) = escape_marks s @ escape_marks t"
  by (simp add: escape_marks_def)

lemma escape_marks_encode:
  "keep = uri_unescaped \<Longrightarrow> encode_uri unreserved s = map_option escape_marks (encode_uri keep s)"
proof (induction keep s rule: encode_uri.induct)
  case (2 keep c s)
  have u: "unat c < 65536" using unsigned_less [of c] by simp
  have o: "escape_marks (octets n) = octets n" if "n \<le> 1114111" for n
    using octets_unmarked [OF that] by (simp add: escape_marks_def)
  consider "unreserved c" | "uri_unescaped c" "js_in c ''!()*'' \<or> c = 39" | "\<not> uri_unescaped c" by (auto simp: unreserved_def)
  then show ?case
  proof cases
    case c: 1
    then have "escape_marks (c # e) = c # escape_marks e" for e by (auto simp: escape_marks_def unreserved_def)
    then show ?thesis using c 2 by (auto simp: option.map_comp o_def unreserved_def)
  next
    case c: 2
    then have "escape_marks (c # e) = octets (unat c) @ escape_marks e" for e
      using mark_escaped(1) [OF c(2)] by (auto simp: escape_marks_def)
    then show ?thesis using c 2 mark_escaped [OF c(2)] by (auto simp: option.map_comp o_def unreserved_def)
  next
    case c: 3
    then have "\<not> unreserved c" by (simp add: unreserved_def)
    then show ?thesis using c 2 u o [of "unat c"] pair_value_range
      by (auto simp: option.map_comp o_def escape_marks_append o split: list.split)
  qed
qed (simp add: escape_marks_def)

lemma encodeUnreserved_eq: "encodeUnreserved s = or_error URIError (encode_uri unreserved s)"
  unfolding escape_marks_encode [OF refl] encodeUnreserved_def encodeURIComponent_def escape_marks_def [symmetric]
  by (cases "encode_uri uri_unescaped s") simp_all

lemma encodeUnreserved_harmless: "encodeUnreserved s = Inr e \<Longrightarrow> harmless e"
  unfolding encodeUnreserved_eq harmless_iff
  by (auto dest!: encode_chars simp: unreserved_def not_delimiter)

lemma encodeValue_harmless: "encodeValue None v key = Inr e \<Longrightarrow> harmless e"
  by (auto simp: encodeValue_def and_then_Inr not_delimiter dest!: encodeUnreserved_harmless split: option.splits if_splits)

lemma map_ok_mem: "map_ok f xs = Inr ys \<Longrightarrow> y \<in> set ys \<Longrightarrow> \<exists>x \<in> set xs. f x = Inr y"
  unfolding map_ok_Inr by (induction xs ys rule: list_all2_induct) auto

lemma map_ok_harmless:
  "map_ok f xs = Inr ys \<Longrightarrow> (\<And>x y. f x = Inr y \<Longrightarrow> harmless y) \<Longrightarrow> v \<in> set ys \<Longrightarrow> harmless v"
  by (blast dest: map_ok_mem)

lemma joined_harmless:
  assumes "joined_values None val = Inr vs" shows "\<forall>v \<in> set vs. harmless v"
proof (cases val)
  case (JArr ws)
  then show ?thesis using assms by (auto simp: joined_values_def dest!: map_ok_mem dest: encodeValue_harmless)
next
  case (JObj ps)
  let ?f = "\<lambda>(k, v). and_then (encodeUnreserved k) (\<lambda>k'. and_then (to_string v) (\<lambda>s.
              and_then (encodeValue None (JStr s) None) (\<lambda>v'. Inr [k', v'])))"
  obtain kvs where kvs: "map_ok ?f (filter (\<lambda>(k, v). isDefined v) ps) = Inr kvs" "vs = concat kvs"
    using assms JObj by (auto simp: joined_values_def and_then_Inr)
  have "\<forall>v \<in> set kv. harmless v" if kv: "kv \<in> set kvs" for kv
  proof -
    obtain p where "?f p = Inr kv" using map_ok_mem [OF kvs(1) kv] by blast
    then show ?thesis by (cases p) (auto simp: and_then_Inr dest: encodeUnreserved_harmless encodeValue_harmless)
  qed
  then show ?thesis by (auto simp: kvs(2))
qed (use assms in \<open>auto simp: joined_values_def\<close>)

lemma exploded_harmless:
  assumes "exploded_values None key val = Inr vs" shows "\<forall>v \<in> set vs. harmless v"
  using assms by (cases val) (auto simp: exploded_values_def dest!: map_ok_mem dest: encodeValue_harmless)

lemma scalar_harmless:
  assumes "scalar_values None key m val = Inr vs" shows "\<forall>v \<in> set vs. harmless v"
  using assms by (auto simp: scalar_values_def Let_def and_then_Inr dest: encodeValue_harmless)

lemma getValues_harmless:
  assumes "getValues ctx None key m = Inr vs" shows "\<forall>v \<in> set vs. harmless v"
proof -
  have comma: "harmless (js_str '','')" by (simp add: js_str_def not_delimiter)
  have join: "harmless (join_with (js_str '','') ws)" if "joined_values None v = Inr ws" for v ws
    by (rule harmless_join [OF comma joined_harmless [OF that]])
  show ?thesis using assms
    by (auto simp: getValues_def Let_def and_then_Inr isKeyOperator_def join split: if_splits jvalue.splits
        dest: scalar_harmless exploded_harmless)
qed

lemma filter_encode_uri:
  assumes "encode_uri keep s = Some e" "\<And>c. delimiter c \<Longrightarrow> keep c"
  shows "filter delimiter e = filter delimiter s"
  using assms
proof (induction keep s arbitrary: e rule: encode_uri.induct)
  case (2 keep c s)
  have o: "filter delimiter (octets n) = []" if "n \<le> 1114111" for n
    by (auto simp: filter_empty_conv not_delimiter dest!: octets_chars [OF that])
  have u: "unat c < 65536" using unsigned_less [of c] by simp
  consider "keep c" | "\<not> keep c" "is_high c" "\<not> is_low c" | "\<not> keep c" "\<not> is_high c" "\<not> is_low c"
    using 2 by (auto split: if_splits)
  then show ?case
  proof cases
    case 2: 2
    then obtain d s' e' where s: "s = d # s'" "is_low d" "encode_uri keep s' = Some e'" "e = octets (pair_value c d) @ e'"
      using "2.prems" by (auto split: list.splits if_splits)
    have "\<not> delimiter d" using s(2) by (auto simp: delimiter_def js_in_def js_str_def is_low_def)
    then show ?thesis using s 2 "2.prems" "2.IH" pair_value_range [OF 2(2) s(2)] o by auto
  qed (use 2 u o [of "unat c"] in auto)
qed simp

lemma filter_replace_triplet: "harmless t \<Longrightarrow> \<not> delimiter r \<Longrightarrow> filter delimiter (replace_triplet t r s) = filter delimiter s"
  by (induction t r s rule: replace_triplet.induct) (auto split: if_splits)

lemma concat_split_triplets: "concat (split_triplets s) = s"
proof -
  have push: "concat (push_char c ps) = c # concat ps" for c ps by (cases ps) auto
  show ?thesis by (induction s rule: split_triplets.induct) (auto simp: push)
qed

lemma filter_encode_part:
  assumes "encode_part p = Some e" shows "filter delimiter e = filter delimiter p"
proof (cases "has_escape p")
  case False
  have b: "harmless (js_str ''%5B'')" "harmless (js_str ''%5D'')" "\<not> delimiter (cu CHR ''['')" "\<not> delimiter (cu CHR '']'')"
    by (simp_all add: js_str_def js_in_def delimiter_def)
  obtain e' where e': "encodeURI p = Some e'" "filter delimiter e = filter delimiter e'"
    using assms False b by (auto simp: encode_part_def filter_replace_triplet)
  then show ?thesis using filter_encode_uri [of _ p e'] by (auto simp: encodeURI_def reserved_delimiter)
qed (use assms in \<open>simp add: encode_part_def\<close>)

lemma filter_encodeReserved:
  assumes "encodeReserved s = Inr e" shows "filter delimiter e = filter delimiter s"
proof -
  obtain parts where p: "list_all2 (\<lambda>p q. encode_part p = Some q) (split_triplets s) parts" "e = concat parts"
    using assms by (auto simp: encodeReserved_def and_then_Inr map_ok_Inr)
  from p(1) have "filter delimiter (concat parts) = filter delimiter (concat (split_triplets s))"
    by (induction rule: list_all2_induct) (auto dest: filter_encode_part)
  then show ?thesis by (simp add: p(2) concat_split_triplets)
qed

lemma filter_harmless: "harmless s \<Longrightarrow> filter delimiter s = []"
  by (simp add: harmless_def)

lemma expand_expression_harmless:
  assumes "expand_expression context e = Inr r" "\<not> js_in (hd e) operators" shows "harmless r"
proof -
  have comma: "harmless (js_str '','')" by (simp add: js_str_def not_delimiter)
  obtain vss where vss: "map_ok (\<lambda>v. case variable_parts v of (name, modifier) \<Rightarrow> getValues context None name modifier)
      (split_on (cu CHR '','') e) = Inr vss" "r = join_with (js_str '','') (concat vss)"
    using assms by (auto simp: expand_expression_def and_then_Inr Let_def)
  have "\<forall>v \<in> set vs. harmless v" if vs: "vs \<in> set vss" for vs
  proof -
    obtain v where "(case variable_parts v of (name, modifier) \<Rightarrow> getValues context None name modifier) = Inr vs"
      using map_ok_mem [OF vss(1) vs] by blast
    then show ?thesis by (cases "variable_parts v") (simp add: getValues_harmless)
  qed
  then show ?thesis unfolding vss(2) by (intro harmless_join [OF comma]) auto
qed

fun literal :: "piece \<Rightarrow> jsstring" where
  "literal (Expr e) = []"
| "literal (Literal l) = l"
| "literal (Brace c) = [c]"

definition simple_template :: "jsstring \<Rightarrow> bool" where
  "simple_template template \<longleftrightarrow> (\<forall>p \<in> set (pieces template). case p of Expr e \<Rightarrow> \<not> js_in (hd e) operators | _ \<Rightarrow> True)"

lemma expand_filter:
  assumes "expand template context = Inr r" "simple_template template"
  shows "filter delimiter r = filter delimiter (concat (map literal (pieces template)))"
proof -
  obtain parts where p: "list_all2 (\<lambda>p q. expand_piece context p = Inr q) (pieces template) parts" "r = concat parts"
    using assms by (auto simp: expand_def and_then_Inr map_ok_Inr)
  have "\<forall>p \<in> set (pieces template). case p of Expr e \<Rightarrow> \<not> js_in (hd e) operators | _ \<Rightarrow> True"
    using assms(2) by (simp add: simple_template_def)
  with p(1) have "filter delimiter (concat parts) = filter delimiter (concat (map literal (pieces template)))"
  proof (induction rule: list_all2_induct)
    case (Cons p ps q qs)
    then have "filter delimiter q = filter delimiter (literal p)"
      by (cases p) (auto dest: expand_expression_harmless filter_encodeReserved filter_harmless)
    then show ?case using Cons by simp
  qed simp
  then show ?thesis by (simp add: p(2))
qed

section \<open>A path parameter can be read back\<close>

lemma decode_unreserved: "encodeUnreserved s = Inr e \<Longrightarrow> decodeURIComponent e = Some s"
  using decode_encode_all [of unreserved s e]
  by (simp add: encodeUnreserved_eq unreserved_def uri_unescaped_def uri_mark_def is_alnum_def is_upper_def is_lower_def
      is_digit_def js_in_def js_str_def)

definition plain_name :: "jsstring \<Rightarrow> bool" where
  \<comment> \<open>the name of a variable\<close>
  "plain_name name \<longleftrightarrow> name \<noteq> [] \<and> \<not> js_in (hd name) operators \<and> (\<forall>c \<in> set name. no_brace c \<and> \<not> js_in c '',:*'')"

lemma pieces_variable:
  assumes "\<forall>c \<in> set pre. no_brace c" "plain_name name" "\<forall>c \<in> set post. no_brace c"
  shows "pieces (pre @ js_str ''{'' @ name @ js_str ''}'' @ post) =
     (if pre = [] then [] else [Literal pre]) @ [Expr name] @ (if post = [] then [] else [Literal post])"
proof -
  have close: "\<not> no_brace (cu CHR ''}'')" "\<not> no_brace (cu CHR ''{'')" by (simp_all add: no_brace_def)
  have post: "pieces post = (if post = [] then [] else [Literal post])"
  proof (cases post)
    case (Cons c s)
    then have "takeWhile no_brace s = s" "dropWhile no_brace s = []" "no_brace c"
      using assms(3) by (simp_all add: takeWhile_eq_all_conv dropWhile_eq_Nil_conv)
    then show ?thesis using Cons
      by (simp add: pieces.simps(2) no_brace_def [of c] del: takeWhile_eq_all_conv dropWhile_eq_Nil_conv)
  qed simp
  have "\<forall>c \<in> set name. no_brace c" using assms(2) by (auto simp: plain_name_def)
  then have mid: "pieces (js_str ''{'' @ name @ js_str ''}'' @ post) = Expr name # pieces post"
    using assms(2) close by (simp add: pieces.simps(2) js_str_def takeWhile_append2 dropWhile_append2 plain_name_def)
  show ?thesis
  proof (cases pre)
    case (Cons c s)
    then show ?thesis using assms(1) close mid post
      by (simp add: pieces.simps(2) [of c] no_brace_def [of c] takeWhile_append2 dropWhile_append2 js_str_def)
  qed (use mid post in simp)
qed

lemma expand_variable:
  assumes "\<forall>c \<in> set pre. no_brace c" "plain_name name" "\<forall>c \<in> set post. no_brace c"
    "map_of context name = Some (JStr s)" "s \<noteq> []"
    "expand (pre @ js_str ''{'' @ name @ js_str ''}'' @ post) context = Inr r"
  shows "\<exists>p e q. encodeReserved pre = Inr p \<and> encodeUnreserved s = Inr e \<and> encodeReserved post = Inr q \<and> r = p @ e @ q"
proof -
  have "cu CHR '','' \<notin> set name" using assms(2) by (auto simp: plain_name_def js_in_def js_str_def)
  then have sp: "split_on 44 name = [name]" using split_on_none [of 44 name] by simp
  have "\<forall>c \<in> set name. c \<noteq> cu CHR '':'' \<and> c \<noteq> cu CHR ''*''" using assms(2) by (auto simp: plain_name_def js_in_def js_str_def)
  then have vp: "variable_parts name = (name, None)"
    by (simp add: variable_parts_def takeWhile_eq_all_conv [THEN iffD2] dropWhile_eq_Nil_conv [THEN iffD2])
  have gv: "getValues context None name None = and_then (encodeUnreserved s) (\<lambda>v. Inr [v])"
    using assms(4,5)
    by (cases "encodeUnreserved s")
       (simp_all add: getValues_def context_value_def isDefined_def scalar_values_def encodeValue_def isKeyOperator_def)
  have ex: "expand_expression context name = encodeUnreserved s"
    using assms(2) by (cases "encodeUnreserved s") (simp_all add: expand_expression_def plain_name_def sp vp gv)
  have nil: "encodeReserved [] = Inr []"
    by (simp add: encodeReserved_def encode_part_def encodeURI_def)
  show ?thesis
    using assms(6) unfolding expand_def pieces_variable [OF assms(1-3)]
    by (auto simp: and_then_Inr ex nil split: if_splits)
qed

section \<open>Literal characters stay\<close>

definition plain_char :: "16 word \<Rightarrow> bool" where
  \<comment> \<open>a character that no encoding changes\<close>
  "plain_char c \<longleftrightarrow> (uri_unescaped c \<or> uri_reserved c) \<and> no_brace c \<and> c \<noteq> 37"

lemma split_triplets_not_Nil [simp]: "split_triplets s \<noteq> []"
proof -
  have "push_char c ps \<noteq> []" for c ps by (cases ps) auto
  then show ?thesis by (induction s rule: split_triplets.induct) auto
qed

lemma split_triplets_plain: "c \<noteq> 37 \<Longrightarrow> split_triplets (c # s) = push_char c (split_triplets s)"
  by (cases s; cases "tl s") auto

lemma replace_triplet_plain: "c \<noteq> hd t \<Longrightarrow> replace_triplet t r (c # s) = c # replace_triplet t r s"
  by (cases s; cases "tl s") auto

lemma has_escape_plain: "c \<noteq> 37 \<Longrightarrow> has_escape (c # s) \<longleftrightarrow> has_escape s"
  by (cases s) auto

lemma encode_part_plain: "plain_char c \<Longrightarrow> encode_part (c # s) = map_option ((#) c) (encode_part s)"
  by (auto simp: encode_part_def plain_char_def has_escape_plain encodeURI_def replace_triplet_plain js_str_def option.map_comp o_def)

lemma encodeReserved_plain: "plain_char c \<Longrightarrow> encodeReserved (c # s) = and_then (encodeReserved s) (\<lambda>e. Inr (c # e))"
proof -
  assume c: "plain_char c"
  obtain p ps where s: "split_triplets s = p # ps" by (cases "split_triplets s") auto
  then show ?thesis using c
    by (cases "encode_part p"; cases "map_ok (\<lambda>part. or_error URIError (encode_part part)) ps")
       (simp_all add: encodeReserved_def split_triplets_plain plain_char_def [of c] encode_part_plain)
qed

lemma expand_plain: "plain_char c \<Longrightarrow> expand (c # s) context = and_then (expand s context) (\<lambda>e. Inr (c # e))"
proof -
  assume c: "plain_char c"
  then have nb: "no_brace c" by (simp add: plain_char_def)
  have nil: "encodeReserved [] = Inr []" by (simp add: encodeReserved_def encode_part_def encodeURI_def)
  have first: "pieces (c # s) = Literal (c # takeWhile no_brace s) # pieces (dropWhile no_brace s)"
    using nb by (simp add: pieces.simps(2) no_brace_def [of c])
  show ?thesis
  proof (cases "s = [] \<or> \<not> no_brace (hd s)")
    case True
    then have "takeWhile no_brace s = []" "dropWhile no_brace s = s" by (cases s; simp)+
    then show ?thesis
      by (cases "map_ok (expand_piece context) (pieces s)") (simp_all add: expand_def first encodeReserved_plain [OF c] nil)
  next
    case False
    then obtain d u where s: "s = d # u" "no_brace d" by (cases s) auto
    then have "pieces s = Literal (takeWhile no_brace s) # pieces (dropWhile no_brace s)"
      by (simp add: pieces.simps(2) no_brace_def [of d])
    then show ?thesis
      by (cases "encodeReserved (takeWhile no_brace s)"; cases "map_ok (expand_piece context) (pieces (dropWhile no_brace s))")
         (simp_all add: expand_def first encodeReserved_plain [OF c])
  qed
qed

lemma expand_plain_prefix:
  "\<forall>c \<in> set pre. plain_char c \<Longrightarrow> expand (pre @ s) context = and_then (expand s context) (\<lambda>e. Inr (pre @ e))"
proof (induction pre)
  case Nil
  show ?case by (cases "expand s context") simp_all
next
  case (Cons c pre)
  then show ?case by (cases "expand s context") (simp_all add: expand_plain)
qed

end
