(* ===== verification/Api_Client.thy ===== *)
theory Api_Client
  imports Api_Document Api_Template
begin

text \<open>
  The client of \<open>static/rest_framework/js/coreapi-0.1.1.js\<close>: the modules \<open>auth\<close>, \<open>utils\<close>, \<open>transports/http\<close> and
  \<open>client\<close>. A request is a value; the function that sends it, \<open>fetch\<close>, and \<open>JSON.parse\<close> and \<open>btoa\<close> are
  parameters. The body of a JSON request is the value that \<open>JSON.stringify\<close> is given, a multipart body the list of its
  entries. The two callbacks only observe and are left out. A rejected promise is an error.
\<close>

section \<open>Requests\<close>

datatype body = JSONBody jvalue | FormData "jvalue props" | TextBody jsstring

record request =
  r_method :: jsstring
  r_headers :: "jsstring props"
  r_body :: "body option"
  r_credentials :: "jsstring option"

section \<open>Authentication\<close>

datatype auth =
  BasicAuthentication jsstring
| TokenAuthentication jsstring jsstring
| SessionAuthentication "jsstring option" jsstring
  \<comment> \<open>\<open>auth\<close>; \<open>scheme\<close> and \<open>token\<close>; \<open>csrfToken\<close> (which may be \<open>null\<close>) and \<open>csrfHeaderName\<close>\<close>

definition new_Basic :: "(jsstring \<Rightarrow> jsstring) \<Rightarrow> jsstring \<Rightarrow> jsstring \<Rightarrow> auth" where
  "new_Basic btoa username password = BasicAuthentication (js_str ''Basic '' @ btoa (username @ js_str '':'' @ password))"

definition new_Token :: "jsstring \<Rightarrow> jsstring \<Rightarrow> auth" where
  "new_Token token scheme = TokenAuthentication (or_else scheme (js_str ''Bearer'')) token"

definition is_space :: "16 word \<Rightarrow> bool" where
  \<comment> \<open>\<open>\s\<close>\<close>
  "is_space c \<longleftrightarrow>
     c \<in> {9, 10, 11, 12, 13, 32, 0xA0, 0x1680, 0x2028, 0x2029, 0x202F, 0x205F, 0x3000, 0xFEFF} \<or> 0x2000 \<le> unat c \<and> unat c \<le> 0x200A"

definition trim :: "jsstring \<Rightarrow> jsstring" where
  "trim s = rev (dropWhile is_space (rev (dropWhile is_space s)))"

fun find_cookie :: "jsstring \<Rightarrow> jsstring list \<Rightarrow> js_error + jsstring option" where
  "find_cookie name [] = Inr None"
| "find_cookie name (c # cs) =
     (let cookie = trim c
      in if take (length name + 1) cookie = name @ js_str ''=''
         then and_then (or_error URIError (decodeURIComponent (drop (length name + 1) cookie))) (\<lambda>v. Inr (Some v))
         else find_cookie name cs)"

definition getCookie :: "jsstring \<Rightarrow> jsstring \<Rightarrow> jsstring \<Rightarrow> js_error + jsstring option" where
  \<comment> \<open>\<open>documentCookie\<close> is \<open>window.document.cookie\<close>\<close>
  "getCookie documentCookie cookieName cookieString =
     (let cookies = or_else cookieString documentCookie
      in if cookies \<noteq> [] then find_cookie cookieName (split_on (cu CHR '';'') cookies) else Inr None)"

definition new_Session :: "jsstring \<Rightarrow> jsstring \<Rightarrow> jsstring \<Rightarrow> jsstring \<Rightarrow> js_error + auth" where
  "new_Session documentCookie csrfCookieName cookieString csrfHeaderName =
     and_then (getCookie documentCookie csrfCookieName cookieString) (\<lambda>token. Inr (SessionAuthentication token csrfHeaderName))"

definition csrfSafeMethod :: "jsstring \<Rightarrow> bool" where
  "csrfSafeMethod method \<longleftrightarrow> method \<in> set (map js_str [''GET'', ''HEAD'', ''OPTIONS'', ''TRACE''])"

definition set_header :: "jsstring \<Rightarrow> jsstring \<Rightarrow> request \<Rightarrow> request" where
  "set_header k v options = options\<lparr>r_headers := assign_prop k v (r_headers options)\<rparr>"

fun authenticate :: "auth \<Rightarrow> request \<Rightarrow> request" where
  "authenticate (BasicAuthentication a) options = set_header (js_str ''Authorization'') a options"
| "authenticate (TokenAuthentication scheme token) options =
     set_header (js_str ''Authorization'') (scheme @ js_str '' '' @ token) options"
| "authenticate (SessionAuthentication token header) options =
     (let options = options\<lparr>r_credentials := Some (js_str ''same-origin'')\<rparr>
      in case token of
           None \<Rightarrow> options
         | Some t \<Rightarrow> if t \<noteq> [] \<and> \<not> csrfSafeMethod (r_method options) then set_header header t options else options)"

section \<open>Negotiation\<close>

record 'd decoder =
  mediaType :: jsstring
  decode :: "jsstring \<Rightarrow> jsstring \<Rightarrow> js_error + 'd"
  \<comment> \<open>of the text and \<open>options.url\<close>\<close>

definition negotiateDecoder :: "'d decoder list \<Rightarrow> jsstring option \<Rightarrow> js_error + 'd decoder" where
  \<comment> \<open>the first decoder of none is \<open>undefined\<close>, whose \<open>decode\<close> cannot be read\<close>
  "negotiateDecoder decoders contentType =
     (case contentType of
        None \<Rightarrow> (case decoders of [] \<Rightarrow> Inl TypeError | d # _ \<Rightarrow> Inr d)
      | Some type \<Rightarrow>
          let fullType = trim (hd (split_on (cu CHR '';'') (toLowerCase type)));
              mainType = hd (split_on (cu CHR ''/'') fullType) @ js_str ''/*'';
              acceptableTypes = [fullType, mainType, js_str ''*/*'']
          in or_error (GeneralError (js_str ''Unsupported media in Content-Type header: '' @ type))
               (List.find (\<lambda>d. mediaType d \<in> set acceptableTypes) decoders))"

definition remove_colon :: "jsstring \<Rightarrow> jsstring" where
  \<comment> \<open>\<open>replace(':', '')\<close>, the first one only\<close>
  "remove_colon s =
     takeWhile (\<lambda>c. c \<noteq> cu CHR '':'') s @ (case dropWhile (\<lambda>c. c \<noteq> cu CHR '':'') s of [] \<Rightarrow> [] | _ # t \<Rightarrow> t)"

definition determineTransport :: "location \<Rightarrow> ('t \<Rightarrow> jsstring list) \<Rightarrow> 't list \<Rightarrow> jsstring \<Rightarrow> js_error + 't" where
  "determineTransport page schemes transports url =
     (let scheme = remove_colon (u_protocol (URL page url None))
      in or_error (GeneralError (js_str ''Unsupported scheme in URL: '' @ url)) (List.find (\<lambda>t. scheme \<in> set (schemes t)) transports))"

section \<open>Building a request\<close>

record transport =
  t_auth :: "auth option"
  t_headers :: "jsstring props"

definition http_schemes :: "transport \<Rightarrow> jsstring list" where
  "http_schemes t = [js_str ''http'', js_str ''https'']"

record params_split =
  queryParams :: "jvalue props"
  pathParams :: "jvalue props"
  formParams :: jvalue
  fieldNames :: "jsstring list"
  hasBody :: bool

definition empty_split :: params_split where
  "empty_split = \<lparr>queryParams = [], pathParams = [], formParams = JObj [], fieldNames = [], hasBody = False\<rparr>"

fun put_form :: "jsstring \<Rightarrow> jvalue \<Rightarrow> jvalue \<Rightarrow> js_error + jvalue" where
  \<comment> \<open>\<open>formParams[k] = v\<close>; in strict mode a primitive cannot be given a property. A form field after a body field with
    an array is not modelled\<close>
  "put_form k v (JObj ps) = Inr (JObj (assign_prop k v ps))"
| "put_form k v _ = Inl TypeError"

definition add_param :: "link_field \<Rightarrow> jvalue \<Rightarrow> params_split \<Rightarrow> js_error + params_split" where
  "add_param f v s =
     (let s = s\<lparr>fieldNames := fieldNames s @ [f_name f]\<rparr>
      in if f_location f = js_str ''query'' then Inr (s\<lparr>queryParams := assign_prop (f_name f) v (queryParams s)\<rparr>)
         else if f_location f = js_str ''path'' then Inr (s\<lparr>pathParams := assign_prop (f_name f) v (pathParams s)\<rparr>)
         else if f_location f = js_str ''form''
         then and_then (put_form (f_name f) v (formParams s)) (\<lambda>ps. Inr (s\<lparr>formParams := ps, hasBody := True\<rparr>))
         else if f_location f = js_str ''body'' then Inr (s\<lparr>formParams := v, hasBody := True\<rparr>)
         else Inr s)"

fun split_params :: "jvalue props \<Rightarrow> link_field list \<Rightarrow> params_split \<Rightarrow> js_error + params_split" where
  \<comment> \<open>the loop over the fields\<close>
  "split_params params [] s = Inr s"
| "split_params params (f # fs) s =
     (case map_of params (f_name f) of
        None \<Rightarrow> if f_required f then Inl (ParameterError (js_str ''Missing required field: \"'' @ f_name f @ js_str ''\"''))
                else split_params params fs s
      | Some v \<Rightarrow> and_then (add_param f v s) (split_params params fs))"

definition check_known :: "jvalue props \<Rightarrow> jsstring list \<Rightarrow> js_error + unit" where
  "check_known params names =
     (case List.find (\<lambda>(k, v). k \<notin> set names) params of
        None \<Rightarrow> Inr ()
      | Some (k, v) \<Rightarrow> Inl (ParameterError (js_str ''Unknown parameter: \"'' @ k @ js_str ''\"'')))"

fun enum_props :: "jvalue \<Rightarrow> jvalue props" where
  \<comment> \<open>\<open>for (k in v)\<close> with the values \<open>v[k]\<close>\<close>
  "enum_props (JObj ps) = ps"
| "enum_props (JArr vs) = map (\<lambda>i. (js_str (decimal i), vs ! i)) [0..<length vs]"
| "enum_props (JStr s) = map (\<lambda>i. (js_str (decimal i), JStr [s ! i])) [0..<length s]"
| "enum_props _ = []"

definition add_body :: "jsstring \<Rightarrow> jvalue \<Rightarrow> request \<Rightarrow> js_error + request" where
  "add_body encoding form options =
     (if encoding = js_str ''application/json''
      then Inr (set_header (js_str ''Content-Type'') (js_str ''application/json'') (options\<lparr>r_body := Some (JSONBody form)\<rparr>))
      else if encoding = js_str ''multipart/form-data''
      then Inr (options\<lparr>r_body := Some (FormData (enum_props form))\<rparr>)
      else if encoding = js_str ''application/x-www-form-urlencoded''
      then and_then (map_ok query_pair (enum_props form)) (\<lambda>pairs.
             Inr (set_header (js_str ''Content-Type'') (js_str ''application/x-www-form-urlencoded'')
                    (options\<lparr>r_body := Some (TextBody (join_with (js_str ''&'') pairs))\<rparr>)))
      else Inr options)"

definition request_url :: "location \<Rightarrow> link \<Rightarrow> params_split \<Rightarrow> js_error + jsstring" where
  "request_url page link s =
     and_then (expand (k_url link) (pathParams s)) (\<lambda>parsedUrl.
     and_then (url_set (Query (QObj (queryParams s))) (URL page parsedUrl None)) url_toString)"

definition buildRequest :: "location \<Rightarrow> transport \<Rightarrow> link \<Rightarrow> jvalue props \<Rightarrow> js_error + jsstring \<times> request" where
  \<comment> \<open>the URL and the options\<close>
  "buildRequest page t link params =
     and_then (if k_fields link = [] then Inr params else own_props params) (\<lambda>_.
     and_then (split_params params (k_fields link) empty_split) (\<lambda>s.
     and_then (own_props params) (\<lambda>_.
     and_then (check_known params (fieldNames s)) (\<lambda>_.
       let options = \<lparr>r_method = toUpperCase (k_method link), r_headers = assign_all (t_headers t),
                      r_body = None, r_credentials = None\<rparr>
       in and_then (if hasBody s then add_body (k_encoding link) (formParams s) options else Inr options) (\<lambda>options.
          let options = (case t_auth t of None \<Rightarrow> options | Some a \<Rightarrow> authenticate a options)
          in and_then (request_url page link s) (\<lambda>url. Inr (url, options)))))))"

section \<open>Sending it\<close>

record response =
  status :: nat
  status_ok :: bool
  statusText :: jsstring
  contentType :: "jsstring option"
  response_text :: jsstring
  response_url :: jsstring

datatype 'd failure = Raised js_error | ErrorMessage jsstring 'd | NetworkError
  \<comment> \<open>why the promise is rejected\<close>

definition parseResponse :: "'d decoder list \<Rightarrow> response \<Rightarrow> js_error + 'd" where
  "parseResponse decoders r =
     and_then (negotiateDecoder decoders (contentType r)) (\<lambda>d. decode d (response_text r) (response_url r))"

definition handle_response :: "'d decoder list \<Rightarrow> response \<Rightarrow> 'd failure + 'd option" where
  \<comment> \<open>\<open>None\<close> is \<open>undefined\<close>, the value for \<open>204 No Content\<close>\<close>
  "handle_response decoders r =
     (if status r = 204 then Inr None
      else (case parseResponse decoders r of
              Inl e \<Rightarrow> Inl (Raised e)
            | Inr data \<Rightarrow>
                if status_ok r then Inr (Some data)
                else Inl (ErrorMessage (js_str (decimal (status r)) @ js_str '' '' @ statusText r) data)))"

definition transport_action ::
  "location \<Rightarrow> (jsstring \<Rightarrow> request \<Rightarrow> response option) \<Rightarrow> transport \<Rightarrow> 'd decoder list \<Rightarrow> link \<Rightarrow> jvalue props \<Rightarrow>
     'd failure + 'd option" where
  "transport_action page fetch t decoders link params =
     (case buildRequest page t link params of
        Inl e \<Rightarrow> Inl (Raised e)
      | Inr (url, options) \<Rightarrow> (case fetch url options of None \<Rightarrow> Inl NetworkError | Some r \<Rightarrow> handle_response decoders r))"

record 'd client =
  c_decoders :: "'d decoder list"
  c_transports :: "transport list"

definition raised :: "js_error + 'a \<Rightarrow> ('a \<Rightarrow> 'd failure + 'b) \<Rightarrow> 'd failure + 'b" where
  "raised r f = (case r of Inl e \<Rightarrow> Inl (Raised e) | Inr x \<Rightarrow> f x)"

definition client_action ::
  "location \<Rightarrow> (jsstring \<Rightarrow> request \<Rightarrow> response option) \<Rightarrow> 'd client \<Rightarrow> node \<Rightarrow> jsstring list \<Rightarrow> jvalue props \<Rightarrow>
     'd failure + 'd option" where
  "client_action page fetch c document keys params =
     raised (lookupLink document keys) (\<lambda>link.
     raised (determineTransport page http_schemes (c_transports c) (k_url link)) (\<lambda>t.
       transport_action page fetch t (c_decoders c) link params))"

definition new_Link :: "jsstring \<Rightarrow> jsstring \<Rightarrow> link" where
  \<comment> \<open>\<open>new Link(url, method)\<close>\<close>
  "new_Link url method =
     \<lparr>k_url = url, k_method = method, k_encoding = js_str ''application/json'', k_fields = [], k_title = [], k_description = []\<rparr>"

definition client_get ::
  "location \<Rightarrow> (jsstring \<Rightarrow> request \<Rightarrow> response option) \<Rightarrow> 'd client \<Rightarrow> jsstring \<Rightarrow> 'd failure + 'd option" where
  "client_get page fetch c url =
     raised (determineTransport page http_schemes (c_transports c) url) (\<lambda>t.
       transport_action page fetch t (c_decoders c) (new_Link url (js_str ''get'')) [])"

definition CoreJSONCodec :: "location \<Rightarrow> (jsstring \<Rightarrow> js_error + jvalue) \<Rightarrow> node decoder" where
  "CoreJSONCodec page parse =
     \<lparr>mediaType = js_str ''application/coreapi+json'',
      decode = (\<lambda>text url. and_then (parse text) (\<lambda>data. primitiveToNode page data (Some url)))\<rparr>"

definition JSONCodec :: "(jsstring \<Rightarrow> js_error + jvalue) \<Rightarrow> node decoder" where
  "JSONCodec parse =
     \<lparr>mediaType = js_str ''application/json'', decode = (\<lambda>text url. and_then (parse text) (\<lambda>data. Inr (Plain data)))\<rparr>"

definition TextCodec :: "node decoder" where
  "TextCodec = \<lparr>mediaType = js_str ''text/*'', decode = (\<lambda>text url. Inr (Plain (JStr text)))\<rparr>"

definition new_Client :: "location \<Rightarrow> (jsstring \<Rightarrow> js_error + jvalue) \<Rightarrow> auth option \<Rightarrow> jsstring props \<Rightarrow> node client" where
  \<comment> \<open>without decoders and transports of the caller\<close>
  "new_Client page parse auth headers =
     \<lparr>c_decoders = [CoreJSONCodec page parse, JSONCodec parse, TextCodec],
      c_transports = [\<lparr>t_auth = auth, t_headers = headers\<rparr>]\<rparr>"

end
