(* ===== verification/Api_ClientSpec.thy ===== *)
theory Api_ClientSpec
  imports Api_Client
begin

text \<open>
  What a request of the Core API client consists of: the origin of its URL, the way of each parameter, and
  the header that protects a session.
\<close>

section \<open>The origin of a request\<close>

lemma cut_from_split: "cut_from c s = (b, a) \<Longrightarrow> s = a @ b \<and> (\<forall>d \<in> set a. d \<noteq> c) \<and> (b = [] \<or> hd b = c)"
proof -
  assume "cut_from c s = (b, a)"
  then have b: "b = dropWhile (\<lambda>d. d \<noteq> c) s" and a: "a = takeWhile (\<lambda>d. d \<noteq> c) s" by (simp_all add: cut_from_def)
  have "b = [] \<or> hd b = c" using hd_dropWhile [of "\<lambda>d. d \<noteq> c" s] b by auto
  moreover have "s = a @ b" unfolding a b by (rule takeWhile_dropWhile_id [symmetric])
  ultimately show ?thesis using a by (auto dest: set_takeWhileD)
qed

lemma path_query_hash:
  assumes "r = cu CHR ''/'' # r'"
  obtains path query hash where "r = path @ query @ hash" "path \<noteq> []" "hd path = cu CHR ''/''"
    "\<forall>c \<in> set path. \<not> js_in c ''?#''" "query = [] \<or> hd query = cu CHR ''?''" "\<forall>c \<in> set query. \<not> js_in c ''#''"
    "hash = [] \<or> hd hash = cu CHR ''#''"
proof -
  obtain hash a where h: "cut_from (cu CHR ''#'') r = (hash, a)" by (cases "cut_from (cu CHR ''#'') r")
  obtain query path where q: "cut_from (cu CHR ''?'') a = (query, path)" by (cases "cut_from (cu CHR ''?'') a")
  note hs = cut_from_split [OF h] and qs = cut_from_split [OF q]
  have r: "r = path @ query @ hash" using hs qs by simp
  have "path \<noteq> []"
  proof
    assume "path = []"
    then have "r = query @ hash" "query = [] \<or> hd query = 63" "hash = [] \<or> hd hash = 35" using r hs qs by auto
    then show False using assms by (cases query; cases hash) auto
  qed
  then have "hd path = cu CHR ''/''" using assms r by (cases path) auto
  then show ?thesis using that [OF r \<open>path \<noteq> []\<close>] hs qs by (auto simp: js_in_def js_str_def)
qed

lemma url_host_lower: "url_set (Query (QObj ps)) url = Inr url' \<Longrightarrow> toLowerCase (u_host url) = u_host url \<Longrightarrow>
    u_protocol url' = u_protocol url \<and> u_slashes url' = u_slashes url \<and> u_host url' = u_host url \<and>
    u_pathname url' = u_pathname url \<and> u_username url' = u_username url \<and> u_hash url' = u_hash url \<and> u_query url' = QObj ps"
  by (auto simp: url_set_def and_then_Inr Let_def)

lemma url_toString_absolute:
  assumes "url_toString url = Inr s" "u_protocol url = scheme @ js_str '':''" "u_slashes url" "u_username url = []"
  shows "\<exists>rest. s = scheme @ js_str ''://'' @ u_host url @ u_pathname url @ rest"
  using assms by (auto simp: url_toString_def and_then_Inr url_string_def js_str_def)

lemma request_url_origin:
  assumes "request_url page link s = Inr url"
    "k_url link = scheme @ js_str ''://'' @ with_port hostname port @ cu CHR ''/'' # template"
    "url_parts scheme hostname port [] [] []" "\<forall>c \<in> set hostname. plain_char c"
  shows "\<exists>rest. url = scheme @ js_str ''://'' @ with_port hostname (if required port (scheme @ js_str '':'') then port else []) @
      cu CHR ''/'' # rest"
proof -
  let ?pre = "scheme @ js_str ''://'' @ with_port hostname port @ [cu CHR ''/'']"
  have plain: "is_alnum c \<Longrightarrow> plain_char c" "js_in c ''.+-:/'' \<Longrightarrow> plain_char c" for c
    by (auto simp: plain_char_def uri_unescaped_def uri_reserved_def uri_mark_def no_brace_def js_in_def js_str_def is_alnum_def
        is_upper_def is_lower_def is_digit_def)
  have "\<forall>c \<in> set scheme. is_alnum c \<or> js_in c ''.+-''" "\<forall>c \<in> set port. is_alnum c"
    using assms(3) by (auto simp: url_parts_def scheme_char_def is_alnum_def)
  then have "\<forall>c \<in> set ?pre. plain_char c"
    using assms(4) plain by (auto simp: with_port_def js_in_def js_str_def)
  then have "expand (k_url link) (pathParams s) = and_then (expand template (pathParams s)) (\<lambda>e. Inr (?pre @ e))"
    using expand_plain_prefix [of ?pre template] by (simp add: assms(2))
  then obtain e url' where e: "url_set (Query (QObj (queryParams s))) (URL page (?pre @ e) None) = Inr url'" "url_toString url' = Inr url"
    using assms(1) by (auto simp: request_url_def and_then_Inr)
  obtain path query hash where p: "cu CHR ''/'' # e = path @ query @ hash" "path \<noteq> []" "hd path = cu CHR ''/''"
    "\<forall>c \<in> set path. \<not> js_in c ''?#''" "query = [] \<or> hd query = cu CHR ''?''" "\<forall>c \<in> set query. \<not> js_in c ''#''"
    "hash = [] \<or> hd hash = cu CHR ''#''"
    by (rule path_query_hash [OF refl])
  define U where "U = URL page (?pre @ e) None"
  let ?port = "if required port (scheme @ js_str '':'') then port else []"
  have "url_parts scheme hostname port path query hash" using assms(3) p by (auto simp: url_parts_def)
  from URL_absolute [OF this, of page] p(1)
  have u: "u_protocol U = scheme @ js_str '':''" "u_slashes U" "u_host U = with_port hostname ?port" "u_pathname U = path"
    "u_username U = []"
    by (simp_all add: U_def URL_def lolcation_def Let_def)
  have "\<forall>c \<in> set (with_port hostname ?port). \<not> is_upper c"
    using assms(3) by (auto simp: with_port_def url_parts_def js_str_def is_upper_def is_digit_def)
  then have "toLowerCase (u_host U) = u_host U" by (simp add: u(3) toLowerCase_id)
  from url_host_lower [OF e(1) [folded U_def] this] url_toString_absolute [OF e(2)] u
  obtain rest where "url = scheme @ js_str ''://'' @ with_port hostname ?port @ path @ rest" by auto
  then show ?thesis using p(2,3) by (cases path) auto
qed

section \<open>The way of each parameter\<close>

definition given :: "jvalue props \<Rightarrow> link_field list \<Rightarrow> string \<Rightarrow> jsstring \<Rightarrow> jvalue option" where
  \<comment> \<open>the parameter \<open>k\<close>, if a field puts it at this location\<close>
  "given params fs location k =
     (if \<exists>f \<in> set fs. f_name f = k \<and> f_location f = js_str location then map_of params k else None)"

definition over :: "'v option \<Rightarrow> 'v option \<Rightarrow> 'v option" where
  "over a b = (case a of None \<Rightarrow> b | Some v \<Rightarrow> Some v)"

lemma over_None [simp]: "over None b = b" "over a None = a"
  by (simp_all add: over_def split: option.split)

lemma map_of_assign_prop: "k \<noteq> js_str ''__proto__'' \<Longrightarrow> map_of (assign_prop j v ps) k = (if k = j then Some v else map_of ps k)"
  by (simp add: assign_prop_def map_of_obj_put)

lemma distinct_obj_put: "distinct (map fst ps) \<Longrightarrow> distinct (map fst (obj_put k v ps))"
proof (cases "k \<in> fst ` set ps")
  case True
  then have "map fst (obj_put k v ps) = map fst ps" by (auto simp: obj_put_def)
  then show "distinct (map fst ps) \<Longrightarrow> ?thesis" by simp
next
  case False
  let ?b = "\<lambda>(j, w). key_before j k"
  assume d: "distinct (map fst ps)"
  have "distinct (map fst (takeWhile ?b ps @ dropWhile ?b ps))" "k \<notin> fst ` set (takeWhile ?b ps @ dropWhile ?b ps)"
    using False d by simp_all
  then show ?thesis using False unfolding obj_put_def map_append distinct_append set_append by auto
qed

definition holds_params :: "jvalue props \<Rightarrow> (jsstring \<Rightarrow> jvalue option) \<Rightarrow> bool" where
  \<comment> \<open>an object with these properties, but for the name that sets a prototype\<close>
  "holds_params ps f \<longleftrightarrow> distinct (map fst ps) \<and> (\<forall>k. k \<noteq> js_str ''__proto__'' \<longrightarrow> map_of ps k = f k)"

lemma holds_params_assign:
  "holds_params ps f \<Longrightarrow> holds_params (assign_prop j v ps) (\<lambda>k. over (if j = k then Some v else None) (f k))"
  by (auto simp: holds_params_def assign_prop_def distinct_obj_put map_of_obj_put over_def)

definition carries :: "params_split \<Rightarrow> (string \<Rightarrow> jsstring \<Rightarrow> jvalue option) \<Rightarrow> bool" where
  \<comment> \<open>the three objects hold these parameters, each once, and there is a body if one of them is for the form\<close>
  "carries s loc = (\<exists>F. formParams s = JObj F \<and> (hasBody s \<longleftrightarrow> (\<exists>k. loc ''form'' k \<noteq> None)) \<and>
     holds_params (queryParams s) (loc ''query'') \<and> holds_params (pathParams s) (loc ''path'') \<and> holds_params F (loc ''form''))"

lemma locations_differ:
  "js_str ''query'' \<noteq> js_str ''path''" "js_str ''query'' \<noteq> js_str ''form''" "js_str ''path'' \<noteq> js_str ''form''"
  "js_str ''query'' \<noteq> js_str ''body''" "js_str ''path'' \<noteq> js_str ''body''" "js_str ''form'' \<noteq> js_str ''body''"
  by (simp_all add: js_str_def)

lemma add_param_carries:
  assumes "carries s loc" "f_location f \<noteq> js_str ''body''" "map_of params (f_name f) = Some v"
  shows "\<exists>s'. add_param f v s = Inr s' \<and> carries s' (\<lambda>l k. over (given params [f] l k) (loc l k)) \<and> fieldNames s' = fieldNames s @ [f_name f]"
proof -
  obtain F where F: "formParams s = JObj F" "hasBody s \<longleftrightarrow> (\<exists>k. loc ''form'' k \<noteq> None)"
    "holds_params (queryParams s) (loc ''query'')" "holds_params (pathParams s) (loc ''path'')" "holds_params F (loc ''form'')"
    using assms(1) by (auto simp: carries_def)
  have g: "given params [f] l = (\<lambda>k. if f_name f = k then if f_location f = js_str l then Some v else None else None)" for l
    using assms(3) by (auto simp: given_def)
  note put = holds_params_assign [of _ _ "f_name f" v]
  have id: "(\<lambda>k. over (if f_name f = k then None else None) (h k)) = h" for h :: "jsstring \<Rightarrow> jvalue option" by simp
  consider "f_location f = js_str ''query''" | "f_location f = js_str ''path''" | "f_location f = js_str ''form''"
    | "f_location f \<noteq> js_str ''query''" "f_location f \<noteq> js_str ''path''" "f_location f \<noteq> js_str ''form''" by blast
  then show ?thesis
  proof cases
    case 1
    then show ?thesis using F put [OF F(3)] by (simp add: add_param_def carries_def g locations_differ)
  next
    case 2
    then show ?thesis using F put [OF F(4)] locations_differ [symmetric] by (simp add: add_param_def carries_def g locations_differ)
  next
    case 3
    then show ?thesis using F put [OF F(5)] locations_differ [symmetric]
      by (auto simp: add_param_def carries_def g locations_differ over_def)
  next
    case 4
    then show ?thesis using F assms(2) by (simp add: add_param_def carries_def g)
  qed
qed

lemma given_Cons: "given params (f # fs) l k = over (given params fs l k) (given params [f] l k)"
  by (auto simp: given_def over_def split: option.split)

definition names_given :: "jvalue props \<Rightarrow> link_field list \<Rightarrow> jsstring list" where
  "names_given params fs = filter (\<lambda>k. map_of params k \<noteq> None) (map f_name fs)"

lemma split_params_carries:
  assumes "carries s loc" "\<forall>f \<in> set fs. f_location f \<noteq> js_str ''body''"
    "\<forall>f \<in> set fs. f_required f \<longrightarrow> map_of params (f_name f) \<noteq> None"
  shows "\<exists>s'. split_params params fs s = Inr s' \<and> carries s' (\<lambda>l k. over (given params fs l k) (loc l k)) \<and>
    fieldNames s' = fieldNames s @ names_given params fs"
  using assms
proof (induction fs arbitrary: s loc)
  case Nil
  then show ?case by (simp add: given_def names_given_def)
next
  case (Cons f fs)
  show ?case
  proof (cases "map_of params (f_name f)")
    case None
    then have "given params [f] l k = None" for l k by (auto simp: given_def)
    then have "over (given params (f # fs) l k) b = over (given params fs l k) b" for l k b
      by (simp add: given_Cons [of params f fs])
    then show ?thesis using Cons None by (simp add: names_given_def)
  next
    case (Some v)
    obtain s1 where s1: "add_param f v s = Inr s1" "carries s1 (\<lambda>l k. over (given params [f] l k) (loc l k))"
      "fieldNames s1 = fieldNames s @ [f_name f]"
      using add_param_carries [OF Cons.prems(1) _ Some] Cons.prems(2) by auto
    have "over (given params fs l k) (over (given params [f] l k) b) = over (given params (f # fs) l k) b" for l k b
      by (simp add: given_Cons [of params f fs] over_def split: option.split)
    then show ?thesis using Cons.IH [OF s1(2)] Cons.prems Some s1 by (auto simp: names_given_def)
  qed
qed

lemma split_params_missing:
  assumes "carries s loc" "\<forall>f \<in> set fs. f_location f \<noteq> js_str ''body''" "f \<in> set fs" "f_required f" "map_of params (f_name f) = None"
  shows "\<exists>m. split_params params fs s = Inl (ParameterError m)"
  using assms
proof (induction fs arbitrary: s loc)
  case (Cons g fs)
  show ?case
  proof (cases "map_of params (f_name g)")
    case (Some v)
    then have "f \<in> set fs" using Cons.prems by auto
    moreover obtain s1 where "add_param g v s = Inr s1" "carries s1 (\<lambda>l k. over (given params [g] l k) (loc l k))"
      using add_param_carries [OF Cons.prems(1) _ Some] Cons.prems(2) by auto
    ultimately show ?thesis using Cons.IH Cons.prems Some by fastforce
  qed (use Cons in auto)
qed simp

lemma carries_empty: "carries empty_split (\<lambda>l k. None)"
  by (simp add: carries_def empty_split_def holds_params_def)

lemma find_SomeD: "List.find P xs = Some x \<Longrightarrow> x \<in> set xs \<and> P x"
  by (induction xs) (auto split: if_splits)

lemma check_known_iff: "check_known params names = Inr () \<longleftrightarrow> fst ` set params \<subseteq> set names"
  "check_known params names \<noteq> Inr () \<Longrightarrow> \<exists>m. check_known params names = Inl (ParameterError m)"
proof -
  show "check_known params names = Inr () \<longleftrightarrow> fst ` set params \<subseteq> set names"
  proof (cases "List.find (\<lambda>(k, v). k \<notin> set names) params")
    case None
    then have "fst ` set params \<subseteq> set names" by (auto simp: find_None_iff)
    then show ?thesis using None by (simp add: check_known_def)
  next
    case (Some p)
    then have "p \<in> set params" "fst p \<notin> set names" using find_SomeD [OF Some] by (auto split: prod.splits)
    then have "\<not> fst ` set params \<subseteq> set names" by blast
    moreover have "check_known params names \<noteq> Inr ()" using Some by (simp add: check_known_def split: prod.split)
    ultimately show ?thesis by simp
  qed
qed (auto simp: check_known_def split: option.splits)

section \<open>Headers\<close>

lemma header_after_set: "h \<noteq> js_str ''__proto__'' \<Longrightarrow>
    map_of (r_headers (set_header k v options)) h = (if h = k then Some v else map_of (r_headers options) h)"
  by (simp add: set_header_def map_of_assign_prop)

lemma add_body_keeps:
  assumes "add_body encoding form options = Inr options'"
  shows "r_method options' = r_method options" "r_credentials options' = r_credentials options"
    "h \<noteq> js_str ''__proto__'' \<Longrightarrow> h \<noteq> js_str ''Content-Type'' \<Longrightarrow> map_of (r_headers options') h = map_of (r_headers options) h"
  using assms by (auto simp: add_body_def and_then_Inr header_after_set split: if_splits) (simp_all add: set_header_def)

section \<open>The parts of a request\<close>

definition sends_form :: "jsstring \<Rightarrow> jvalue props \<Rightarrow> body option \<Rightarrow> bool" where
  \<comment> \<open>the body that carries these properties in this encoding; an unknown encoding sends none\<close>
  "sends_form encoding F b \<longleftrightarrow>
     (if encoding = js_str ''application/json'' then b = Some (JSONBody (JObj F))
      else if encoding = js_str ''multipart/form-data'' then b = Some (FormData F)
      else if encoding = js_str ''application/x-www-form-urlencoded''
      then \<exists>text. querystringify F JUndef = Inr text \<and> b = Some (TextBody text)
      else b = None)"

lemma querystringify_plain: "querystringify ps JUndef = and_then (map_ok query_pair ps) (\<lambda>pairs. Inr (join_with (js_str ''&'') pairs))"
  by (cases "map_ok query_pair ps") (simp_all add: querystringify_def)

lemma add_body_sends: "add_body encoding (JObj F) options = Inr options' \<Longrightarrow> r_body options = None \<Longrightarrow> sends_form encoding F (r_body options')"
  by (auto simp: add_body_def sends_form_def querystringify_plain and_then_Inr set_header_def split: if_splits)

lemma authenticate_keeps: "r_method (authenticate a options) = r_method options \<and> r_body (authenticate a options) = r_body options"
  by (cases a) (simp_all add: set_header_def Let_def split: option.split)

lemma toLowerCase_idem [simp]: "toLowerCase (toLowerCase s) = toLowerCase s"
proof -
  have "\<not> is_upper (c + 32)" if "is_upper c" for c
  proof -
    have "unat c + 32 < 2 ^ LENGTH(16)" using that by (simp add: is_upper_def)
    then have "unat (c + 32) = unat c + 32" by (simp add: unat_word_ariths)
    then show ?thesis using that by (simp add: is_upper_def)
  qed
  then show ?thesis by (simp add: toLowerCase_def lower_char_def)
qed

lemma URL_host_lower: "toLowerCase (u_host (URL page address loc)) = u_host (URL page address loc)"
  by (simp add: URL_def URL_at_def Let_def split: prod.split)

lemma request_url_parts:
  assumes "request_url page link s = Inr url"
  shows "\<exists>e q. expand (k_url link) (pathParams s) = Inr e \<and> querystringify (queryParams s) JUndef = Inr q \<and>
    url = url_string (URL page e None) q"
proof -
  obtain e u where e: "expand (k_url link) (pathParams s) = Inr e" "url_set (Query (QObj (queryParams s))) (URL page e None) = Inr u"
    "url_toString u = Inr url"
    using assms by (auto simp: request_url_def and_then_Inr)
  have u: "u_protocol u = u_protocol (URL page e None) \<and> u_slashes u = u_slashes (URL page e None) \<and> u_host u = u_host (URL page e None) \<and>
      u_pathname u = u_pathname (URL page e None) \<and> u_username u = u_username (URL page e None) \<and>
      u_password u = u_password (URL page e None) \<and> u_hash u = u_hash (URL page e None) \<and> u_query u = QObj (queryParams s)"
    using e(2) URL_host_lower [of page e None] by (auto simp: url_set_def and_then_Inr Let_def)
  then have "url_string u q = url_string (URL page e None) q" for q by (simp add: url_string_def)
  then show ?thesis using e(1,3) u by (auto simp: url_toString_def and_then_Inr)
qed

lemma buildRequest_params:
  assumes "\<forall>f \<in> set (k_fields link). f_location f \<noteq> js_str ''body''" "buildRequest page t link params = Inr (url, options)"
  defines "loc \<equiv> given params (k_fields link)"
  shows "(\<forall>f \<in> set (k_fields link). f_required f \<longrightarrow> map_of params (f_name f) \<noteq> None) \<and>
    fst ` set params \<subseteq> f_name ` set (k_fields link) \<and>
    (\<exists>s F. request_url page link s = Inr url \<and> formParams s = JObj F \<and> holds_params F (loc ''form'') \<and>
      holds_params (queryParams s) (loc ''query'') \<and> holds_params (pathParams s) (loc ''path'') \<and>
      (if \<exists>k. loc ''form'' k \<noteq> None then sends_form (k_encoding link) F (r_body options) else r_body options = None)) \<and>
    r_method options = toUpperCase (k_method link)"
proof -
  define o0 where "o0 = \<lparr>r_method = toUpperCase (k_method link), r_headers = assign_all (t_headers t), r_body = None, r_credentials = None\<rparr>"
  obtain s o1 where s: "split_params params (k_fields link) empty_split = Inr s" "check_known params (fieldNames s) = Inr ()"
    "request_url page link s = Inr url"
    and o1: "(if hasBody s then add_body (k_encoding link) (formParams s) o0 else Inr o0) = Inr o1"
    "options = (case t_auth t of None \<Rightarrow> o1 | Some a \<Rightarrow> authenticate a o1)"
    using assms(2) unfolding buildRequest_def and_then_Inr Let_def o0_def [symmetric]
    by (elim exE conjE) (rule that, assumption, auto)
  have req: "\<forall>f \<in> set (k_fields link). f_required f \<longrightarrow> map_of params (f_name f) \<noteq> None"
  proof (intro ballI impI notI)
    fix f assume "f \<in> set (k_fields link)" "f_required f" "map_of params (f_name f) = None"
    then show False using split_params_missing [OF carries_empty assms(1), where params = params] s(1) by fastforce
  qed
  then obtain s' where "split_params params (k_fields link) empty_split = Inr s'"
    "carries s' (\<lambda>l k. over (given params (k_fields link) l k) None)" "fieldNames s' = [] @ names_given params (k_fields link)"
    using split_params_carries [OF carries_empty assms(1)] by (auto simp: empty_split_def)
  then have c: "carries s loc" and names: "fieldNames s = names_given params (k_fields link)" using s(1) by (simp_all add: loc_def)
  then obtain F where F: "formParams s = JObj F" "hasBody s \<longleftrightarrow> (\<exists>k. loc ''form'' k \<noteq> None)" "holds_params F (loc ''form'')"
    "holds_params (queryParams s) (loc ''query'')" "holds_params (pathParams s) (loc ''path'')"
    by (auto simp: carries_def)
  have keep: "r_method options = r_method o1" "r_body options = r_body o1"
    using o1(2) authenticate_keeps by (auto split: option.splits)
  have m: "r_method o1 = r_method o0" using o1(1) add_body_keeps(1) by (auto split: if_splits)
  have body: "if \<exists>k. loc ''form'' k \<noteq> None then sends_form (k_encoding link) F (r_body options) else r_body options = None"
  proof (cases "hasBody s")
    case True
    then show ?thesis using o1(1) F(1,2) add_body_sends [of "k_encoding link" F o0 o1] keep(2) by (simp add: o0_def)
  next
    case False
    then show ?thesis using o1(1) F(2) keep(2) by (auto simp: o0_def)
  qed
  have "fst ` set params \<subseteq> f_name ` set (k_fields link)" using s(2) names by (auto simp: check_known_iff names_given_def)
  moreover have "r_method options = toUpperCase (k_method link)" using keep(1) m by (simp add: o0_def)
  ultimately show ?thesis using req s(3) F(1,3-5) body by blast
qed

lemma buildRequest_refuses:
  assumes "\<forall>f \<in> set (k_fields link). f_location f \<noteq> js_str ''body''" "js_str ''hasOwnProperty'' \<notin> fst ` set params"
    "(\<exists>f \<in> set (k_fields link). f_required f \<and> map_of params (f_name f) = None) \<or> \<not> fst ` set params \<subseteq> f_name ` set (k_fields link)"
  shows "\<exists>m. buildRequest page t link params = Inl (ParameterError m)"
proof -
  have own: "own_props params = Inr params" using assms(2) by (simp add: own_props_def)
  show ?thesis
  proof (cases "\<exists>f \<in> set (k_fields link). f_required f \<and> map_of params (f_name f) = None")
    case True
    then obtain m where "split_params params (k_fields link) empty_split = Inl (ParameterError m)"
      using split_params_missing [OF carries_empty assms(1)] by blast
    then show ?thesis using own by (simp add: buildRequest_def)
  next
    case False
    then obtain s where s: "split_params params (k_fields link) empty_split = Inr s"
      "fieldNames s = names_given params (k_fields link)"
      using split_params_carries [OF carries_empty assms(1)] by (auto simp: empty_split_def)
    have "check_known params (fieldNames s) \<noteq> Inr ()" using False assms(3) s(2) by (auto simp: check_known_iff names_given_def)
    then obtain m where "check_known params (fieldNames s) = Inl (ParameterError m)" using check_known_iff(2) by blast
    then show ?thesis using own s(1) by (simp add: buildRequest_def)
  qed
qed

lemma map_of_assign_all_None: "h \<notin> fst ` set hs \<Longrightarrow> map_of (assign_all hs) h = None"
  by (auto simp: map_of_assign_all last_value_def map_of_eq_None_iff)

lemma buildRequest_session:
  assumes "buildRequest page t link params = Inr (url, options)" "t_auth t = Some (SessionAuthentication (Some token) h)" "token \<noteq> []"
    "h \<noteq> js_str ''Content-Type''" "h \<noteq> js_str ''__proto__''" "h \<notin> fst ` set (t_headers t)"
  shows "map_of (r_headers options) h = (if csrfSafeMethod (toUpperCase (k_method link)) then None else Some token)"
    "r_credentials options = Some (js_str ''same-origin'')"
proof -
  define o0 where "o0 = \<lparr>r_method = toUpperCase (k_method link), r_headers = assign_all (t_headers t), r_body = None, r_credentials = None\<rparr>"
  obtain s :: params_split and o1 where
    o1: "(if hasBody s then add_body (k_encoding link) (formParams s) o0 else Inr o0) = Inr o1"
      "options = authenticate (SessionAuthentication (Some token) h) o1"
    using assms(1) unfolding buildRequest_def and_then_Inr Let_def assms(2) option.case o0_def [symmetric]
    by (elim exE conjE) (rule that, assumption, simp del: authenticate.simps)
  have "r_method o1 = r_method o0" "map_of (r_headers o1) h = map_of (r_headers o0) h"
    using o1(1) add_body_keeps [of "k_encoding link" "formParams s" o0 o1] assms(4,5) by (auto split: if_splits)
  then have "r_method o1 = toUpperCase (k_method link)" "map_of (r_headers o1) h = None"
    using map_of_assign_all_None [OF assms(6)] by (simp_all add: o0_def)
  then show "map_of (r_headers options) h = (if csrfSafeMethod (toUpperCase (k_method link)) then None else Some token)"
    "r_credentials options = Some (js_str ''same-origin'')"
    using o1(2) assms(3,5) by (auto simp: header_after_set Let_def) (simp_all add: set_header_def)
qed

section \<open>Cookies\<close>

definition cookie_text :: "(jsstring \<times> jsstring) list \<Rightarrow> jsstring" where
  \<comment> \<open>\<open>document.cookie\<close>, from names and values as they are stored\<close>
  "cookie_text cs = join_with (js_str ''; '') (map (\<lambda>(n, v). n @ js_str ''='' @ v) cs)"

definition cookie_ok :: "jsstring \<times> jsstring \<Rightarrow> bool" where
  "cookie_ok = (\<lambda>(n, v). n \<noteq> [] \<and> (\<forall>c \<in> set n. \<not> is_space c \<and> c \<noteq> 59 \<and> c \<noteq> 61) \<and> (\<forall>c \<in> set v. \<not> is_space c \<and> c \<noteq> 59))"

lemma trim_id: "s \<noteq> [] \<Longrightarrow> \<not> is_space (hd s) \<Longrightarrow> \<not> is_space (last s) \<Longrightarrow> trim s = s"
proof -
  assume s: "s \<noteq> []" "\<not> is_space (hd s)" "\<not> is_space (last s)"
  have id: "dropWhile is_space u = u" if "u \<noteq> []" "\<not> is_space (hd u)" for u using that by (cases u) auto
  show ?thesis using s id [of s] id [of "rev s"] by (simp add: trim_def hd_rev)
qed

lemma cookie_text_trim:
  assumes "cookie_ok (n, v)" shows "trim (n @ js_str ''='' @ v) = n @ js_str ''='' @ v" "trim (32 # n @ js_str ''='' @ v) = n @ js_str ''='' @ v"
proof -
  have e: "\<not> is_space 61" "is_space 32" by (simp_all add: is_space_def)
  show t: "trim (n @ js_str ''='' @ v) = n @ js_str ''='' @ v"
    by (rule trim_id) (use assms e in \<open>auto simp: cookie_ok_def js_str_def\<close>)
  then show "trim (32 # n @ js_str ''='' @ v) = n @ js_str ''='' @ v" using e by (simp add: trim_def)
qed

lemma cookie_parts:
  "\<forall>c \<in> set cs. cookie_ok c \<Longrightarrow> cs \<noteq> [] \<Longrightarrow>
     map trim (split_on 59 (cookie_text cs)) = map (\<lambda>(n, v). n @ js_str ''='' @ v) cs \<and>
     map trim (split_on 59 (32 # cookie_text cs)) = map (\<lambda>(n, v). n @ js_str ''='' @ v) cs"
proof (induction cs)
  case (Cons c cs)
  obtain n v where c: "c = (n, v)" "cookie_ok (n, v)" using Cons.prems by (cases c) auto
  have no: "59 \<notin> set (n @ js_str ''='' @ v)" using c(2) by (auto simp: cookie_ok_def js_str_def)
  show ?case
  proof (cases "cs = []")
    case True
    then show ?thesis using split_on_none [OF no] split_on_none [of 59 "32 # n @ js_str ''='' @ v"] no cookie_text_trim [OF c(2)]
      by (simp add: cookie_text_def c(1))
  next
    case False
    then have "cookie_text (c # cs) = (n @ js_str ''='' @ v) @ 59 # 32 # cookie_text cs"
      by (simp add: cookie_text_def c(1) join_with_Cons js_str_def)
    moreover have "split_on 59 (32 # (n @ js_str ''='' @ v) @ 59 # 32 # cookie_text cs) =
        (32 # n @ js_str ''='' @ v) # split_on 59 (32 # cookie_text cs)"
      using split_on_append [of 59 "32 # n @ js_str ''='' @ v"] no by simp
    ultimately show ?thesis using split_on_append [OF no, of "32 # cookie_text cs"] Cons False cookie_text_trim [OF c(2)]
      by (simp add: c(1) del: append_assoc)
  qed
qed simp

lemma find_cookie_map:
  "\<forall>c \<in> set cs. cookie_ok c \<Longrightarrow> 61 \<notin> set name \<Longrightarrow> map trim parts = map (\<lambda>(n, v). n @ js_str ''='' @ v) cs \<Longrightarrow>
     find_cookie name parts = (case map_of cs name of
       None \<Rightarrow> Inr None | Some e \<Rightarrow> and_then (or_error URIError (decodeURIComponent e)) (\<lambda>v. Inr (Some v)))"
proof (induction cs arbitrary: parts)
  case (Cons c cs)
  obtain n v where c: "c = (n, v)" "cookie_ok (n, v)" using Cons.prems by (cases c) auto
  obtain p ps where p: "parts = p # ps" "trim p = n @ js_str ''='' @ v" "map trim ps = map (\<lambda>(n, v). n @ js_str ''='' @ v) cs"
    using Cons.prems(3) c by (cases parts) auto
  have "take (length name + 1) (n @ js_str ''='' @ v) = name @ js_str ''='' \<longleftrightarrow> n = name"
  proof
    assume "take (length name + 1) (n @ js_str ''='' @ v) = name @ js_str ''=''"
    then have "n @ js_str ''='' @ v = name @ js_str ''='' @ drop (length name + 1) (n @ js_str ''='' @ v)"
      by (metis append_assoc append_take_drop_id)
    then have "takeWhile (\<lambda>c. c \<noteq> 61) (n @ 61 # v) = takeWhile (\<lambda>c. c \<noteq> 61) (name @ 61 # drop (length name + 1) (n @ 61 # v))"
      by (simp add: js_str_def)
    moreover have "\<forall>c \<in> set n. c \<noteq> 61" "\<forall>c \<in> set name. c \<noteq> 61" using c(2) Cons.prems(2) by (auto simp: cookie_ok_def)
    ultimately show "n = name" by (simp add: takeWhile_append)
  qed (simp add: js_str_def)
  moreover have "drop (length name + 1) (name @ js_str ''='' @ v) = v" by (simp add: js_str_def)
  ultimately show ?case using Cons.IH [of ps] Cons.prems p c by (auto simp: Let_def)
qed simp

lemma getCookie_map:
  assumes "\<forall>c \<in> set cs. cookie_ok c" "61 \<notin> set name"
  shows "getCookie (cookie_text cs) name [] =
    (case map_of cs name of
       None \<Rightarrow> Inr None | Some e \<Rightarrow> and_then (or_error URIError (decodeURIComponent e)) (\<lambda>v. Inr (Some v)))"
proof (cases "cs = []")
  case True
  then show ?thesis by (simp add: getCookie_def or_else_def cookie_text_def)
next
  case False
  then obtain n v cs' where "cs = (n, v) # cs'" by (cases cs) auto
  then have "cookie_text cs \<noteq> []" by (cases "cs' = []") (simp_all add: cookie_text_def join_with_Cons js_str_def)
  then show ?thesis
    using find_cookie_map [OF assms, of "split_on 59 (cookie_text cs)"] cookie_parts [OF assms(1) False]
    by (simp add: getCookie_def or_else_def)
qed

end
