(* ===== verification/Api_Props.thy ===== *)
theory Api_Props
  imports Api_ClientSpec
begin

text \<open>
  The properties of the Core API client, from its query strings and URL templates to whole requests. The
  witnesses evaluate the code on small inputs.
\<close>

text \<open>
  C33. A query string can be read back: \<open>parse\<close> of what \<open>stringify\<close> prints for an object of strings is that object, with or
  without the question mark in front, whatever the characters of the names and values; the names are not empty and none
  is \<open>__proto__\<close>.
\<close>

theorem query_roundtrip:
  assumes "string_props ps" "querystringify ps prefix = Inr q" "prefix = JUndef \<or> prefix = JBool True"
  shows "querystring q = Inr ps"
  by (rule querystring_querystringify [OF assms])

theorem query_roundtrip_witness:
  "querystring (js_str ''?a%20b=x%26y&n=%E2%82%AC%F0%9F%98%80'') =
     Inr [(js_str ''a b'', JStr (js_str ''x&y'')), (js_str ''n'', JStr [0x20AC, 0xD83D, 0xDE00])]"
proof (rule query_roundtrip)
  show "string_props [(js_str ''a b'', JStr (js_str ''x&y'')), (js_str ''n'', JStr [0x20AC, 0xD83D, 0xDE00])]"
    by (simp add: string_props_def ordered_props_def key_before_def index_key_def string_eval)
  show "querystringify [(js_str ''a b'', JStr (js_str ''x&y'')), (js_str ''n'', JStr [0x20AC, 0xD83D, 0xDE00])] (JBool True) =
      Inr (js_str ''?a%20b=x%26y&n=%E2%82%AC%F0%9F%98%80'')"
    by (simp add: querystringify_def query_pair_def string_eval)
qed simp

text \<open>
  C34. A URL template keeps its structure: for a template without operators, the expansion has exactly the delimiters
  (\<open>/ ? # & : @ ; + $\<close>) of the template's own literals, in their order, whatever values the context holds. A string put
  for a single variable is found between the two encoded literals, and decoding it gives back the string.
\<close>

theorem template_contains_values:
  assumes "expand template context = Inr r" "simple_template template"
  shows "filter delimiter r = filter delimiter (concat (map literal (pieces template))) \<and>
    (\<forall>pre name post s. template = pre @ js_str ''{'' @ name @ js_str ''}'' @ post \<and> (\<forall>c \<in> set (pre @ post). no_brace c) \<and>
       plain_name name \<and> map_of context name = Some (JStr s) \<and> s \<noteq> [] \<longrightarrow>
       (\<exists>p e q. r = p @ e @ q \<and> encodeReserved pre = Inr p \<and> encodeReserved post = Inr q \<and> decodeURIComponent e = Some s))"
proof (intro conjI allI impI)
  show "filter delimiter r = filter delimiter (concat (map literal (pieces template)))" by (rule expand_filter [OF assms])
next
  fix pre name post s
  assume a: "template = pre @ js_str ''{'' @ name @ js_str ''}'' @ post \<and> (\<forall>c \<in> set (pre @ post). no_brace c) \<and>
       plain_name name \<and> map_of context name = Some (JStr s) \<and> s \<noteq> []"
  then have "\<exists>p e q. encodeReserved pre = Inr p \<and> encodeUnreserved s = Inr e \<and> encodeReserved post = Inr q \<and> r = p @ e @ q"
    using assms(1) by (intro expand_variable) auto
  then show "\<exists>p e q. r = p @ e @ q \<and> encodeReserved pre = Inr p \<and> encodeReserved post = Inr q \<and> decodeURIComponent e = Some s"
    using decode_unreserved by blast
qed

lemma template_example:
  "expand (js_str ''/t/{id}'') [(js_str ''id'', JStr (js_str ''a/../b?c''))] = Inr (js_str ''/t/a%2F..%2Fb%3Fc'')"
  "simple_template (js_str ''/t/{id}'')"
  by (simp_all add: expand_def pieces.simps(2) no_brace_def expand_expression_def operators_def variable_parts_def getValues_def
      context_value_def isDefined_def scalar_values_def isKeyOperator_def encodeValue_def encodeReserved_def encode_part_def
      encodeUnreserved_def simple_template_def string_eval)

theorem template_contains_values_witness:
  "filter delimiter (js_str ''/t/a%2F..%2Fb%3Fc'') = js_str ''//''"
proof -
  have "concat (map literal (pieces (js_str ''/t/{id}''))) = js_str ''/t/''"
    by (simp add: pieces.simps(2) no_brace_def string_eval)
  moreover have "filter delimiter (js_str ''/t/'') = js_str ''//''" by (simp add: delimiter_def string_eval)
  ultimately show ?thesis using template_contains_values [OF template_example] by simp
qed

text \<open>
  C35. Resolving a path against a base removes the dot segments: the loop, which runs backwards, counts the \<open>..\<close> segments and
  splices, computes what a stack of segments computes forwards, and a path can never climb above the root.
\<close>

theorem resolve_is_remove_dots:
  assumes "base = cu CHR ''/'' # dir"
  shows "resolve relative base =
     (let segs = butlast (split_on (cu CHR ''/'') dir) @ split_on (cu CHR ''/'') relative
      in join_with (js_str ''/'') ([] # remove_dots [] segs @ dot_end segs))"
  by (rule resolve_remove_dots [OF assms])

theorem resolve_is_remove_dots_witness:
  "resolve (js_str ''../../../c/./..'') (js_str ''/a/b/x'') = js_str ''/''"
  by (subst resolve_is_remove_dots [where dir = "js_str ''a/b/x''"]) (simp_all add: dot_end_def string_eval)

text \<open>
  C36. An absolute URL is taken apart into its scheme, host, port, path, query and hash, and printed as it was, except that the
  default port of its scheme is dropped; the origin is made of the scheme, the host and that port.
\<close>

theorem absolute_url_roundtrip:
  assumes "url_parts scheme hostname port path query hash"
  shows "let p = (if required port (scheme @ js_str '':'') then port else []);
      url = URL page (scheme @ js_str ''://'' @ with_port hostname port @ path @ query @ hash) None
    in u_hostname url = hostname \<and> u_port url = p \<and> u_pathname url = path \<and> u_query url = QText query \<and> u_hash url = hash \<and>
       u_origin url = (if scheme = js_str ''file'' then js_str ''null'' else scheme @ js_str ''://'' @ with_port hostname p) \<and>
       u_href url = scheme @ js_str ''://'' @ with_port hostname p @ path @ query @ hash"
  using URL_absolute [OF assms, of page] by (simp add: URL_def lolcation_def Let_def)

theorem absolute_url_roundtrip_witness:
  "u_href (URL no_location (js_str ''https://a.b:443/x?y=1#z'') None) = js_str ''https://a.b/x?y=1#z''"
proof -
  have "url_parts (js_str ''https'') (js_str ''a.b'') (js_str ''443'') (js_str ''/x'') (js_str ''?y=1'') (js_str ''#z'')"
    by (simp add: url_parts_def scheme_char_def string_eval)
  moreover have "\<not> required (js_str ''443'') (js_str ''https'' @ js_str '':'')" by (simp add: required_def string_eval)
  ultimately show ?thesis
    using absolute_url_roundtrip [of "js_str ''https''" "js_str ''a.b''" "js_str ''443''" "js_str ''/x''" "js_str ''?y=1''"
        "js_str ''#z''" no_location]
    by (simp add: Let_def with_port_def js_str_def)
qed

text \<open>
  C37. Decoding a document and then looking up a link is the same as walking the JSON data along the path of keys
  and decoding the one link at its end, relative to the URL of the innermost document around it; the errors are the same too. Both
  follow own properties only, not the names that objects inherit.
\<close>

theorem lookup_decodes_one_link:
  assumes "primitiveToNode page data baseUrl = Inr node"
  shows "lookupLink node keys = find_link page data baseUrl keys"
  by (rule lookup_after_decode [OF assms])

definition example_data :: jvalue where
  "example_data = JObj
     [(js_str ''_type'', JStr (js_str ''document'')), (js_str ''_meta'', JObj [(js_str ''url'', JStr (js_str ''http://h/d/''))]),
      (js_str ''users'', JObj [(js_str ''list'', JObj [(js_str ''_type'', JStr (js_str ''link'')), (js_str ''url'', JStr (js_str ''../u''))])])]"

definition example_link :: link where
  "example_link = new_Link (js_str ''http://h/u'') (js_str ''get'')"

lemmas url_eval =
  URL_at_def extractProtocol_def scheme_char_def cut_from_def cut_auth_def cut_port_def nth_or_def newline_def required_def
  or_else_def url_string_def url_origin_def no_location_def string_eval Let_def

lemma example_base:
  "lolcation no_location (Some (js_str ''http://h/d/'')) =
     \<lparr>l_slashes = True, l_protocol = js_str ''http:'', l_host = js_str ''h'', l_port = [], l_hostname = js_str ''h'',
      l_pathname = js_str ''/d/''\<rparr>"
  by (simp add: lolcation_def url_eval cong: eval_congs)

lemma example_urls:
  "absolute_url no_location (js_str ''http://h/d/'') None = Inr (js_str ''http://h/d/'')"
  "absolute_url no_location (js_str ''../u'') (Some (js_str ''http://h/d/'')) = Inr (js_str ''http://h/u'')"
proof -
  show "absolute_url no_location (js_str ''http://h/d/'') None = Inr (js_str ''http://h/d/'')"
    unfolding absolute_url_def URL_def url_toString_def lolcation_def by (simp add: url_eval cong: eval_congs)
  have "resolve (js_str ''../u'') (js_str ''/d/'') = js_str ''/u''" by (simp add: resolve_def string_eval)
  then show "absolute_url no_location (js_str ''../u'') (Some (js_str ''http://h/d/'')) = Inr (js_str ''http://h/u'')"
    unfolding absolute_url_def URL_def example_base url_toString_def by (simp add: url_eval cong: eval_congs)
qed

lemma example_key: "unescapeKey (js_str ''users'') = js_str ''users''"
  by (simp add: unescapeKey_def ends_with_def string_eval)

lemmas document_eval =
  example_data_def example_link_def new_Link_def has_type_def document_url_def document_text_def getObject_def getString_def
  getArray_def content_props_def example_key decode_link_def or_else_def own_props_def example_urls

theorem lookup_decodes_one_link_witness:
  "\<exists>node. primitiveToNode no_location example_data None = Inr node \<and>
     lookupLink node [js_str ''users'', js_str ''list''] = Inr example_link"
proof -
  have "\<exists>node. primitiveToNode no_location example_data None = Inr node"
    by (simp add: document_eval primitiveToNode.simps(1) cong: eval_congs)
  then obtain node where n: "primitiveToNode no_location example_data None = Inr node" by blast
  have "find_link no_location example_data None [js_str ''users'', js_str ''list''] = Inr example_link"
    by (simp add: document_eval last_value_def cong: eval_congs)
  then show ?thesis using n lookup_decodes_one_link [OF n] by simp
qed

definition complete_params :: "link \<Rightarrow> jvalue props \<Rightarrow> bool" where
  \<comment> \<open>every required field is given, and every parameter has a field\<close>
  "complete_params link params \<longleftrightarrow> (\<forall>f \<in> set (k_fields link). f_required f \<longrightarrow> map_of params (f_name f) \<noteq> None) \<and>
    fst ` set params \<subseteq> f_name ` set (k_fields link)"

text \<open>
  C38. A request carries the given parameters. When a request is built, every required field was given and every parameter has
  a field. The parameters whose field says \<open>path\<close> are what the template is expanded with; those whose field says \<open>query\<close>, printed by
  \<open>querystringify\<close>, are the query of the URL that is sent; those whose field says
  \<open>form\<close> are the body, in the encoding of the link, and without one of them there is no body; the method is that of the
  link in capitals. Of the template's own URL the protocol, host, path and hash are kept, its query is replaced. A path parameter that the
  template does not name, a field with any other location, and the form of an unknown encoding are checked and not sent. A missing
  required field or an unknown parameter is a \<open>ParameterError\<close>. Links with a body field are not part of this.
\<close>

theorem request_carries_parameters:
  assumes "\<forall>f \<in> set (k_fields link). f_location f \<noteq> js_str ''body''" "js_str ''hasOwnProperty'' \<notin> fst ` set params"
  shows "case buildRequest page t link params of
      Inr (url, options) \<Rightarrow> complete_params link params \<and>
        (\<exists>Q P F path q.
          holds_params Q (given params (k_fields link) ''query'') \<and> holds_params P (given params (k_fields link) ''path'') \<and>
          holds_params F (given params (k_fields link) ''form'') \<and>
          expand (k_url link) P = Inr path \<and> querystringify Q JUndef = Inr q \<and> url = url_string (URL page path None) q \<and>
          (if \<exists>k. given params (k_fields link) ''form'' k \<noteq> None then sends_form (k_encoding link) F (r_body options)
           else r_body options = None)) \<and>
        r_method options = toUpperCase (k_method link)
    | Inl e \<Rightarrow> \<not> complete_params link params \<longrightarrow> (\<exists>m. e = ParameterError m)"
proof (cases "buildRequest page t link params")
  case (Inl e)
  have "\<exists>m. e = ParameterError m" if "\<not> complete_params link params"
  proof -
    have "\<exists>m. buildRequest page t link params = Inl (ParameterError m)"
      by (rule buildRequest_refuses [OF assms]) (use that in \<open>auto simp: complete_params_def\<close>)
    then show ?thesis using Inl by auto
  qed
  then show ?thesis using Inl by simp
next
  case (Inr r)
  obtain url options where r: "r = (url, options)" by (cases r)
  note b = buildRequest_params [OF assms(1) Inr [unfolded r]]
  then obtain s F where s: "request_url page link s = Inr url" "holds_params F (given params (k_fields link) ''form'')"
    "holds_params (queryParams s) (given params (k_fields link) ''query'')" "holds_params (pathParams s) (given params (k_fields link) ''path'')"
    "if \<exists>k. given params (k_fields link) ''form'' k \<noteq> None then sends_form (k_encoding link) F (r_body options) else r_body options = None"
    by blast
  show ?thesis
    unfolding Inr r sum.case prod.case complete_params_def using b s request_url_parts [OF s(1)] by blast
qed

definition example_fields :: link where
  "example_fields = (new_Link (js_str ''http://h/u/{id}/'') (js_str ''put''))\<lparr>k_fields :=
     [\<lparr>f_name = js_str ''id'', f_required = True, f_location = js_str ''path'', f_description = []\<rparr>,
      \<lparr>f_name = js_str ''page'', f_required = False, f_location = js_str ''query'', f_description = []\<rparr>]\<rparr>"

definition no_headers :: "auth option \<Rightarrow> transport" where
  "no_headers a = \<lparr>t_auth = a, t_headers = []\<rparr>"

definition example_form :: link where
  "example_form = (new_Link (js_str ''http://h/u/'') (js_str ''post''))\<lparr>k_fields :=
     [\<lparr>f_name = js_str ''name'', f_required = True, f_location = js_str ''form'', f_description = []\<rparr>]\<rparr>"

lemmas request_eval =
  buildRequest_def own_props_def add_param_def empty_split_def check_known_def add_body_def request_url_def url_set_def
  expand_def pieces.simps(2) no_brace_def expand_expression_def operators_def variable_parts_def getValues_def
  context_value_def isDefined_def scalar_values_def isKeyOperator_def encodeValue_def encodeReserved_def encode_part_def
  encodeUnreserved_def querystringify_def query_pair_def set_header_def no_headers_def URL_def lolcation_def url_toString_def
  assign_all_def assign_prop_def obj_put_def key_before_def index_key_def

theorem request_carries_parameters_witness:
  "(\<exists>m. buildRequest no_location (no_headers None) example_fields [(js_str ''page'', JNum (js_str ''2''))] = Inl (ParameterError m)) \<and>
   (\<exists>url options F. buildRequest no_location (no_headers None) example_form [(js_str ''name'', JStr (js_str ''x''))] = Inr (url, options) \<and>
     r_method options = js_str ''POST'' \<and> r_body options = Some (JSONBody (JObj F)) \<and> map_of F (js_str ''name'') = Some (JStr (js_str ''x'')))"
proof -
  let ?b = "buildRequest no_location (no_headers None) example_fields [(js_str ''page'', JNum (js_str ''2''))]"
  have fields: "\<forall>f \<in> set (k_fields example_fields). f_location f \<noteq> js_str ''body''"
    by (simp add: example_fields_def new_Link_def)
  have own: "js_str ''hasOwnProperty'' \<notin> fst ` set [(js_str ''page'', JNum (js_str ''2''))]" by simp
  have missing: "\<not> complete_params example_fields [(js_str ''page'', JNum (js_str ''2''))]"
    by (simp add: complete_params_def example_fields_def new_Link_def)
  have refused: "\<exists>m. ?b = Inl (ParameterError m)"
    using request_carries_parameters [OF fields own, of no_location "no_headers None"] missing by (cases ?b) auto
  let ?ps = "[(js_str ''name'', JStr (js_str ''x''))]"
  have form: "\<forall>f \<in> set (k_fields example_form). f_location f \<noteq> js_str ''body''" "js_str ''hasOwnProperty'' \<notin> fst ` set ?ps"
    by (simp_all add: example_form_def new_Link_def)
  have g: "given ?ps (k_fields example_form) ''form'' (js_str ''name'') = Some (JStr (js_str ''x''))"
    "k_encoding example_form = js_str ''application/json''" "toUpperCase (k_method example_form) = js_str ''POST''"
    by (simp_all add: given_def example_form_def new_Link_def string_eval)
  obtain url options where b: "buildRequest no_location (no_headers None) example_form ?ps = Inr (url, options)"
    by (simp add: example_form_def new_Link_def request_eval url_eval cong: eval_congs)
  note sent = request_carries_parameters [OF form, of no_location "no_headers None", unfolded b sum.case prod.case g(2,3)]
  have some: "\<exists>k. given ?ps (k_fields example_form) ''form'' k \<noteq> None" using g(1) by blast
  obtain F where "holds_params F (given ?ps (k_fields example_form) ''form'')" "sends_form (js_str ''application/json'') F (r_body options)"
    "r_method options = js_str ''POST''"
    using sent unfolding if_P [OF some] by blast
  then show ?thesis using refused b g(1) by (auto simp: sends_form_def holds_params_def js_str_def)
qed

text \<open>
  C39. Parameters cannot redirect a request: for a link with an absolute URL whose scheme and host are literal, the URL of every
  request that is built starts with that scheme, host and port (a default port is left out) and a slash, whatever the
  template behind it and the values of the parameters.
\<close>

theorem request_keeps_origin:
  assumes "buildRequest page t link params = Inr (url, options)"
    "k_url link = scheme @ js_str ''://'' @ with_port hostname port @ cu CHR ''/'' # template"
    "url_parts scheme hostname port [] [] []" "\<forall>c \<in> set hostname. plain_char c"
  shows "\<exists>rest. url = scheme @ js_str ''://'' @ with_port hostname (if required port (scheme @ js_str '':'') then port else []) @
    cu CHR ''/'' # rest"
proof -
  obtain s where "request_url page link s = Inr url" using assms(1) by (auto simp: buildRequest_def and_then_Inr Let_def)
  then show ?thesis by (rule request_url_origin [OF _ assms(2-4)])
qed

lemma example_request:
  "buildRequest no_location (no_headers None) example_fields [(js_str ''id'', JStr (js_str ''../@x/'')), (js_str ''page'', JNum (js_str ''2''))] =
     Inr (js_str ''http://h/u/..%2F%40x%2F/?page=2'', \<lparr>r_method = js_str ''PUT'', r_headers = [], r_body = None, r_credentials = None\<rparr>)"
  by (simp add: example_fields_def new_Link_def request_eval url_eval cong: eval_congs)

theorem request_keeps_origin_witness:
  "\<exists>rest. js_str ''http://h/u/..%2F%40x%2F/?page=2'' = js_str ''http://h/'' @ rest"
proof -
  have "k_url example_fields = js_str ''http'' @ js_str ''://'' @ with_port (js_str ''h'') [] @ cu CHR ''/'' # js_str ''u/{id}/''"
    by (simp add: example_fields_def new_Link_def with_port_def js_str_def)
  moreover have "url_parts (js_str ''http'') (js_str ''h'') [] [] [] []" by (simp add: url_parts_def scheme_char_def string_eval)
  moreover have "\<forall>c \<in> set (js_str ''h''). plain_char c" by (simp add: plain_char_def no_brace_def string_eval)
  ultimately show ?thesis using request_keeps_origin [OF example_request, of "js_str ''http''" "js_str ''h''" "[]"]
    by (auto simp: with_port_def js_str_def)
qed

text \<open>
  C40. The session's CSRF token reaches the server exactly when it must: a token that the page keeps in a cookie, encoded,
  is sent as it was in the header of every request whose method is not \<open>GET\<close>, \<open>HEAD\<close>, \<open>OPTIONS\<close> or
  \<open>TRACE\<close>, in whatever case the link spells it, and never with one of these; the credentials stay with the same origin.
\<close>

theorem csrf_token_sent:
  assumes "\<forall>c \<in> set cookies. cookie_ok c" "61 \<notin> set name" "map_of cookies name = Some e" "encodeURIComponent token = Some e"
    "token \<noteq> []" "new_Session (cookie_text cookies) name [] header = Inr session" "t_auth t = Some session"
    "header \<noteq> js_str ''Content-Type''" "header \<noteq> js_str ''__proto__''" "header \<notin> fst ` set (t_headers t)"
    "buildRequest page t link params = Inr (url, options)"
  shows "map_of (r_headers options) header = (if csrfSafeMethod (toUpperCase (k_method link)) then None else Some token) \<and>
    r_credentials options = Some (js_str ''same-origin'')"
proof -
  have "session = SessionAuthentication (Some token) header"
    using assms(6) getCookie_map [OF assms(1,2)] decode_encoded [OF assms(4)] by (simp add: new_Session_def assms(3))
  then show ?thesis using buildRequest_session [OF assms(11) _ assms(5,8-10)] assms(7) by simp
qed

theorem csrf_token_sent_witness:
  "\<exists>session url options. new_Session (js_str ''a=1; csrftoken=x%2Fy'') (js_str ''csrftoken'') [] (js_str ''X-CSRFToken'') = Inr session \<and>
     buildRequest no_location (no_headers (Some session)) example_link [] = Inr (url, options) \<and> map_of (r_headers options) (js_str ''X-CSRFToken'') = None \<and>
     (\<exists>url options. buildRequest no_location (no_headers (Some session)) (example_link\<lparr>k_method := js_str ''post''\<rparr>) [] = Inr (url, options) \<and>
       map_of (r_headers options) (js_str ''X-CSRFToken'') = Some (js_str ''x/y''))"
proof -
  let ?cs = "[(js_str ''a'', js_str ''1''), (js_str ''csrftoken'', js_str ''x%2Fy'')]"
  have cs: "\<forall>c \<in> set ?cs. cookie_ok c" "61 \<notin> set (js_str ''csrftoken'')" "map_of ?cs (js_str ''csrftoken'') = Some (js_str ''x%2Fy'')"
    "encodeURIComponent (js_str ''x/y'') = Some (js_str ''x%2Fy'')" "js_str ''x/y'' \<noteq> []"
    by (simp_all add: cookie_ok_def is_space_def string_eval)
  have ct: "cookie_text ?cs = js_str ''a=1; csrftoken=x%2Fy''" by (simp add: cookie_text_def js_str_def)
  let ?s = "SessionAuthentication (Some (js_str ''x/y'')) (js_str ''X-CSRFToken'')"
  have s: "new_Session (cookie_text ?cs) (js_str ''csrftoken'') [] (js_str ''X-CSRFToken'') = Inr ?s"
    using getCookie_map [OF cs(1,2)] decode_encoded [OF cs(4)] unfolding new_Session_def cs(3) by simp
  have r: "\<exists>url options. buildRequest no_location (no_headers (Some ?s)) (example_link\<lparr>k_method := m\<rparr>) [] = Inr (url, options)" for m
    by (simp add: example_link_def new_Link_def request_eval url_eval cong: eval_congs)
  have h: "js_str ''X-CSRFToken'' \<noteq> js_str ''Content-Type''" "js_str ''X-CSRFToken'' \<noteq> js_str ''__proto__''"
    "js_str ''X-CSRFToken'' \<notin> fst ` set (t_headers (no_headers (Some ?s)))" "t_auth (no_headers (Some ?s)) = Some ?s"
    by (simp_all add: js_str_def no_headers_def)
  note sent = csrf_token_sent [OF cs s h(4,1-3)]
  have get: "example_link\<lparr>k_method := js_str ''get''\<rparr> = example_link" "k_method example_link = js_str ''get''"
    by (simp_all add: example_link_def new_Link_def)
  obtain url options where g: "buildRequest no_location (no_headers (Some ?s)) example_link [] = Inr (url, options)"
    using r [of "js_str ''get''"] unfolding get(1) by blast
  obtain url' options' where p: "buildRequest no_location (no_headers (Some ?s)) (example_link\<lparr>k_method := js_str ''post''\<rparr>) [] = Inr (url', options')"
    using r by blast
  have "csrfSafeMethod (toUpperCase (js_str ''get''))" "\<not> csrfSafeMethod (toUpperCase (js_str ''post''))"
    by (simp_all add: csrfSafeMethod_def string_eval)
  then show ?thesis using s ct g p sent [OF g] sent [OF p] by (auto simp: get(2))
qed

end
