(* ===== verification/Spec2Isabelle.thy ===== *)
theory Spec2Isabelle
  imports Imm_MapProps Imm_MapDepth JS_Props Imm_ListProps Seq_Props Seq_RangeProps Imm_StackProps Imm_SetProps
    Imm_OrderedProps Imm_RecordProps Api_Props
begin

text \<open>
  A verification development for the JavaScript of the Taurus backend. Its algorithms are in two files that the
  API pages load: Immutable.js as it is served there, \<open>static/drf-yasg/immutable.js\<close>, and the Core API client,
  \<open>static/rest_framework/js/coreapi-0.1.1.js\<close>. The development translates the persistent collections and lazy
  sequences of the first with the hashing and arithmetic beneath them, and the request path of the second, from a
  decoded document to the URL, headers and body that are sent. It proves that they do what they promise, or shows
  where they do not.

  \<^bold>\<open>The program and the theories.\<close>

  \<^item> \<^bold>\<open>Language.\<close> \<open>Prelude\<close> has safe array reads, stoppable loops, the array primitives of JavaScript and the
    outcomes of a copy-on-write update (the receiver, a new object, nothing). \<open>JS_Number\<close> has numbers
    (\<open>NaN\<close>, infinities, rationals, rounding to doubles), \<open>JS_Int32\<close> and \<open>JS_Index\<close> the 32-bit operators and
    the index helpers (\<open>wrapIndex\<close>, \<open>resolveBegin\<close>, \<open>wholeSlice\<close>).
  \<^item> \<^bold>\<open>Equality and hashing.\<close> \<open>JS_Hash\<close> (\<open>hashString\<close> and its cache, \<open>smi\<close>, \<open>imul\<close>, the murmur steps),
    \<open>JS_Value\<close> (\<open>is\<close>, \<open>hash\<close>, \<open>hashJSObj\<close>), \<open>Popcount\<close> (\<open>popCount\<close>), \<open>JS_Keys\<close> (values as keys). The methods that
    objects bring along (\<open>valueOf\<close>, \<open>equals\<close>, \<open>hashCode\<close>) are the parameter \<open>H\<close>; \<open>js_objects\<close> states their
    documented laws.
  \<^item> \<^bold>\<open>Map.\<close> \<open>Imm_Trie\<close> has the five kinds of trie nodes, each with \<open>get\<close>, \<open>update\<close> and \<open>iterate\<close>; \<open>Imm_Map\<close> the
    class with its owners and merging; \<open>Imm_MapIter\<close> the iterator with its stack. The proofs are in
    \<open>Imm_TrieInv\<close>, \<open>Imm_TrieEntries\<close>, \<open>Imm_TrieGet\<close>, \<open>Imm_TrieUpdate\<close>, \<open>Imm_TrieSpec\<close>, \<open>Imm_TrieOps\<close>,
    \<open>Imm_RootSpec\<close>, \<open>Imm_MapSpec\<close> and \<open>Imm_MapDepth\<close>.
  \<^item> \<^bold>\<open>List.\<close> \<open>Imm_List\<close> has the vector trie, \<open>Imm_ListOps\<close> the resizing (\<open>setListBounds\<close>) and the methods. \<open>Imm_ListInv\<close>,
    \<open>Imm_ListSpec\<close>, \<open>Imm_ListModel\<close> and \<open>Imm_ListMethods\<close> relate it to the lists of HOL, \<open>Imm_ListIter\<close> treats iteration.
  \<^item> \<^bold>\<open>Collections over Map and List.\<close> \<open>Imm_Set\<close> (a map to \<open>true\<close>), \<open>Imm_OrderedMap\<close> with \<open>Imm_OrderedSpec\<close> (a
    list of entries and a map into it), \<open>Imm_Record\<close> (a map of the fields that were set), and \<open>Imm_Stack\<close> (linked
    cells).
  \<^item> \<^bold>\<open>Sequences.\<close> \<open>Seq_Core\<close> has the two protocols of iteration (\<open>__iterate\<close> with a callback, \<open>__iterator\<close> with \<open>next\<close>),
    \<open>Seq_Sources\<close> the sources and their caches, \<open>Seq_Views\<close>, \<open>Seq_Filters\<close>, \<open>Seq_Flatten\<close>, \<open>Seq_Combine\<close> and
    \<open>Seq_Order\<close> the lazy operations, \<open>Seq_Reads\<close> the methods that read an iterable to its end, \<open>Seq_Ranges\<close>
    \<open>Range\<close> and \<open>Repeat\<close>.
  \<^item> \<^bold>\<open>Core API client.\<close> \<open>JS_Strings\<close> has strings of UTF-16 code units with \<open>encodeURI\<close>, \<open>encodeURIComponent\<close> and
    \<open>decodeURIComponent\<close>; \<open>Api_Values\<close> the values of JSON, properties in their order, and errors. The modules of
    the bundle are \<open>Api_Query\<close> (\<open>querystringify\<close>), \<open>Api_Template\<close> (\<open>url-template\<close>), \<open>Api_Url\<close> (\<open>url-parse\<close>,
    \<open>requires-port\<close>, \<open>lolcation\<close>), \<open>Api_Document\<close> (documents, the Core JSON codec, \<open>lookupLink\<close>) and \<open>Api_Client\<close>
    (authentication, negotiation, \<open>buildRequest\<close>, transport and client). The lemmas on whole requests are in
    \<open>Api_ClientSpec\<close>. \<open>fetch\<close>, \<open>JSON.parse\<close>, \<open>btoa\<close>, the location of the page and its cookie are parameters.
  \<^item> \<^bold>\<open>Properties.\<close> The theories whose names end in \<open>Props\<close>, and \<open>Imm_MapDepth\<close>, hold the properties with
    their witnesses.

  \<^bold>\<open>State.\<close> A JavaScript object is a record with the fields of the code, \<open>None\<close> for \<open>undefined\<close> and \<open>null\<close>. A method
  that may return its receiver says so in its result (\<open>upd\<close>, \<open>This\<close> and \<open>New\<close>), so that identity tests of the code are
  tests in the model. Owners are numbers handed out by a counter. Exceptions are a sum or an option;
  a loop that may not end is a partial function. A callback is a function on a state of its caller, so
  the order of the calls and an early stop are part of every statement on \<open>__iterate\<close>. An iterator is a step
  function on its state.

  \<^bold>\<open>Interfaces.\<close> \<open>key_equality\<close> is what the trie needs of \<open>is\<close> and \<open>hash\<close>, provided by \<open>js_objects\<close>.
  \<open>keyed_store\<close> is what a map promises to \<open>Set\<close>, \<open>Record\<close>, \<open>OrderedMap\<close>, merging and mutation in batches, and
  \<open>ordered_keys\<close> what an ordered map relies on; each is interpreted on the definitions of the code.

  \<^bold>\<open>What is shown.\<close> For the keyed collections: every update refines the update of a finite map (up to
  \<open>is\<close>), keeps the invariant, returns the receiver when nothing changes, and with an owner that marks no node
  edits none in place; iteration visits each entry once, and the iterator agrees with it. For \<open>List\<close>: each method is the
  list operation it is named after, inside the stated bounds; \<open>list_setSize_hangs\<close>, \<open>list_setSize_stale\<close> and
  \<open>list_slice_stale\<close> are places where the code departs from it. For the
  sequences: both protocols of filtering, flattening, ranges and raw iterators deliver the same entries, and sorting is
  stable over any sort of arrays. For the helpers: the laws of equality and
  hashing, wrap-around arithmetic and closed forms. For the client: query strings and absolute URLs are read back as
  they were printed, the resolution of paths removes dot segments, a link is decoded as its document says, parameters
  are the URL and the body of a request as their fields say and change neither the structure of a template nor the origin of a
  request, and the CSRF token is sent with the methods that need it.

  \<^bold>\<open>Bounds.\<close> A trie over 32-bit hashes has at most seven levels. No fuel is used: the node operations recurse over the trie, and
  \<open>mergeIntoNode\<close> over the distance to the first hash bits that differ. The raw indices of a \<open>List\<close> stay below \<open>2 ^ 30\<close>, beyond which \<open>setListBounds\<close> no longer
  ends (\<open>list_setSize_hangs\<close>); within the bound its loops are shown to return. A list grows correctly
  when no empty tail node lies above defined elements (\<open>grows_safely\<close>); what happens otherwise is
  \<open>list_setSize_stale\<close> and \<open>list_slice_stale\<close>. Ranges are treated for integer ends up to \<open>2 ^ 30\<close> and steps up to
  \<open>2 ^ 20\<close>, where the rounded quotient of the constructor is shown to give the right number of values.

  \<^bold>\<open>Not modelled.\<close> Editing a trie node in place is a copy in the model, so a node, or an entry, that two maps share by
  mistake is not seen to change under the other one; nor are the shared empty objects
  (\<open>EMPTY_MAP\<close> and the like) distinguished from other empty ones. Where a loop runs over what it edits, \<open>intersect\<close> and
  \<open>subtract\<close> on a set with an owner, the array of a small set is modelled as it changes (\<open>live_loop\<close>), and larger sets are
  taken not to own the nodes that are iterated. \<open>Array.prototype.sort\<close> is a parameter. A string that names an
  inherited function in the cache of hashes has the hash 0 in a map. \<open>toString\<close> and \<open>inspect\<close>, the conversions \<open>fromJS\<close> and
  \<open>toJS\<close>, dispatch on the run-time type of a constructor's argument and the numbering of objects in browsers
  without \<open>WeakMap\<close> are left out. In the client, \<open>toLowerCase\<close> and \<open>toUpperCase\<close> change the letters of ASCII only,
  \<open>lookupLink\<close> follows own properties only, neither the names every object inherits nor the values of a property
  \<open>__proto__\<close> in the data, and pages with a \<open>blob:\<close> location, the two
  callbacks, which observe, and a form field after a body field with an array are left out; so is the polyfill of
  \<open>fetch\<close> at the end of the bundle, which gives way to the browser's own. The other scripts of the repository are glue
  around the DOM, jQuery and Swagger UI, or third-party bundles.
\<close>

end
